(* ===== verification/GoText.thy ===== *)
theory GoText
  imports Prelude
begin

text \<open>
  Go's text primitives as the program uses them: decoding a byte string into runes
  (\<^verbatim>\<open>range\<close> over a string and \<^verbatim>\<open>[]rune(s)\<close>), encoding runes (\<^verbatim>\<open>WriteRune\<close>,
  \<^verbatim>\<open>string(runes)\<close>), \<^verbatim>\<open>utf16.Encode\<close>, and the program's own
  \<^verbatim>\<open>canonical.LessUTF16\<close> with the sorts built on it. The main result is that
  \<open>LessUTF16\<close> is a strict order that separates well-formed UTF-8 strings, so the key order
  used for every hash and every schedule is deterministic.
\<close>

section \<open>UTF-8 and UTF-16\<close>

abbreviation byte :: "char \<Rightarrow> nat" where
  "byte c \<equiv> of_char c"

definition rune_error :: nat where
  "rune_error = 65533"

definition cont :: "char \<Rightarrow> bool" where
  "cont c = (128 \<le> byte c \<and> byte c \<le> 191)"

text \<open>
  One step of Go's decoder: the rune and the number of bytes it spans. Every malformed
  sequence is one \<open>rune_error\<close> of width one.
\<close>

definition lo2 :: "nat \<Rightarrow> nat" where
  "lo2 b = (if b = 224 then 160 else if b = 240 then 144 else 128)"

definition hi2 :: "nat \<Rightarrow> nat" where
  "hi2 b = (if b = 237 then 159 else if b = 244 then 143 else 191)"

fun decode2 :: "nat \<Rightarrow> string \<Rightarrow> nat \<times> nat" where
  "decode2 b (d # _) =
     (if cont d then ((b - 192) * 64 + (byte d - 128), 2) else (rune_error, 1))"
| "decode2 b _ = (rune_error, 1)"

fun decode3 :: "nat \<Rightarrow> string \<Rightarrow> nat \<times> nat" where
  "decode3 b (d # e # _) =
     (if lo2 b \<le> byte d \<and> byte d \<le> hi2 b \<and> cont e
      then ((b - 224) * 4096 + (byte d - 128) * 64 + (byte e - 128), 3) else (rune_error, 1))"
| "decode3 b _ = (rune_error, 1)"

fun decode4 :: "nat \<Rightarrow> string \<Rightarrow> nat \<times> nat" where
  "decode4 b (d # e # f # _) =
     (if lo2 b \<le> byte d \<and> byte d \<le> hi2 b \<and> cont e \<and> cont f
      then ((b - 240) * 262144 + (byte d - 128) * 4096 + (byte e - 128) * 64 + (byte f - 128), 4)
      else (rune_error, 1))"
| "decode4 b _ = (rune_error, 1)"

fun decode_rune :: "string \<Rightarrow> nat \<times> nat" where
  "decode_rune [] = (rune_error, 0)"
| "decode_rune (c # cs) =
     (let b = byte c in
      if b < 128 then (b, 1)
      else if 194 \<le> b \<and> b \<le> 223 then decode2 b cs
      else if 224 \<le> b \<and> b \<le> 239 then decode3 b cs
      else if 240 \<le> b \<and> b \<le> 244 then decode4 b cs
      else (rune_error, 1))"

lemma decode2_size: "0 < snd (decode2 b cs) \<and> snd (decode2 b cs) \<le> Suc (length cs)"
  by (induction b cs rule: decode2.induct) simp_all

lemma decode3_size: "0 < snd (decode3 b cs) \<and> snd (decode3 b cs) \<le> Suc (length cs)"
  by (induction b cs rule: decode3.induct) simp_all

lemma decode4_size: "0 < snd (decode4 b cs) \<and> snd (decode4 b cs) \<le> Suc (length cs)"
  by (induction b cs rule: decode4.induct) simp_all

lemma decode_rune_size: "s \<noteq> [] \<Longrightarrow> 0 < snd (decode_rune s) \<and> snd (decode_rune s) \<le> length s"
  by (cases s) (simp_all add: Let_def decode2_size decode3_size decode4_size)

text \<open>\<^verbatim>\<open>[]rune(s)\<close>, and the order in which \<^verbatim>\<open>for _, r := range s\<close> visits the runes.\<close>

function runes :: "string \<Rightarrow> nat list" where
  "runes s = (if s = [] then [] else fst (decode_rune s) # runes (drop (snd (decode_rune s)) s))"
  by pat_completeness auto
termination
proof (relation "measure length")
  fix s :: string
  assume "s \<noteq> []"
  then show "(drop (snd (decode_rune s)) s, s) \<in> measure length"
    using decode_rune_size[of s] by simp
qed simp

declare runes.simps [simp del]

definition scalar :: "nat \<Rightarrow> bool" where
  "scalar r = (r < 55296 \<or> (57344 \<le> r \<and> r < 1114112))"

text \<open>\<^verbatim>\<open>utf8.AppendRune\<close>: surrogates and out-of-range runes become \<open>rune_error\<close>.\<close>

definition encode_rune :: "nat \<Rightarrow> string" where
  "encode_rune r0 =
     (let r = (if scalar r0 then r0 else rune_error) in
      if r < 128 then [char_of r]
      else if r < 2048 then [char_of (192 + r div 64), char_of (128 + r mod 64)]
      else if r < 65536 then
        [char_of (224 + r div 4096), char_of (128 + r div 64 mod 64), char_of (128 + r mod 64)]
      else
        [char_of (240 + r div 262144), char_of (128 + r div 4096 mod 64),
         char_of (128 + r div 64 mod 64), char_of (128 + r mod 64)])"

definition encode_runes :: "nat list \<Rightarrow> string" where
  "encode_runes rs = concat (map encode_rune rs)"

text \<open>A string is well-formed UTF-8 when re-encoding its runes gives it back.\<close>

definition valid_utf8 :: "string \<Rightarrow> bool" where
  "valid_utf8 s = (encode_runes (runes s) = s)"

definition utf16_units :: "nat \<Rightarrow> nat list" where
  "utf16_units r =
     (if r < 55296 \<or> (57344 \<le> r \<and> r < 65536) then [r]
      else if 65536 \<le> r \<and> r < 1114112
        then [55296 + (r - 65536) div 1024, 56320 + (r - 65536) mod 1024]
      else [rune_error])"

definition utf16_encode :: "nat list \<Rightarrow> nat list" where
  "utf16_encode rs = concat (map utf16_units rs)"

section \<open>The program's key order\<close>

text \<open>The index loop of \<^verbatim>\<open>LessUTF16\<close>: the first differing unit decides, then the length.\<close>

fun less_units :: "nat list \<Rightarrow> nat list \<Rightarrow> bool" where
  "less_units (x # xs) (y # ys) = (if x \<noteq> y then x < y else less_units xs ys)"
| "less_units xs ys = (length xs < length ys)"

definition LessUTF16 :: "string \<Rightarrow> string \<Rightarrow> bool" where
  "LessUTF16 a b = less_units (utf16_encode (runes a)) (utf16_encode (runes b))"

definition compareUTF16 :: "string \<Rightarrow> string \<Rightarrow> int" where
  "compareUTF16 left right =
     (if LessUTF16 left right then -1 else if LessUTF16 right left then 1 else 0)"

text \<open>
  \<^verbatim>\<open>sortedKeys\<close> collects the keys of a Go map, in an unspecified order, and sorts them. A map
  is an association list here, so the keys are deduplicated first.
\<close>

definition sort_keys :: "string list \<Rightarrow> string list" where
  "sort_keys ks = sort_by LessUTF16 ks"

definition sortedKeys :: "(string \<times> 'v) list \<Rightarrow> string list" where
  "sortedKeys m = sort_keys (remdups (map fst m))"

text \<open>
  \<^verbatim>\<open>slices.BinarySearchFunc\<close> over the half-open range \<open>i..<j\<close>, and the sorted insertion of
  \<^verbatim>\<open>BuildSchedule\<close> that uses its position.
\<close>

function binary_search :: "(string \<Rightarrow> string \<Rightarrow> int) \<Rightarrow> string list \<Rightarrow> string \<Rightarrow> nat \<Rightarrow> nat \<Rightarrow> nat" where
  "binary_search cmp xs target i j =
     (if i < j then
        (let h = (i + j) div 2 in
         if cmp (xs ! h) target < 0 then binary_search cmp xs target (h + 1) j
         else binary_search cmp xs target i h)
      else i)"
  by pat_completeness auto
termination
  by (relation "measure (\<lambda>(_, _, _, i, j). j - i)") auto

declare binary_search.simps [simp del]

definition insert_ready :: "string list \<Rightarrow> string \<Rightarrow> string list" where
  "insert_ready ready next_id =
     (let p = binary_search compareUTF16 ready next_id 0 (length ready) in
      take p ready @ next_id # drop p ready)"

section \<open>Decoding and encoding\<close>

lemma scalar_rune_error [simp]: "scalar rune_error"
  by (simp add: scalar_def rune_error_def)

lemma lo2_hi2: "128 \<le> lo2 b" "hi2 b \<le> 191"
  by (simp_all add: lo2_def hi2_def)

lemma scalar_decode2: "b \<le> 223 \<Longrightarrow> scalar (fst (decode2 b cs))"
proof (induction b cs rule: decode2.induct)
  case (1 b d cs)
  have "scalar ((b - 192) * 64 + x - 128)" if "128 \<le> x" "x \<le> 191" for x
    using that 1 unfolding scalar_def by linarith
  then show ?case by (simp add: cont_def)
qed simp

lemma scalar_decode3:
  assumes "b \<le> 239"
  shows "scalar (fst (decode3 b cs))"
  using assms
proof (induction b cs rule: decode3.induct)
  case (1 b d e cs)
  have "scalar ((b - 224) * 4096 + (x - 128) * 64 + (y - 128))"
    if x: "lo2 b \<le> x" "x \<le> hi2 b" and y: "128 \<le> y" "y \<le> 191" for x y
  proof (cases "b = 237")
    case True
    then have "128 \<le> x" "x \<le> 159" using x by (simp_all add: lo2_def hi2_def)
    then show ?thesis using True y unfolding scalar_def by linarith
  next
    case False
    have "128 \<le> x" "x \<le> 191" using x lo2_hi2[of b] by linarith+
    moreover from False have "b < 237 \<or> 237 < b" by linarith
    ultimately show ?thesis using y 1 unfolding scalar_def by linarith
  qed
  then show ?case by (simp add: cont_def)
qed simp_all

lemma scalar_decode4:
  assumes "240 \<le> b" "b \<le> 244"
  shows "scalar (fst (decode4 b cs))"
  using assms
proof (induction b cs rule: decode4.induct)
  case (1 b d e f cs)
  have "scalar ((b - 240) * 262144 + (x - 128) * 4096 + (y - 128) * 64 + (z - 128))"
    if x: "lo2 b \<le> x" "x \<le> hi2 b" and y: "128 \<le> y" "y \<le> 191" and z: "128 \<le> z" "z \<le> 191" for x y z
  proof -
    have r: "128 \<le> x" "x \<le> 191" using x lo2_hi2[of b] by linarith+
    have lo: "b = 240 \<Longrightarrow> 144 \<le> x" and hi: "b = 244 \<Longrightarrow> x \<le> 143"
      using x by (simp_all add: lo2_def hi2_def)
    from 1 consider "b = 240" | "240 < b" "b < 244" | "b = 244" by linarith
    then show ?thesis
    proof cases
      case 1
      then show ?thesis using lo r y z unfolding scalar_def by linarith
    next
      case 2
      then show ?thesis using r y z unfolding scalar_def by linarith
    next
      case 3
      then show ?thesis using hi r y z unfolding scalar_def by linarith
    qed
  qed
  then show ?case by (simp add: cont_def)
qed simp_all

lemma decode_rune_scalar: "scalar (fst (decode_rune s))"
proof (cases s)
  case Nil
  then show ?thesis by simp
next
  case (Cons c cs)
  have "scalar b" if "b < 128" for b using that by (simp add: scalar_def)
  then show ?thesis unfolding Cons
    by (simp add: Let_def scalar_decode2 scalar_decode3 scalar_decode4)
qed

lemma runes_Nil [simp]: "runes [] = []"
  by (subst runes.simps) simp

lemma runes_scalar: "r \<in> set (runes s) \<Longrightarrow> scalar r"
proof (induction s rule: runes.induct)
  case (1 s)
  show ?case
  proof (cases "s = []")
    case True
    with "1.prems" show ?thesis by simp
  next
    case False
    then have "r = fst (decode_rune s) \<or> r \<in> set (runes (drop (snd (decode_rune s)) s))"
      using "1.prems" by (subst (asm) runes.simps) auto
    then show ?thesis using "1.IH"[OF False] decode_rune_scalar by auto
  qed
qed

lemma decode_encode_rune:
  assumes "scalar r"
  shows "decode_rune (encode_rune r @ rest) = (r, length (encode_rune r))"
proof -
  consider "r < 128" | "128 \<le> r" "r < 2048" | "2048 \<le> r" "r < 65536" | "65536 \<le> r"
    by linarith
  then show ?thesis
  proof cases
    case 1
    then show ?thesis using assms by (simp add: encode_rune_def Let_def)
  next
    case 2
    then have "r div 64 < 32" "2 \<le> r div 64" by auto
    then show ?thesis using assms 2 by (simp add: encode_rune_def Let_def cont_def)
  next
    case 3
    define x where "x = r div 64"
    have x: "32 \<le> x" "x < 1024" using 3 by (auto simp: x_def)
    have gap: "x < 864 \<or> 896 \<le> x" using assms 3 by (auto simp: x_def scalar_def)
    have y: "r div 4096 = x div 64" by (simp add: x_def div_mult2_eq[symmetric])
    have sum: "x div 64 * 4096 + x mod 64 * 64 + r mod 64 = r"
      using div_mult_mod_eq[of r 64] div_mult_mod_eq[of x 64] x_def by linarith
    have hi: "x div 64 < 16" using x by linarith
    have mid: "x div 64 = 0 \<Longrightarrow> 32 \<le> x mod 64"
      using x(1) div_mult_mod_eq[of x 64] by simp
    have top: "x div 64 = 13 \<Longrightarrow> x mod 64 \<le> 31"
      using gap div_mult_mod_eq[of x 64] mod_less_divisor[of 64 x] by linarith
    have enc: "encode_rune r = [char_of (224 + x div 64), char_of (128 + x mod 64),
         char_of (128 + r mod 64)]"
      using assms 3 by (simp add: encode_rune_def Let_def y x_def[symmetric])
    show ?thesis using hi mid top sum
      by (auto simp: enc Let_def cont_def lo2_def hi2_def)
  next
    case 4
    define x where "x = r div 4096"
    have x: "16 \<le> x" "x < 272" using assms 4 by (auto simp: x_def scalar_def)
    have y: "r div 262144 = x div 64" by (simp add: x_def div_mult2_eq[symmetric])
    have z: "r div 64 div 64 = x" by (simp add: x_def div_mult2_eq[symmetric])
    have sum: "x div 64 * 262144 + x mod 64 * 4096 + r div 64 mod 64 * 64 + r mod 64 = r"
      using div_mult_mod_eq[of r 64] div_mult_mod_eq[of "r div 64" 64] div_mult_mod_eq[of x 64] z
      by linarith
    have hi: "x div 64 < 5" using x by linarith
    have mid: "x div 64 = 0 \<Longrightarrow> 16 \<le> x mod 64"
      and top: "x div 64 = 4 \<Longrightarrow> x mod 64 \<le> 15"
      using x div_mult_mod_eq[of x 64] mod_less_divisor[of 64 x] by linarith+
    have enc: "encode_rune r = [char_of (240 + x div 64), char_of (128 + x mod 64),
         char_of (128 + r div 64 mod 64), char_of (128 + r mod 64)]"
      using assms 4 by (simp add: encode_rune_def Let_def y x_def[symmetric])
    have lows: "r div 64 mod 64 \<le> 63" "x mod 64 \<le> 63" "r mod 64 \<le> 63"
      using mod_less_divisor[of 64 "r div 64"] mod_less_divisor[of 64 x] mod_less_divisor[of 64 r]
      by linarith+
    show ?thesis using hi mid top sum lows
      by (auto simp: enc Let_def cont_def lo2_def hi2_def)
  qed
qed

lemma encode_rune_nonempty [simp]: "encode_rune r \<noteq> []"
  by (auto simp: encode_rune_def Let_def)

lemma runes_encode_rune: "scalar r \<Longrightarrow> runes (encode_rune r @ rest) = r # runes rest"
  by (subst runes.simps) (simp add: decode_encode_rune)

lemma runes_encode: "\<forall>r \<in> set rs. scalar r \<Longrightarrow> runes (encode_runes rs) = rs"
  by (induction rs) (auto simp: encode_runes_def runes_encode_rune)

lemma encode_runes_append [simp]: "encode_runes (xs @ ys) = encode_runes xs @ encode_runes ys"
  by (simp add: encode_runes_def)

lemma valid_encode: "\<forall>r \<in> set rs. scalar r \<Longrightarrow> valid_utf8 (encode_runes rs)"
  by (simp add: valid_utf8_def runes_encode)

lemma valid_utf8_inject: "valid_utf8 a \<Longrightarrow> valid_utf8 b \<Longrightarrow> runes a = runes b \<Longrightarrow> a = b"
  by (metis valid_utf8_def)

lemma valid_utf8_ascii: "\<forall>c \<in> set s. byte c < 128 \<Longrightarrow> valid_utf8 s"
proof -
  assume a: "\<forall>c \<in> set s. byte c < 128"
  then have "encode_runes (map byte s) = s"
    by (induction s) (auto simp: encode_runes_def encode_rune_def scalar_def Let_def)
  moreover have "\<forall>r \<in> set (map byte s). scalar r" using a by (auto simp: scalar_def)
  ultimately show ?thesis using valid_encode[of "map byte s"] by simp
qed

section \<open>UTF-16 separates runes\<close>

lemma utf16_units_nonempty [simp]: "utf16_units r \<noteq> []"
  by (simp add: utf16_units_def)

lemma utf16_units_inject:
  assumes "scalar r" "scalar s" "utf16_units r @ xs = utf16_units s @ ys"
  shows "r = s \<and> xs = ys"
proof -
  have pair: "r = s" if "65536 \<le> r" "65536 \<le> s"
    "(r - 65536) div 1024 = (s - 65536) div 1024" "(r - 65536) mod 1024 = (s - 65536) mod 1024"
    using that div_mult_mod_eq[of "r - 65536" 1024] div_mult_mod_eq[of "s - 65536" 1024] by linarith
  have one: "utf16_units t = [t]" if "scalar t" "t < 65536" for t
    using that by (auto simp: utf16_units_def scalar_def)
  have two: "utf16_units t = [55296 + (t - 65536) div 1024, 56320 + (t - 65536) mod 1024]"
    if "scalar t" "65536 \<le> t" for t
    using that by (auto simp: utf16_units_def scalar_def)
  have lo: "55296 \<le> 55296 + (t - 65536) div 1024 \<and> 55296 + (t - 65536) div 1024 < 57344"
    if "scalar t" "65536 \<le> t" for t
    using that by (auto simp: scalar_def)
  show ?thesis
  proof (cases "r < 65536"; cases "s < 65536")
    assume "\<not> r < 65536" "\<not> s < 65536"
    then show ?thesis using assms pair by (simp add: two)
  next
    assume "r < 65536" "\<not> s < 65536"
    then show ?thesis using assms lo[of s] by (auto simp: one two scalar_def)
  next
    assume "\<not> r < 65536" "s < 65536"
    then show ?thesis using assms lo[of r] by (auto simp: one two scalar_def)
  qed (use assms in \<open>simp add: one\<close>)
qed

lemma utf16_encode_inject:
  assumes "\<forall>r \<in> set rs. scalar r" "\<forall>s \<in> set ss. scalar s" "utf16_encode rs = utf16_encode ss"
  shows "rs = ss"
  using assms
proof (induction rs arbitrary: ss)
  case Nil
  then show ?case by (cases ss) (auto simp: utf16_encode_def)
next
  case (Cons r rs)
  have "ss \<noteq> []" using Cons.prems(3) by (auto simp: utf16_encode_def)
  then obtain s ss' where ss: "ss = s # ss'" by (cases ss) simp
  have "utf16_units r @ utf16_encode rs = utf16_units s @ utf16_encode ss'"
    using Cons.prems(3) ss by (simp add: utf16_encode_def)
  then have "r = s \<and> utf16_encode rs = utf16_encode ss'"
    by (rule utf16_units_inject[rotated 2]) (use Cons.prems(1,2) ss in simp_all)
  with Cons.IH[of ss'] Cons.prems(1,2) ss show ?case by simp
qed

section \<open>The order laws\<close>

lemma less_units_irrefl: "\<not> less_units xs xs"
  by (induction xs) auto

lemma less_units_trans: "less_units xs ys \<Longrightarrow> less_units ys zs \<Longrightarrow> less_units xs zs"
proof (induction xs ys arbitrary: zs rule: less_units.induct)
  case (1 x xs y ys)
  then show ?case by (cases zs) (auto split: if_splits)
qed (case_tac zs; auto)+

lemma less_units_total: "xs \<noteq> ys \<Longrightarrow> less_units xs ys \<or> less_units ys xs"
  by (induction xs ys rule: less_units.induct) (auto split: if_splits)

lemma LessUTF16_total:
  assumes "valid_utf8 a" "valid_utf8 b" "a \<noteq> b"
  shows "LessUTF16 a b \<or> LessUTF16 b a"
proof -
  have "runes a \<noteq> runes b" using assms valid_utf8_inject by blast
  then have "utf16_encode (runes a) \<noteq> utf16_encode (runes b)"
    using utf16_encode_inject runes_scalar by blast
  then show ?thesis unfolding LessUTF16_def by (rule less_units_total)
qed

interpretation utf16: key_order LessUTF16 valid_utf8
proof unfold_locales
  fix x y z :: string
  show "\<not> LessUTF16 x x" by (simp add: LessUTF16_def less_units_irrefl)
  show "LessUTF16 x y \<Longrightarrow> LessUTF16 y z \<Longrightarrow> LessUTF16 x z"
    unfolding LessUTF16_def by (rule less_units_trans)
  show "LessUTF16 x z \<Longrightarrow> LessUTF16 x y \<or> LessUTF16 y z"
    unfolding LessUTF16_def using less_units_total less_units_trans by metis
  show "valid_utf8 x \<Longrightarrow> valid_utf8 y \<Longrightarrow> x \<noteq> y \<Longrightarrow> LessUTF16 x y \<or> LessUTF16 y x"
    by (rule LessUTF16_total)
qed

lemma compareUTF16_neg [simp]: "compareUTF16 a b < 0 \<longleftrightarrow> LessUTF16 a b"
  by (simp add: compareUTF16_def)

section \<open>Sorted insertion\<close>

lemma binary_search_bounds:
  assumes "i \<le> j" "j \<le> length xs"
    and "\<forall>k < i. cmp (xs ! k) t < 0" and "\<forall>k. j \<le> k \<and> k < length xs \<longrightarrow> \<not> cmp (xs ! k) t < 0"
    and mono: "\<forall>k l. k \<le> l \<and> l < length xs \<and> cmp (xs ! l) t < 0 \<longrightarrow> cmp (xs ! k) t < 0"
  shows "(let p = binary_search cmp xs t i j in p \<le> length xs
    \<and> (\<forall>k < p. cmp (xs ! k) t < 0) \<and> (\<forall>k. p \<le> k \<and> k < length xs \<longrightarrow> \<not> cmp (xs ! k) t < 0))"
  using assms
proof (induction cmp xs t i j rule: binary_search.induct)
  case (1 cmp xs t i j)
  show ?case
  proof (cases "i < j")
    case False
    then show ?thesis using "1.prems" by (subst binary_search.simps) auto
  next
    case True
    define h where "h = (i + j) div 2"
    have h: "i \<le> h" "h < j" using True by (auto simp: h_def)
    show ?thesis
    proof (cases "cmp (xs ! h) t < 0")
      case True
      have below: "\<forall>k \<le> h. cmp (xs ! k) t < 0"
        using "1.prems"(2,5) h True by (meson le_trans less_le_trans)
      have "(let p = binary_search cmp xs t (h + 1) j in p \<le> length xs
        \<and> (\<forall>k < p. cmp (xs ! k) t < 0) \<and> (\<forall>k. p \<le> k \<and> k < length xs \<longrightarrow> \<not> cmp (xs ! k) t < 0))"
        using "1.prems"(2,4,5) h below
        by (intro "1.IH"(1)[OF \<open>i < j\<close> h_def True]) (auto simp: less_Suc_eq_le)
      then show ?thesis using \<open>i < j\<close> True
        by (subst binary_search.simps) (simp add: Let_def h_def)
    next
      case False
      have "(let p = binary_search cmp xs t i h in p \<le> length xs
        \<and> (\<forall>k < p. cmp (xs ! k) t < 0) \<and> (\<forall>k. p \<le> k \<and> k < length xs \<longrightarrow> \<not> cmp (xs ! k) t < 0))"
      proof (rule "1.IH"(2)[OF \<open>i < j\<close> h_def False])
        show "\<forall>k. h \<le> k \<and> k < length xs \<longrightarrow> \<not> cmp (xs ! k) t < 0"
          using "1.prems"(5) False by blast
      qed (use "1.prems"(2,3,5) h in simp_all)
      then show ?thesis using \<open>i < j\<close> False
        by (subst binary_search.simps) (simp add: Let_def h_def)
    qed
  qed
qed

lemma insert_by_split:
  assumes "p \<le> length xs" "\<forall>k < p. lt (xs ! k) x" "p < length xs \<longrightarrow> \<not> lt (xs ! p) x"
  shows "insert_by lt x xs = take p xs @ x # drop p xs"
  using assms
proof (induction xs arbitrary: p)
  case Nil
  then show ?case by simp
next
  case (Cons y ys)
  show ?case
  proof (cases p)
    case 0
    with Cons.prems show ?thesis by simp
  next
    case (Suc q)
    then have "insert_by lt x ys = take q ys @ x # drop q ys"
      using Cons.prems by (intro Cons.IH) fastforce+
    moreover have "lt y x" using Cons.prems(2) Suc by fastforce
    ultimately show ?thesis using Suc by simp
  qed
qed

lemma insert_ready_insert_by:
  assumes "sorted_by LessUTF16 ready"
  shows "insert_ready ready x = insert_by LessUTF16 x ready"
proof -
  have mono: "\<forall>k l. k \<le> l \<and> l < length ready \<and> LessUTF16 (ready ! l) x \<longrightarrow> LessUTF16 (ready ! k) x"
  proof (intro allI impI)
    fix k l
    assume a: "k \<le> l \<and> l < length ready \<and> LessUTF16 (ready ! l) x"
    show "LessUTF16 (ready ! k) x"
    proof (cases "k = l")
      case False
      then have "\<not> LessUTF16 (ready ! l) (ready ! k)"
        using a assms by (auto simp: sorted_by_def sorted_wrt_iff_nth_less)
      then show ?thesis using a utf16.lt_weak by blast
    qed (use a in simp)
  qed
  define p where "p = binary_search compareUTF16 ready x 0 (length ready)"
  have "let p = binary_search compareUTF16 ready x 0 (length ready) in p \<le> length ready
      \<and> (\<forall>k < p. compareUTF16 (ready ! k) x < 0)
      \<and> (\<forall>k. p \<le> k \<and> k < length ready \<longrightarrow> \<not> compareUTF16 (ready ! k) x < 0)"
    by (rule binary_search_bounds) (use mono in \<open>simp_all only: compareUTF16_neg, auto\<close>)
  then have pos: "p \<le> length ready" "\<forall>k < p. LessUTF16 (ready ! k) x"
      "p < length ready \<longrightarrow> \<not> LessUTF16 (ready ! p) x"
    by (simp_all add: Let_def p_def)
  have "insert_by LessUTF16 x ready = take p ready @ x # drop p ready"
    by (rule insert_by_split) (fact pos)+
  then show ?thesis by (simp add: insert_ready_def p_def Let_def)
qed

section \<open>Evaluation on concrete keys\<close>

lemma runes_ascii: "\<forall>c \<in> set s. byte c < 128 \<Longrightarrow> runes s = map byte s"
proof (induction s)
  case (Cons c s)
  then show ?case by (subst runes.simps) simp
qed simp

lemmas utf16_eval = sort_keys_def LessUTF16_def compareUTF16_def runes_ascii utf16_encode_def
  utf16_units_def insert_ready_def binary_search.simps

end
