(* ===== verification/WorkflowSpec.thy ===== *)
theory WorkflowSpec
  imports GoText
begin

text \<open>
  The data model of \<^verbatim>\<open>internal/spec/spec.go\<close>: the authored workflow document and its
  diagnostics. Optional pointers are \<^typ>\<open>'a option\<close>; Go maps are association lists whose keys
  the accessors deduplicate; \<^verbatim>\<open>json.RawMessage\<close> values are their bytes.
\<close>

section \<open>Node kinds\<close>

definition NodeKindStart :: string where "NodeKindStart = ''start''"
definition NodeKindStep :: string where "NodeKindStep = ''step''"
definition NodeKindDecision :: string where "NodeKindDecision = ''decision''"
definition NodeKindSelect :: string where "NodeKindSelect = ''select''"
definition NodeKindMap :: string where "NodeKindMap = ''map''"
definition NodeKindEnd :: string where "NodeKindEnd = ''end''"
definition NodeKindExitHook :: string where "NodeKindExitHook = ''exit-hook''"
definition MapItemFailuresCollect :: string where "MapItemFailuresCollect = ''collect''"

lemmas node_kinds = NodeKindStart_def NodeKindStep_def NodeKindDecision_def NodeKindSelect_def
  NodeKindMap_def NodeKindEnd_def NodeKindExitHook_def

section \<open>Graph\<close>

record DecisionCase =
  dc_tag :: string
  dc_schema :: string

record SelectInput =
  si_case :: string
  si_source :: string

record GraphNode =
  node_id :: string
  node_kind :: string
  node_inputSchema :: string
  node_outputSchema :: string
  node_symbolRef :: string
  node_contractRef :: string
  node_mergeInputs :: "string list"
  node_selector :: string
  node_cases :: "DecisionCase list"
  node_decisionRef :: string
  node_selectInputs :: "SelectInput list"
  node_itemInputSchema :: string
  node_itemOutputSchema :: string
  node_maxConcurrency :: nat
  node_itemFailures :: string

record GraphEdge =
  edge_from :: string
  edge_to :: string
  edge_case :: string

record Graph =
  graph_irVersion :: string
  graph_start :: string
  graph_end :: string
  graph_nodes :: "GraphNode list"
  graph_edges :: "GraphEdge list"
  graph_exitHook :: "GraphNode option"

text \<open>The zero value Go reads from a map at a missing key.\<close>

definition zero_node :: GraphNode where
  "zero_node = \<lparr>node_id = [], node_kind = [], node_inputSchema = [], node_outputSchema = [],
     node_symbolRef = [], node_contractRef = [], node_mergeInputs = [], node_selector = [],
     node_cases = [], node_decisionRef = [], node_selectInputs = [], node_itemInputSchema = [],
     node_itemOutputSchema = [], node_maxConcurrency = 0, node_itemFailures = []\<rparr>"

section \<open>Diagnostics\<close>

record Diagnostic =
  diag_path :: string
  diag_ref :: string
  diag_message :: string

definition Diag :: "string \<Rightarrow> string \<Rightarrow> string \<Rightarrow> Diagnostic" where
  "Diag path ref msg = \<lparr>diag_path = path, diag_ref = ref, diag_message = msg\<rparr>"

text \<open>\<^verbatim>\<open>Diagnostic.String\<close> omits an empty reference.\<close>

definition diag_string :: "Diagnostic \<Rightarrow> string" where
  "diag_string d =
     (if diag_ref d = [] then diag_path d @ '': '' @ diag_message d
      else diag_path d @ '' ('' @ diag_ref d @ ''): '' @ diag_message d)"

section \<open>Lookup tables\<close>

text \<open>
  \<^verbatim>\<open>nodeByID\<close>: the first node of an id wins in \<^verbatim>\<open>validateSemantics\<close>, which skips duplicates;
  the other passes let a later node overwrite an earlier one. On duplicate-free graphs, the only
  ones accepted, both are the same table.
\<close>

definition node_by_id :: "GraphNode list \<Rightarrow> string \<Rightarrow> GraphNode option" where
  "node_by_id ns i = find (\<lambda>n. node_id n = i) ns"

definition last_node_by_id :: "GraphNode list \<Rightarrow> string \<Rightarrow> GraphNode option" where
  "last_node_by_id ns i = find (\<lambda>n. node_id n = i) (rev ns)"

definition adjacency :: "GraphEdge list \<Rightarrow> string \<Rightarrow> string list" where
  "adjacency es u = map edge_to (filter (\<lambda>e. edge_from e = u) es)"

definition inbound :: "GraphEdge list \<Rightarrow> string \<Rightarrow> GraphEdge list" where
  "inbound es v = filter (\<lambda>e. edge_to e = v) es"

text \<open>The graph as a relation: what the passes below compute about it is stated over this.\<close>

definition edge_rel :: "GraphEdge list \<Rightarrow> (string \<times> string) set" where
  "edge_rel es = (\<lambda>e. (edge_from e, edge_to e)) ` set es"

definition ids :: "GraphNode list \<Rightarrow> string list" where
  "ids ns = map node_id ns"

definition edges_in :: "string set \<Rightarrow> GraphEdge list \<Rightarrow> bool" where
  "edges_in V es = (\<forall>e \<in> set es. edge_from e \<in> V \<and> edge_to e \<in> V)"

section \<open>Lemmas on the tables\<close>

lemma node_by_id_Some: "node_by_id ns i = Some n \<Longrightarrow> n \<in> set ns \<and> node_id n = i"
  by (auto simp: node_by_id_def find_Some_iff)

lemma node_by_id_None: "node_by_id ns i = None \<longleftrightarrow> i \<notin> set (ids ns)"
  by (auto simp: node_by_id_def find_None_iff ids_def)

lemma node_by_id_distinct:
  "distinct (ids ns) \<Longrightarrow> n \<in> set ns \<Longrightarrow> node_by_id ns (node_id n) = Some n"
  unfolding ids_def node_by_id_def by (induction ns) (auto simp: image_iff)

lemma last_node_by_id_distinct:
  assumes "distinct (ids ns)"
  shows "last_node_by_id ns i = node_by_id ns i"
proof (cases "i \<in> set (ids ns)")
  case True
  then obtain n where n: "n \<in> set ns" "node_id n = i" by (auto simp: ids_def)
  have "node_by_id (rev ns) i = Some n"
    using node_by_id_distinct[of "rev ns" n] assms n by (simp add: ids_def rev_map[symmetric])
  moreover have "node_by_id ns i = Some n" using node_by_id_distinct[OF assms n(1)] n(2) by simp
  ultimately show ?thesis by (simp add: last_node_by_id_def node_by_id_def)
next
  case False
  then have "i \<notin> set (ids (rev ns))" by (simp add: ids_def)
  then have "node_by_id (rev ns) i = None" by (simp only: node_by_id_None not_False_eq_True)
  then show ?thesis using False node_by_id_None[of ns i]
    by (simp add: last_node_by_id_def node_by_id_def)
qed

lemma set_adjacency: "v \<in> set (adjacency es u) \<longleftrightarrow> (u, v) \<in> edge_rel es"
  by (auto simp: adjacency_def edge_rel_def)

lemma edge_relI: "e \<in> set es \<Longrightarrow> (edge_from e, edge_to e) \<in> edge_rel es"
  by (auto simp: edge_rel_def)

lemma edges_in_rel: "edges_in V es \<Longrightarrow> (u, v) \<in> edge_rel es \<Longrightarrow> u \<in> V \<and> v \<in> V"
  by (auto simp: edges_in_def edge_rel_def)

lemma finite_edge_rel [simp]: "finite (edge_rel es)"
  by (simp add: edge_rel_def)

end
