(* ===== verification/Schedule.thy ===== *)
theory Schedule
  imports WorkflowSpec
begin

text \<open>
  The program's three topological sorts, each Kahn's algorithm over the UTF-16 key order:
  \<^verbatim>\<open>plan.BuildSchedule\<close> (sorted adjacency, binary insertion, depths),
  \<^verbatim>\<open>spec.graphTopologicalOrder\<close> and \<^verbatim>\<open>orchestrator.topologicalPlanOrder\<close> (edge order
  adjacency, whole queue re-sorted). One abstract step relation carries the invariant; each
  routine is shown to perform that step, so each returns a complete topological order exactly
  when the graph is acyclic, and all three return the same order.
\<close>

section \<open>BuildSchedule\<close>

record NodeDepth =
  nd_node :: string
  nd_depth :: int

record Schedule =
  NodeOrder :: "string list"
  StepIDs :: "string list"
  Depths :: "NodeDepth list"

datatype schedule_error =
    EdgeSourceMissing string
  | EdgeTargetMissing string
  | ScheduleCycle

record sched_state =
  ss_ready :: "string list"
  ss_indegree :: "string \<Rightarrow> int"
  ss_depth :: "string \<Rightarrow> int"
  ss_order :: "string list"
  ss_steps :: "string list"

definition indegrees :: "GraphEdge list \<Rightarrow> string \<Rightarrow> int" where
  "indegrees es v = int (length (inbound es v))"

text \<open>The body of the inner loop over \<^verbatim>\<open>adjacency[current]\<close>.\<close>

definition relax :: "string \<Rightarrow> sched_state \<Rightarrow> string \<Rightarrow> sched_state" where
  "relax current s next_id =
     (let d = ss_depth s current + 1;
          s1 = (if ss_depth s next_id < d then s\<lparr>ss_depth := (ss_depth s)(next_id := d)\<rparr> else s);
          deg = ss_indegree s1 next_id - 1;
          s2 = s1\<lparr>ss_indegree := (ss_indegree s1)(next_id := deg)\<rparr>
      in if deg \<noteq> 0 then s2 else s2\<lparr>ss_ready := insert_ready (ss_ready s2) next_id\<rparr>)"

definition sched_pop :: "GraphNode list \<Rightarrow> GraphEdge list \<Rightarrow> sched_state \<Rightarrow> sched_state" where
  "sched_pop ns es s =
     (case ss_ready s of
        [] \<Rightarrow> s
      | current # rest \<Rightarrow>
          foldl (relax current)
            (s\<lparr>ss_ready := rest, ss_order := ss_order s @ [current],
               ss_steps := (if map_option node_kind (last_node_by_id ns current) = Some NodeKindStep
                            then ss_steps s @ [current] else ss_steps s)\<rparr>)
            (sort_keys (adjacency es current)))"

text \<open>
  What decreases: a pop removes one entry of the queue and every push takes a node out of the
  set of targets that still wait for a predecessor.
\<close>

definition kahn_measure :: "GraphEdge list \<Rightarrow> string list \<Rightarrow> (string \<Rightarrow> int) \<Rightarrow> nat" where
  "kahn_measure es ready deg = length ready + card {v \<in> edge_to ` set es. 0 < deg v}"

lemma card_decrement:
  assumes "finite A" "v \<in> A"
  shows "card {w \<in> A. 0 < (deg(v := deg v - 1)) w} + (if deg v - 1 = 0 then 1 else 0)
    \<le> card {w \<in> A. 0 < (deg :: 'a \<Rightarrow> int) w}"
proof (cases "deg v = 1")
  case True
  then have "{w \<in> A. 0 < deg w} = insert v {w \<in> A. 0 < (deg(v := deg v - 1)) w}"
    using assms(2) by auto
  moreover have "v \<notin> {w \<in> A. 0 < (deg(v := deg v - 1)) w}" using True by simp
  ultimately show ?thesis using assms(1) True by simp
next
  case False
  have "{w \<in> A. 0 < (deg(v := deg v - 1)) w} \<subseteq> {w \<in> A. 0 < deg w}" by auto
  then show ?thesis using False assms(1) by (auto intro: card_mono)
qed

lemma length_insert_ready [simp]: "length (insert_ready r x) = Suc (length r)"
  by (simp add: insert_ready_def Let_def)

lemma mset_insert_ready [simp]: "mset (insert_ready r x) = add_mset x (mset r)"
  unfolding insert_ready_def Let_def
  by (metis append_take_drop_id mset.simps(2) mset_append union_mset_add_mset_right)

lemma kahn_measure_push:
  assumes "v \<in> edge_to ` set es"
    and "length r' = length r + (if deg v - 1 = 0 then 1 else 0)"
  shows "kahn_measure es r' (deg(v := deg v - 1)) \<le> kahn_measure es r deg"
  using card_decrement[of "edge_to ` set es" v deg] assms
  unfolding kahn_measure_def by simp

lemma relax_simps [simp]:
  "ss_indegree (relax c s v) = (ss_indegree s)(v := ss_indegree s v - 1)"
  "ss_ready (relax c s v) =
     (if ss_indegree s v - 1 = 0 then insert_ready (ss_ready s) v else ss_ready s)"
  "ss_order (relax c s v) = ss_order s"
  "ss_steps (relax c s v) = ss_steps s"
  "ss_depth (relax c s v) =
     (if ss_depth s v < ss_depth s c + 1 then (ss_depth s)(v := ss_depth s c + 1) else ss_depth s)"
  by (simp_all add: relax_def Let_def)

lemma relax_measure:
  assumes "v \<in> edge_to ` set es"
  shows "kahn_measure es (ss_ready (relax c s v)) (ss_indegree (relax c s v))
    \<le> kahn_measure es (ss_ready s) (ss_indegree s)"
  unfolding relax_simps(1) by (rule kahn_measure_push[OF assms]) simp

lemma foldl_relax_measure:
  assumes "set vs \<subseteq> edge_to ` set es"
  shows "kahn_measure es (ss_ready (foldl (relax c) s vs)) (ss_indegree (foldl (relax c) s vs))
    \<le> kahn_measure es (ss_ready s) (ss_indegree s)"
  using assms
proof (induction vs arbitrary: s)
  case (Cons v vs)
  show ?case
    using order_trans[OF Cons.IH relax_measure[of v es c s]] Cons.prems by simp
qed simp

lemma adjacency_targets: "set (sort_keys (adjacency es u)) \<subseteq> edge_to ` set es"
  by (auto simp: sort_keys_def adjacency_def)

lemma sched_pop_measure:
  assumes "ss_ready s = c # rest"
  shows "kahn_measure es (ss_ready (sched_pop ns es s)) (ss_indegree (sched_pop ns es s))
    < kahn_measure es (ss_ready s) (ss_indegree s)"
proof -
  have "kahn_measure es rest (ss_indegree s) < kahn_measure es (ss_ready s) (ss_indegree s)"
    using assms by (simp add: kahn_measure_def)
  then show ?thesis
    unfolding sched_pop_def assms list.case
    by (intro le_less_trans[OF foldl_relax_measure[OF adjacency_targets]]) simp
qed

function sched_loop :: "GraphNode list \<Rightarrow> GraphEdge list \<Rightarrow> sched_state \<Rightarrow> sched_state" where
  "sched_loop ns es s = (if ss_ready s = [] then s else sched_loop ns es (sched_pop ns es s))"
  by pat_completeness auto
termination
  by (relation "measure (\<lambda>(ns, es, s). kahn_measure es (ss_ready s) (ss_indegree s))")
    (auto simp: neq_Nil_conv intro: sched_pop_measure)

declare sched_loop.simps [simp del]

fun check_edges :: "string list \<Rightarrow> GraphEdge list \<Rightarrow> schedule_error option" where
  "check_edges vs [] = None"
| "check_edges vs (e # es) =
     (if edge_from e \<notin> set vs then Some (EdgeSourceMissing (edge_from e))
      else if edge_to e \<notin> set vs then Some (EdgeTargetMissing (edge_to e))
      else check_edges vs es)"

definition initial_ready :: "string list \<Rightarrow> GraphEdge list \<Rightarrow> string list" where
  "initial_ready vs es = sort_keys (filter (\<lambda>v. indegrees es v = 0) (remdups vs))"

definition sched_init :: "GraphNode list \<Rightarrow> GraphEdge list \<Rightarrow> sched_state" where
  "sched_init ns es = \<lparr>ss_ready = initial_ready (ids ns) es, ss_indegree = indegrees es,
     ss_depth = (\<lambda>_. 0), ss_order = [], ss_steps = []\<rparr>"

definition BuildSchedule :: "Graph \<Rightarrow> (schedule_error, Schedule) result" where
  "BuildSchedule g =
     (case check_edges (ids (graph_nodes g)) (graph_edges g) of
        Some err \<Rightarrow> Inl err
      | None \<Rightarrow>
          (let s = sched_loop (graph_nodes g) (graph_edges g) (sched_init (graph_nodes g) (graph_edges g)) in
           if length (ss_order s) \<noteq> length (graph_nodes g) then Inl ScheduleCycle
           else Inr \<lparr>NodeOrder = ss_order s, StepIDs = ss_steps s,
                     Depths = map (\<lambda>i. \<lparr>nd_node = i, nd_depth = ss_depth s i\<rparr>) (ss_order s)\<rparr>))"

section \<open>The re-sorting variants\<close>

text \<open>
  \<^verbatim>\<open>graphTopologicalOrder\<close> and \<^verbatim>\<open>topologicalPlanOrder\<close> share their loop: successors are
  visited in edge order, appended, and the whole queue is sorted again after each pop.
\<close>

record topo_state =
  ts_ready :: "string list"
  ts_indegree :: "string \<Rightarrow> int"
  ts_order :: "string list"

definition topo_visit :: "topo_state \<Rightarrow> string \<Rightarrow> topo_state" where
  "topo_visit s next_id =
     (let deg = ts_indegree s next_id - 1;
          s1 = s\<lparr>ts_indegree := (ts_indegree s)(next_id := deg)\<rparr>
      in if deg = 0 then s1\<lparr>ts_ready := ts_ready s1 @ [next_id]\<rparr> else s1)"

definition topo_pop :: "GraphEdge list \<Rightarrow> topo_state \<Rightarrow> topo_state" where
  "topo_pop es s =
     (case ts_ready s of
        [] \<Rightarrow> s
      | current # rest \<Rightarrow>
          (let s1 = foldl topo_visit (s\<lparr>ts_ready := rest, ts_order := ts_order s @ [current]\<rparr>)
                      (adjacency es current)
           in s1\<lparr>ts_ready := sort_keys (ts_ready s1)\<rparr>))"

lemma topo_visit_simps [simp]:
  "ts_indegree (topo_visit s v) = (ts_indegree s)(v := ts_indegree s v - 1)"
  "ts_ready (topo_visit s v) =
     (if ts_indegree s v - 1 = 0 then ts_ready s @ [v] else ts_ready s)"
  "ts_order (topo_visit s v) = ts_order s"
  by (simp_all add: topo_visit_def Let_def)

lemma topo_visit_measure:
  assumes "v \<in> edge_to ` set es"
  shows "kahn_measure es (ts_ready (topo_visit s v)) (ts_indegree (topo_visit s v))
    \<le> kahn_measure es (ts_ready s) (ts_indegree s)"
  unfolding topo_visit_simps(1) by (rule kahn_measure_push[OF assms]) simp

lemma foldl_topo_visit_measure:
  assumes "set vs \<subseteq> edge_to ` set es"
  shows "kahn_measure es (ts_ready (foldl topo_visit s vs)) (ts_indegree (foldl topo_visit s vs))
    \<le> kahn_measure es (ts_ready s) (ts_indegree s)"
  using assms
proof (induction vs arbitrary: s)
  case (Cons v vs)
  show ?case
    using order_trans[OF Cons.IH topo_visit_measure[of v es s]] Cons.prems by simp
qed simp

lemma topo_pop_measure:
  assumes "ts_ready s = c # rest"
  shows "kahn_measure es (ts_ready (topo_pop es s)) (ts_indegree (topo_pop es s))
    < kahn_measure es (ts_ready s) (ts_indegree s)"
proof -
  define t where
    "t = foldl topo_visit (s\<lparr>ts_ready := rest, ts_order := ts_order s @ [c]\<rparr>) (adjacency es c)"
  have "kahn_measure es (ts_ready t) (ts_indegree t) \<le> kahn_measure es rest (ts_indegree s)"
    unfolding t_def
    by (rule order_trans[OF foldl_topo_visit_measure]) (auto simp: adjacency_def)
  moreover have "kahn_measure es rest (ts_indegree s) < kahn_measure es (ts_ready s) (ts_indegree s)"
    using assms by (simp add: kahn_measure_def)
  ultimately show ?thesis
    using assms by (simp add: topo_pop_def t_def[symmetric] Let_def kahn_measure_def sort_keys_def)
qed

function topo_loop :: "GraphEdge list \<Rightarrow> topo_state \<Rightarrow> topo_state" where
  "topo_loop es s = (if ts_ready s = [] then s else topo_loop es (topo_pop es s))"
  by pat_completeness auto
termination
  by (relation "measure (\<lambda>(es, s). kahn_measure es (ts_ready s) (ts_indegree s))")
    (auto simp: neq_Nil_conv intro: topo_pop_measure)

declare topo_loop.simps [simp del]

definition topo_init :: "string list \<Rightarrow> GraphEdge list \<Rightarrow> topo_state" where
  "topo_init vs es = \<lparr>ts_ready = initial_ready vs es, ts_indegree = indegrees es, ts_order = []\<rparr>"

text \<open>\<^verbatim>\<open>graphTopologicalOrder\<close> ignores edges whose endpoints are unknown.\<close>

definition known_edges :: "string list \<Rightarrow> GraphEdge list \<Rightarrow> GraphEdge list" where
  "known_edges vs es = filter (\<lambda>e. edge_from e \<in> set vs \<and> edge_to e \<in> set vs) es"

definition graphTopologicalOrder :: "GraphNode list \<Rightarrow> GraphEdge list \<Rightarrow> string list \<times> bool" where
  "graphTopologicalOrder ns es =
     (let kept = known_edges (ids ns) es;
          order = ts_order (topo_loop kept (topo_init (ids ns) kept))
      in (order, length order = length ns))"

datatype plan_order_error =
    NodeWithoutId
  | DuplicateNodeId string
  | UnknownEdgeNode string string
  | PlanCycle

fun check_plan_nodes :: "string list \<Rightarrow> string list \<Rightarrow> plan_order_error option" where
  "check_plan_nodes seen [] = None"
| "check_plan_nodes seen (i # is) =
     (if i = [] then Some NodeWithoutId
      else if i \<in> set seen then Some (DuplicateNodeId i)
      else check_plan_nodes (i # seen) is)"

fun check_plan_edges :: "string list \<Rightarrow> GraphEdge list \<Rightarrow> plan_order_error option" where
  "check_plan_edges vs [] = None"
| "check_plan_edges vs (e # es) =
     (if edge_from e \<notin> set vs \<or> edge_to e \<notin> set vs
      then Some (UnknownEdgeNode (edge_from e) (edge_to e))
      else check_plan_edges vs es)"

definition topologicalPlanOrder :: "GraphNode list \<Rightarrow> GraphEdge list \<Rightarrow> (plan_order_error, string list) result" where
  "topologicalPlanOrder ns es =
     (case check_plan_nodes [] (ids ns) of
        Some err \<Rightarrow> Inl err
      | None \<Rightarrow>
        (case check_plan_edges (ids ns) es of
           Some err \<Rightarrow> Inl err
         | None \<Rightarrow>
           (let order = ts_order (topo_loop es (topo_init (ids ns) es)) in
            if length order \<noteq> length (remdups (ids ns)) then Inl PlanCycle else Inr order)))"

section \<open>The abstract step and its invariant\<close>

text \<open>
  One pop of Kahn's algorithm, independent of how the queue is kept in order: the first ready
  node is emitted, its successors lose one predecessor per edge, and exactly the successors
  left with none enter the queue.
\<close>

inductive kahn_step ::
  "GraphEdge list \<Rightarrow> string list \<times> (string \<Rightarrow> int) \<times> string list
    \<Rightarrow> string list \<times> (string \<Rightarrow> int) \<times> string list \<Rightarrow> bool" for es where
  pop: "deg' = (\<lambda>v. deg v - int (count_list (adjacency es c) v)) \<Longrightarrow>
    mset ready' = mset rest + mset (filter (\<lambda>v. deg' v = 0) (remdups (adjacency es c))) \<Longrightarrow>
    kahn_step es (c # rest, deg, order) (ready', deg', order @ [c])"

inductive_cases kahn_stepE: "kahn_step es (ready, deg, order) (ready', deg', order')"

lemma kahn_stepI:
  assumes "deg' = (\<lambda>v. deg v - int (count_list (adjacency es c) v))"
    and "mset ready' = mset rest + mset (filter (\<lambda>v. deg' v = 0) (remdups (adjacency es c)))"
    and "order' = order @ [c]"
  shows "kahn_step es (c # rest, deg, order) (ready', deg', order')"
  unfolding assms(3) by (rule kahn_step.pop[OF assms(1,2)])

definition open_preds :: "GraphEdge list \<Rightarrow> string list \<Rightarrow> string \<Rightarrow> GraphEdge list" where
  "open_preds es order v = filter (\<lambda>e. edge_from e \<notin> set order) (inbound es v)"

text \<open>Every prefix of the order is closed under predecessors.\<close>

definition topo_sorted :: "GraphEdge list \<Rightarrow> string list \<Rightarrow> bool" where
  "topo_sorted es order =
     (\<forall>xs v ys. order = xs @ v # ys \<longrightarrow> (\<forall>e \<in> set es. edge_to e = v \<longrightarrow> edge_from e \<in> set xs))"

definition kahn_inv :: "GraphEdge list \<Rightarrow> string set \<Rightarrow> string list \<Rightarrow> (string \<Rightarrow> int) \<Rightarrow> string list \<Rightarrow> bool" where
  "kahn_inv es V ready deg order =
     (finite V \<and> edges_in V es \<and> distinct (order @ ready) \<and> set (order @ ready) \<subseteq> V
      \<and> (\<forall>v. deg v = int (length (open_preds es order v)))
      \<and> (\<forall>v \<in> V. v \<in> set (order @ ready) \<longleftrightarrow> deg v = 0)
      \<and> topo_sorted es order)"

lemma topo_sorted_Nil [simp]: "topo_sorted es []"
  by (simp add: topo_sorted_def)

lemma topo_sorted_snoc:
  "topo_sorted es (order @ [c]) \<longleftrightarrow>
     topo_sorted es order \<and> (\<forall>e \<in> set es. edge_to e = c \<longrightarrow> edge_from e \<in> set order)"
proof
  assume L: "topo_sorted es (order @ [c])"
  have "\<forall>e \<in> set es. edge_to e = v \<longrightarrow> edge_from e \<in> set xs" if "order = xs @ v # ys" for xs v ys
    using L that unfolding topo_sorted_def by (metis append_Cons append_assoc)
  then show "topo_sorted es order \<and> (\<forall>e \<in> set es. edge_to e = c \<longrightarrow> edge_from e \<in> set order)"
    using L by (auto simp: topo_sorted_def)
next
  assume R: "topo_sorted es order \<and> (\<forall>e \<in> set es. edge_to e = c \<longrightarrow> edge_from e \<in> set order)"
  show "topo_sorted es (order @ [c])"
    unfolding topo_sorted_def
  proof (intro allI impI ballI)
    fix xs v ys e
    assume split: "order @ [c] = xs @ v # ys" and e: "e \<in> set es" "edge_to e = v"
    show "edge_from e \<in> set xs"
    proof (cases ys rule: rev_cases)
      case Nil
      with split R e show ?thesis by simp
    next
      case (snoc zs z)
      with split have "order = xs @ v # zs" by simp
      with R e show ?thesis unfolding topo_sorted_def by blast
    qed
  qed
qed

lemma open_preds_zero:
  "length (open_preds es order v) = 0 \<longleftrightarrow> (\<forall>e \<in> set es. edge_to e = v \<longrightarrow> edge_from e \<in> set order)"
  by (auto simp: open_preds_def inbound_def filter_empty_conv)

lemma count_adjacency:
  "count_list (adjacency es c) v = length (filter (\<lambda>e. edge_from e = c \<and> edge_to e = v) es)"
  by (induction es) (auto simp: adjacency_def)

lemma open_preds_snoc:
  assumes "c \<notin> set order"
  shows "int (length (open_preds es (order @ [c]) v))
    = int (length (open_preds es order v)) - int (count_list (adjacency es c) v)"
proof -
  have "length (open_preds es order v)
    = length (open_preds es (order @ [c]) v) + count_list (adjacency es c) v"
    using assms unfolding count_adjacency open_preds_def inbound_def
    by (induction es) auto
  then show ?thesis by simp
qed

lemma kahn_step_inv:
  assumes inv: "kahn_inv es V (c # rest) deg order"
    and deg': "deg' = (\<lambda>v. deg v - int (count_list (adjacency es c) v))"
    and ready': "mset ready' = mset rest + mset (filter (\<lambda>v. deg' v = 0) (remdups (adjacency es c)))"
  shows "kahn_inv es V ready' deg' (order @ [c])"
proof -
  let ?new = "filter (\<lambda>v. deg' v = 0) (remdups (adjacency es c))"
  have c: "c \<notin> set order" "c \<notin> set rest" "c \<in> V" and V: "edges_in V es" "finite V"
    and d: "\<And>v. deg v = int (length (open_preds es order v))"
    and z: "\<And>v. v \<in> V \<Longrightarrow> v \<in> set (order @ c # rest) \<longleftrightarrow> deg v = 0"
    and dist: "distinct (order @ rest)" and sub: "set (order @ rest) \<subseteq> V"
    and topo: "topo_sorted es order"
    using inv by (auto simp: kahn_inv_def)
  have d': "deg' v = int (length (open_preds es (order @ [c]) v))" for v
    unfolding deg' d by (rule open_preds_snoc[OF c(1), symmetric])
  have setr: "set ready' = set rest \<union> set ?new"
    using arg_cong[OF ready', of set_mset] by simp
  have adjV: "v \<in> V" if "v \<in> set (adjacency es c)" for v
    using that V(1) edges_in_rel set_adjacency by blast
  have adj_pos: "deg v \<noteq> 0" if v: "v \<in> set (adjacency es c)" for v
  proof -
    obtain e where "e \<in> set es" "edge_from e = c" "edge_to e = v"
      using v by (auto simp: adjacency_def)
    then show ?thesis using d[of v] c(1) open_preds_zero[of es order v] by auto
  qed
  have zero': "v \<in> set (order @ [c]) \<union> set ready' \<longleftrightarrow> deg' v = 0" if v: "v \<in> V" for v
  proof (cases "v \<in> set (order @ c # rest)")
    case True
    then have "v \<notin> set (adjacency es c)" using adj_pos z[OF v] by blast
    then have "deg' v = deg v" unfolding deg' by (simp add: count_list_0_iff)
    then show ?thesis using True z[OF v] setr by auto
  next
    case False
    then have "deg v \<noteq> 0" using z[OF v] by blast
    then have "deg' v = 0 \<Longrightarrow> v \<in> set (adjacency es c)"
      unfolding deg' by (metis count_list_0_iff diff_zero of_nat_0)
    then show ?thesis using False setr by auto
  qed
  have disj: "set ?new \<inter> set (order @ c # rest) = {}"
    using adj_pos z adjV by fastforce
  have "distinct ready'"
  proof -
    have "distinct (rest @ ?new)" using dist disj by auto
    then show ?thesis
      using ready' by (metis mset_append mset_eq_imp_distinct_iff)
  qed
  then have "distinct ((order @ [c]) @ ready')"
    using dist c disj setr by auto
  moreover have "set ((order @ [c]) @ ready') \<subseteq> V"
    using sub c(3) setr adjV by auto
  moreover have "deg c = 0" using z[OF c(3)] by simp
  then have "topo_sorted es (order @ [c])"
    using topo d[of c] open_preds_zero[of es order c] by (simp add: topo_sorted_snoc)
  ultimately show ?thesis
    using V d' zero' unfolding kahn_inv_def by auto
qed

section \<open>What a finished run has computed\<close>

lemma topo_sorted_acyclic:
  assumes "topo_sorted es order" "distinct order" "edges_in (set order) es"
  shows "acyclic (edge_rel es)"
proof -
  define pos where "pos v = (LEAST i. i < length order \<and> order ! i = v)" for v
  have pos: "pos v < length order \<and> order ! pos v = v" if "v \<in> set order" for v
    unfolding pos_def by (rule LeastI_ex) (use that in \<open>simp add: in_set_conv_nth\<close>)
  have "edge_rel es \<subseteq> inv_image less_than pos"
  proof clarify
    fix u v
    assume uv: "(u, v) \<in> edge_rel es"
    then obtain e where e: "e \<in> set es" "edge_from e = u" "edge_to e = v" by (auto simp: edge_rel_def)
    have V: "u \<in> set order" "v \<in> set order" using uv assms(3) edges_in_rel by blast+
    have "order = take (pos v) order @ v # drop (Suc (pos v)) order"
      using pos[OF V(2)] by (metis id_take_nth_drop)
    then have "u \<in> set (take (pos v) order)"
      using assms(1) e unfolding topo_sorted_def by blast
    then obtain i where i: "i < pos v" "order ! i = u" by (auto simp: in_set_conv_nth)
    moreover have "i = pos u"
      using i pos[OF V(1)] pos[OF V(2)] assms(2) by (metis nth_eq_iff_index_eq order_less_trans)
    ultimately show "(u, v) \<in> inv_image less_than pos" by simp
  qed
  then have "wf (edge_rel es)" by (rule wf_subset[rotated]) (simp add: wf_inv_image)
  then show ?thesis by (rule wf_acyclic)
qed

lemma kahn_finished_complete:
  assumes inv: "kahn_inv es V [] deg order" and "acyclic (edge_rel es)"
  shows "set order = V"
proof (rule ccontr)
  assume "set order \<noteq> V"
  then have ne: "V - set order \<noteq> {}" using inv by (auto simp: kahn_inv_def)
  have "wf (edge_rel es)" using assms(2) by (simp add: finite_acyclic_wf)
  then obtain v where v: "v \<in> V - set order"
    and min: "\<And>u. (u, v) \<in> edge_rel es \<Longrightarrow> u \<notin> V - set order"
    using ne wfE_min'[of "edge_rel es" "V - set order"] by blast
  have "deg v \<noteq> 0" using v inv by (auto simp: kahn_inv_def)
  then obtain e where "e \<in> set es" "edge_to e = v" "edge_from e \<notin> set order"
    using inv open_preds_zero[of es order v] by (auto simp: kahn_inv_def)
  then show False using min[of "edge_from e"] inv edge_relI[of e es]
    by (auto simp: kahn_inv_def edges_in_def)
qed

lemma kahn_finished:
  assumes "kahn_inv es V [] deg order"
  shows "set order = V \<longleftrightarrow> acyclic (edge_rel es)"
proof
  assume "set order = V"
  then show "acyclic (edge_rel es)"
    using assms topo_sorted_acyclic[of es order] by (auto simp: kahn_inv_def)
qed (use assms kahn_finished_complete in blast)

lemma kahn_finished_length:
  assumes "kahn_inv es V [] deg order"
  shows "length order = card V \<longleftrightarrow> set order = V"
proof -
  have "distinct order" "set order \<subseteq> V" "finite V" using assms by (auto simp: kahn_inv_def)
  then show ?thesis by (metis card_subset_eq distinct_card)
qed

section \<open>The machines that run it\<close>

text \<open>
  What the body of the successor loop promises, whichever queue it keeps: one predecessor less,
  and a push exactly when none is left.
\<close>

locale kahn_queue =
  fixes visit :: "'s \<Rightarrow> string \<Rightarrow> 's" and ready :: "'s \<Rightarrow> string list"
    and deg :: "'s \<Rightarrow> string \<Rightarrow> int" and order :: "'s \<Rightarrow> string list"
  assumes visit_deg: "deg (visit s v) = (deg s)(v := deg s v - 1)"
    and visit_ready: "mset (ready (visit s v))
      = mset (ready s) + (if deg s v - 1 = 0 then {#v#} else {#})"
    and visit_order: "order (visit s v) = order s"
begin

lemma visits_order: "order (foldl visit s vs) = order s"
  by (induction vs arbitrary: s) (simp_all add: visit_order)

lemma visits_deg: "deg (foldl visit s vs) = (\<lambda>n. deg s n - int (count_list vs n))"
  by (induction vs arbitrary: s) (auto simp: visit_deg fun_eq_iff)

lemma visits_ready:
  assumes "\<And>n. n \<in> set vs \<Longrightarrow> int (count_list vs n) \<le> deg s n"
  shows "mset (ready (foldl visit s vs))
    = mset (ready s) + mset (filter (\<lambda>n. deg s n - int (count_list vs n) = 0) (remdups vs))"
  using assms
proof (induction vs arbitrary: s)
  case Nil
  then show ?case by simp
next
  case (Cons v vs)
  have le: "int (count_list vs n) \<le> deg (visit s v) n" if "n \<in> set vs" for n
    using Cons.prems[of n] that by (auto simp: visit_deg split: if_splits)
  have eq: "filter (\<lambda>n. deg (visit s v) n - int (count_list vs n) = 0) (remdups vs)
    = filter (\<lambda>n. deg s n - int (count_list (v # vs) n) = 0) (remdups vs)"
    by (rule filter_cong) (auto simp: visit_deg)
  have cnt: "v \<in> set vs \<Longrightarrow> count_list vs v \<noteq> 0" by (simp add: count_list_0_iff)
  show ?case
  proof (cases "v \<in> set vs")
    case True
    then have "deg s v - 1 \<noteq> 0" using Cons.prems[of v] cnt by simp
    with True show ?thesis using Cons.IH[OF le, unfolded eq] by (simp add: visit_ready)
  next
    case False
    then have "count_list vs v = 0" by (simp add: count_list_0_iff)
    with False show ?thesis using Cons.IH[OF le, unfolded eq] by (auto simp: visit_ready)
  qed
qed

end

interpretation sched_queue: kahn_queue "relax c" ss_ready ss_indegree ss_order for c
  by unfold_locales simp_all

interpretation topo_queue: kahn_queue topo_visit ts_ready ts_indegree ts_order
  by unfold_locales simp_all

lemma kahn_inv_count:
  assumes "kahn_inv es V ready deg order" "c \<notin> set order"
  shows "int (count_list (adjacency es c) n) \<le> deg n"
  using open_preds_snoc[OF assms(2), of es n] assms(1) by (simp add: kahn_inv_def)

text \<open>
  A machine that runs Kahn's algorithm: a loop that pops until the queue is empty, each pop a
  \<^const>\<open>kahn_step\<close> on the projected state.
\<close>

locale kahn_machine =
  fixes es :: "GraphEdge list" and pop :: "'s \<Rightarrow> 's" and loop :: "'s \<Rightarrow> 's"
    and ready :: "'s \<Rightarrow> string list" and deg :: "'s \<Rightarrow> string \<Rightarrow> int"
    and order :: "'s \<Rightarrow> string list"
  assumes loop_unfold: "loop s = (if ready s = [] then s else loop (pop s))"
    and pop_less: "ready s \<noteq> [] \<Longrightarrow>
      kahn_measure es (ready (pop s)) (deg (pop s)) < kahn_measure es (ready s) (deg s)"
    and pop_step: "ready s = c # rest \<Longrightarrow>
      (\<And>n. int (count_list (adjacency es c) n) \<le> deg s n) \<Longrightarrow>
      kahn_step es (ready s, deg s, order s) (ready (pop s), deg (pop s), order (pop s))"
begin

lemma loop_preserves:
  assumes "P s" and "\<And>t. P t \<Longrightarrow> ready t \<noteq> [] \<Longrightarrow> P (pop t)"
  shows "P (loop s) \<and> ready (loop s) = []"
  using assms(1)
proof (induction "kahn_measure es (ready s) (deg s)" arbitrary: s rule: less_induct)
  case less
  show ?case
  proof (cases "ready s = []")
    case True
    then show ?thesis using less.prems by (subst (1 2) loop_unfold) simp
  next
    case False
    then show ?thesis
      using less.hyps[OF pop_less[OF False] assms(2)[OF less.prems False]]
      by (subst (1 2) loop_unfold) simp
  qed
qed

lemma pop_inv:
  assumes inv: "kahn_inv es V (ready s) (deg s) (order s)" and "ready s \<noteq> []"
  shows "kahn_inv es V (ready (pop s)) (deg (pop s)) (order (pop s))"
proof -
  obtain c rest where r: "ready s = c # rest" using assms(2) by (cases "ready s") auto
  then have "c \<notin> set (order s)" using inv by (auto simp: kahn_inv_def)
  from pop_step[OF r kahn_inv_count[OF inv this]]
  have "deg (pop s) = (\<lambda>v. deg s v - int (count_list (adjacency es c) v))"
    and "mset (ready (pop s))
      = mset rest + mset (filter (\<lambda>v. deg (pop s) v = 0) (remdups (adjacency es c)))"
    and "order (pop s) = order s @ [c]"
    using r by (auto elim!: kahn_stepE)
  with kahn_step_inv[OF inv[unfolded r]] show ?thesis by presburger
qed

lemma loop_inv:
  assumes "kahn_inv es V (ready s) (deg s) (order s)"
  shows "kahn_inv es V [] (deg (loop s)) (order (loop s))"
  using loop_preserves[of "\<lambda>s. kahn_inv es V (ready s) (deg s) (order s)", OF assms pop_inv] by auto

end

lemma sched_pop_step:
  assumes "ss_ready s = c # rest" "\<And>n. int (count_list (adjacency es c) n) \<le> ss_indegree s n"
  shows "kahn_step es (ss_ready s, ss_indegree s, ss_order s)
    (ss_ready (sched_pop ns es s), ss_indegree (sched_pop ns es s), ss_order (sched_pop ns es s))"
proof -
  let ?vs = "sort_keys (adjacency es c)"
  have cnt: "count_list ?vs n = count_list (adjacency es c) n" for n
    by (metis count_mset mset_sort_by sort_keys_def)
  have "mset (filter P (remdups ?vs)) = mset (filter P (remdups (adjacency es c)))" for P
    by (metis mset_filter set_eq_iff_mset_remdups_eq set_sort_by sort_keys_def)
  then show ?thesis
    unfolding sched_pop_def assms(1) list.case
    by (intro kahn_stepI)
      (use assms(2) in \<open>auto simp: sched_queue.visits_deg sched_queue.visits_order
        sched_queue.visits_ready cnt simp del: mset_filter\<close>)
qed

lemma topo_pop_step:
  assumes "ts_ready s = c # rest" "\<And>n. int (count_list (adjacency es c) n) \<le> ts_indegree s n"
  shows "kahn_step es (ts_ready s, ts_indegree s, ts_order s)
    (ts_ready (topo_pop es s), ts_indegree (topo_pop es s), ts_order (topo_pop es s))"
  unfolding topo_pop_def assms(1) list.case Let_def
  by (intro kahn_stepI)
    (use assms(2) in \<open>auto simp: topo_queue.visits_deg topo_queue.visits_order
      topo_queue.visits_ready sort_keys_def\<close>)

interpretation sched: kahn_machine es "sched_pop ns es" "sched_loop ns es" ss_ready ss_indegree ss_order
  for ns es
proof unfold_locales
  show "sched_loop ns es s = (if ss_ready s = [] then s else sched_loop ns es (sched_pop ns es s))"
    for s by (rule sched_loop.simps)
next
  fix s :: sched_state and c rest
  assume "ss_ready s = c # rest" "\<And>n. int (count_list (adjacency es c) n) \<le> ss_indegree s n"
  then show "kahn_step es (ss_ready s, ss_indegree s, ss_order s)
    (ss_ready (sched_pop ns es s), ss_indegree (sched_pop ns es s), ss_order (sched_pop ns es s))"
    by (rule sched_pop_step)
qed (auto simp: neq_Nil_conv intro: sched_pop_measure)

interpretation topo: kahn_machine es "topo_pop es" "topo_loop es" ts_ready ts_indegree ts_order for es
proof unfold_locales
  show "topo_loop es s = (if ts_ready s = [] then s else topo_loop es (topo_pop es s))" for s
    by (rule topo_loop.simps)
next
  fix s :: topo_state and c rest
  assume "ts_ready s = c # rest" "\<And>n. int (count_list (adjacency es c) n) \<le> ts_indegree s n"
  then show "kahn_step es (ts_ready s, ts_indegree s, ts_order s)
    (ts_ready (topo_pop es s), ts_indegree (topo_pop es s), ts_order (topo_pop es s))"
    by (rule topo_pop_step)
qed (auto simp: neq_Nil_conv intro: topo_pop_measure)

lemma initial_inv:
  assumes "edges_in (set vs) es"
  shows "kahn_inv es (set vs) (initial_ready vs es) (indegrees es) []"
  using assms by (auto simp: kahn_inv_def initial_ready_def sort_keys_def indegrees_def open_preds_def)

lemma sched_run_inv:
  assumes "edges_in (set (ids ns)) es"
  shows "kahn_inv es (set (ids ns)) [] (ss_indegree (sched_loop ns es (sched_init ns es)))
    (ss_order (sched_loop ns es (sched_init ns es)))"
  by (rule sched.loop_inv) (simp add: sched_init_def initial_inv assms)

lemma topo_run_inv:
  assumes "edges_in (set vs) es"
  shows "kahn_inv es (set vs) [] (ts_indegree (topo_loop es (topo_init vs es)))
    (ts_order (topo_loop es (topo_init vs es)))"
  by (rule topo.loop_inv) (simp add: topo_init_def initial_inv assms)

section \<open>Depths and step order\<close>

definition depth_inv :: "GraphNode list \<Rightarrow> GraphEdge list \<Rightarrow> sched_state \<Rightarrow> bool" where
  "depth_inv ns es s =
     ((\<forall>v. 0 \<le> ss_depth s v)
      \<and> (\<forall>u v. u \<in> set (ss_order s) \<longrightarrow> (u, v) \<in> edge_rel es \<longrightarrow> ss_depth s u + 1 \<le> ss_depth s v)
      \<and> (\<forall>v. ss_depth s v = 0
            \<or> (\<exists>u \<in> set (ss_order s). (u, v) \<in> edge_rel es \<and> ss_depth s v = ss_depth s u + 1))
      \<and> ss_steps s
        = filter (\<lambda>i. map_option node_kind (last_node_by_id ns i) = Some NodeKindStep) (ss_order s))"

lemma relax_depths:
  assumes "c \<notin> set vs"
  shows "ss_depth (foldl (relax c) s vs)
    = (\<lambda>v. if v \<in> set vs then max (ss_depth s v) (ss_depth s c + 1) else ss_depth s v)"
  using assms by (induction vs arbitrary: s) (auto simp: fun_eq_iff max_def)

lemma relax_steps: "ss_steps (foldl (relax c) s vs) = ss_steps s"
  by (induction vs arbitrary: s) simp_all

lemma sched_pop_depth_inv:
  assumes inv: "kahn_inv es V (ss_ready s) (ss_indegree s) (ss_order s)" and "ss_ready s \<noteq> []"
    and D: "depth_inv ns es s"
  shows "depth_inv ns es (sched_pop ns es s)"
proof -
  obtain c rest where r: "ss_ready s = c # rest" using assms(2) by (cases "ss_ready s") auto
  have fresh: "v \<notin> set (ss_order s) \<and> v \<noteq> c" if e: "(c, v) \<in> edge_rel es" for v
  proof -
    have "c \<notin> set (ss_order s)" using inv r by (auto simp: kahn_inv_def)
    moreover obtain f where "f \<in> set es" "edge_from f = c" "edge_to f = v"
      using e by (auto simp: edge_rel_def)
    ultimately have "length (open_preds es (ss_order s) v) \<noteq> 0"
      unfolding open_preds_zero by auto
    moreover have "v \<in> V" using e inv edges_in_rel by (auto simp: kahn_inv_def)
    ultimately have "v \<notin> set (ss_order s @ ss_ready s)" using inv by (auto simp: kahn_inv_def)
    then show ?thesis using r by auto
  qed
  then have "c \<notin> set (sort_keys (adjacency es c))" by (auto simp: sort_keys_def set_adjacency)
  then have dep: "ss_depth (sched_pop ns es s) = (\<lambda>v. if (c, v) \<in> edge_rel es
      then max (ss_depth s v) (ss_depth s c + 1) else ss_depth s v)"
    by (simp add: sched_pop_def r relax_depths set_adjacency sort_keys_def fun_eq_iff)
  have ord: "ss_order (sched_pop ns es s) = ss_order s @ [c]"
    by (simp add: sched_pop_def r sched_queue.visits_order)
  have keep: "ss_depth (sched_pop ns es s) u = ss_depth s u" if "u \<in> set (ss_order s @ [c])" for u
    using that fresh by (auto simp: dep)
  have "ss_steps (sched_pop ns es s) = filter
      (\<lambda>i. map_option node_kind (last_node_by_id ns i) = Some NodeKindStep) (ss_order s @ [c])"
    using D by (simp add: sched_pop_def r relax_steps depth_inv_def)
  moreover have "0 \<le> ss_depth (sched_pop ns es s) v" for v
    using D by (auto simp: dep depth_inv_def max_def intro: order_trans)
  moreover have "ss_depth s u + 1 \<le> ss_depth (sched_pop ns es s) v"
    if "u \<in> set (ss_order s @ [c])" "(u, v) \<in> edge_rel es" for u v
    using that D by (auto simp: dep depth_inv_def le_max_iff_disj)
  moreover have "ss_depth (sched_pop ns es s) v = 0 \<or> (\<exists>u \<in> set (ss_order s @ [c]).
      (u, v) \<in> edge_rel es \<and> ss_depth (sched_pop ns es s) v = ss_depth s u + 1)" for v
    using D by (auto simp: dep depth_inv_def max_def)
  ultimately show ?thesis
    unfolding depth_inv_def ord by (metis keep)
qed

lemma sched_run_depth:
  assumes "edges_in (set (ids ns)) es"
  shows "depth_inv ns es (sched_loop ns es (sched_init ns es))"
proof -
  let ?P = "\<lambda>s. kahn_inv es (set (ids ns)) (ss_ready s) (ss_indegree s) (ss_order s) \<and> depth_inv ns es s"
  have "?P (sched_init ns es)"
    using initial_inv[OF assms] by (simp add: sched_init_def depth_inv_def)
  then show ?thesis
    using sched.loop_preserves[of ?P] sched.pop_inv sched_pop_depth_inv by blast
qed

text \<open>The depth of a node is the length of the longest path that ends in it.\<close>

definition longest_path :: "(string \<times> string) set \<Rightarrow> string \<Rightarrow> nat \<Rightarrow> bool" where
  "longest_path r v n = ((\<exists>u. (u, v) \<in> r ^^ n) \<and> (\<forall>m u. (u, v) \<in> r ^^ m \<longrightarrow> m \<le> n))"

lemma longest_path_unique: "longest_path r v m \<Longrightarrow> longest_path r v n \<Longrightarrow> m = n"
  unfolding longest_path_def by (meson le_antisym)

lemma depth_inv_longest:
  assumes D: "depth_inv ns es s" and E: "edges_in (set (ss_order s)) es"
  shows "longest_path (edge_rel es) v (nat (ss_depth s v))"
proof -
  have up: "ss_depth s u + 1 \<le> ss_depth s w" if "(u, w) \<in> edge_rel es" for u w
    using D edges_in_rel[OF E that] that by (auto simp: depth_inv_def)
  have "int m \<le> ss_depth s w" if "(u, w) \<in> edge_rel es ^^ m" for m u w
    using that
  proof (induction m arbitrary: w)
    case 0
    then show ?case using D by (simp add: depth_inv_def)
  next
    case (Suc m)
    then obtain x where "(u, x) \<in> edge_rel es ^^ m" "(x, w) \<in> edge_rel es" by auto
    then show ?case using Suc.IH[of x] up[of x w] by simp
  qed
  moreover have "\<exists>u. (u, w) \<in> edge_rel es ^^ nat (ss_depth s w)" for w
  proof (induction "nat (ss_depth s w)" arbitrary: w)
    case 0
    then show ?case by (metis relpow_0_I)
  next
    case (Suc n)
    then have "ss_depth s w \<noteq> 0" by auto
    then obtain u where u: "(u, w) \<in> edge_rel es" "ss_depth s w = ss_depth s u + 1"
      using D by (auto simp: depth_inv_def)
    then have "n = nat (ss_depth s u)" using Suc.hyps(2) by simp
    with Suc.hyps(1) obtain x where "(x, u) \<in> edge_rel es ^^ n" by blast
    then show ?case using u(1) Suc.hyps(2)[symmetric] by (auto intro: relpow_Suc_I)
  qed
  ultimately show ?thesis unfolding longest_path_def by (metis le_nat_iff nat_int nat_mono)
qed

section \<open>Agreement and determinism\<close>

text \<open>The common view of the two machines, and the reference pop both perform on it.\<close>

definition abs_sched :: "sched_state \<Rightarrow> topo_state" where
  "abs_sched s = \<lparr>ts_ready = ss_ready s, ts_indegree = ss_indegree s, ts_order = ss_order s\<rparr>"

lemma relax_sorted:
  assumes "sorted_by LessUTF16 (ss_ready s)"
  shows "sorted_by LessUTF16 (ss_ready (foldl (relax c) s vs))"
  using assms
  by (induction vs arbitrary: s) (simp_all add: insert_ready_insert_by utf16.sorted_insert_by)

lemma sched_pop_refines:
  assumes inv: "kahn_inv es V (ss_ready s) (ss_indegree s) (ss_order s)" and ne: "ss_ready s \<noteq> []"
    and V: "\<forall>v \<in> V. valid_utf8 v" and sorted: "sorted_by LessUTF16 (ss_ready s)"
  shows "abs_sched (sched_pop ns es s) = topo_pop es (abs_sched s)"
    and "sorted_by LessUTF16 (ss_ready (sched_pop ns es s))"
proof -
  obtain c rest where r: "ss_ready s = c # rest" using ne by (cases "ss_ready s") auto
  then have "c \<notin> set (ss_order s)" using inv by (auto simp: kahn_inv_def)
  note cnt = kahn_inv_count[OF inv this]
  show srt: "sorted_by LessUTF16 (ss_ready (sched_pop ns es s))"
    using sorted by (simp add: sched_pop_def r relax_sorted)
  have A: "kahn_step es (c # rest, ss_indegree s, ss_order s)
    (ss_ready (sched_pop ns es s), ss_indegree (sched_pop ns es s), ss_order (sched_pop ns es s))"
    using sched.pop_step[OF r cnt] r by simp
  let ?t = "topo_pop es (abs_sched s)"
  have B: "kahn_step es (c # rest, ss_indegree s, ss_order s) (ts_ready ?t, ts_indegree ?t, ts_order ?t)"
    using topo.pop_step[of "abs_sched s" c rest es] r cnt by (simp add: abs_sched_def)
  have deg: "ss_indegree (sched_pop ns es s) = ts_indegree ?t"
    and ord: "ss_order (sched_pop ns es s) = ts_order ?t"
    using A B by (auto elim!: kahn_stepE)
  have "mset (ss_ready (sched_pop ns es s)) = mset (ts_ready ?t)"
    using A B by (auto elim!: kahn_stepE)
  moreover have "sorted_by LessUTF16 (ts_ready ?t)"
    by (simp add: topo_pop_def abs_sched_def r Let_def sort_keys_def utf16.sorted_sort_by)
  moreover have "\<forall>v \<in> set (ss_ready (sched_pop ns es s)). valid_utf8 v"
    using sched.pop_inv[OF inv ne, of ns] V unfolding kahn_inv_def by (simp add: subset_iff)
  ultimately have "ss_ready (sched_pop ns es s) = ts_ready ?t"
    using srt utf16.sorted_by_unique by blast
  then show "abs_sched (sched_pop ns es s) = ?t"
    using deg ord by (simp add: abs_sched_def)
qed

lemma sched_loop_refines:
  assumes "kahn_inv es V (ss_ready s) (ss_indegree s) (ss_order s)"
    and V: "\<forall>v \<in> V. valid_utf8 v" and "sorted_by LessUTF16 (ss_ready s)"
  shows "abs_sched (sched_loop ns es s) = topo_loop es (abs_sched s)"
  using assms(1,3)
proof (induction ns es s rule: sched_loop.induct)
  case (1 ns es s)
  show ?case
  proof (cases "ss_ready s = []")
    case True
    then show ?thesis by (simp add: sched_loop.simps[of ns es s] topo_loop.simps abs_sched_def)
  next
    case False
    note pop = sched_pop_refines[OF "1.prems"(1) False V "1.prems"(2)]
    have "abs_sched (sched_loop ns es (sched_pop ns es s))
      = topo_loop es (abs_sched (sched_pop ns es s))"
      by (rule "1.IH"[OF False sched.pop_inv[OF "1.prems"(1) False] pop(2)])
    moreover have "topo_loop es (abs_sched s) = topo_loop es (topo_pop es (abs_sched s))"
      using False by (subst topo_loop.simps) (simp add: abs_sched_def)
    ultimately show ?thesis
      using False pop(1) by (simp add: sched_loop.simps[of ns es s])
  qed
qed

lemma sched_run_refines:
  assumes "edges_in (set (ids ns)) es" "\<forall>v \<in> set (ids ns). valid_utf8 v"
  shows "ss_order (sched_loop ns es (sched_init ns es)) = ts_order (topo_loop es (topo_init (ids ns) es))"
proof -
  have "abs_sched (sched_loop ns es (sched_init ns es)) = topo_loop es (abs_sched (sched_init ns es))"
  proof (rule sched_loop_refines[OF _ assms(2)])
    show "sorted_by LessUTF16 (ss_ready (sched_init ns es))"
      by (simp add: sched_init_def initial_ready_def sort_keys_def utf16.sorted_sort_by)
  qed (simp add: sched_init_def initial_inv[OF assms(1)])
  moreover have "abs_sched (sched_init ns es) = topo_init (ids ns) es"
    by (simp add: abs_sched_def sched_init_def topo_init_def)
  moreover have "ts_order (abs_sched s) = ss_order s" for s by (simp add: abs_sched_def)
  ultimately show ?thesis by metis
qed

lemma check_edges_None: "check_edges vs es = None \<longleftrightarrow> edges_in (set vs) es"
  by (induction es) (auto simp: edges_in_def)

lemma check_plan_edges_None: "check_plan_edges vs es = None \<longleftrightarrow> edges_in (set vs) es"
  by (induction es) (auto simp: edges_in_def)

lemma check_plan_nodes_None:
  "check_plan_nodes seen is = None \<longleftrightarrow> [] \<notin> set is \<and> distinct is \<and> set is \<inter> set seen = {}"
  by (induction seen "is" rule: check_plan_nodes.induct) auto

lemma run_complete:
  assumes "kahn_inv es (set vs) [] deg order"
  shows "length order = length vs \<longleftrightarrow> distinct vs \<and> acyclic (edge_rel es)"
proof -
  have "distinct order" "set order \<subseteq> set vs" using assms by (auto simp: kahn_inv_def)
  then have "length order \<le> card (set vs)" by (metis List.finite_set card_mono distinct_card)
  moreover have "card (set vs) \<le> length vs" by (rule card_length)
  moreover have "card (set vs) = length vs \<longleftrightarrow> distinct vs" by (metis card_distinct distinct_card)
  ultimately show ?thesis
    using kahn_finished[OF assms] kahn_finished_length[OF assms] by linarith
qed

lemma BuildSchedule_Inr:
  "BuildSchedule g = Inr s \<longleftrightarrow>
     edges_in (set (ids (graph_nodes g))) (graph_edges g) \<and> distinct (ids (graph_nodes g))
     \<and> acyclic (edge_rel (graph_edges g))
     \<and> (let r = sched_loop (graph_nodes g) (graph_edges g) (sched_init (graph_nodes g) (graph_edges g)) in
        s = \<lparr>NodeOrder = ss_order r, StepIDs = ss_steps r,
             Depths = map (\<lambda>i. \<lparr>nd_node = i, nd_depth = ss_depth r i\<rparr>) (ss_order r)\<rparr>)"
proof (cases "edges_in (set (ids (graph_nodes g))) (graph_edges g)")
  case True
  then show ?thesis
    using run_complete[OF sched_run_inv[OF True]]
      check_edges_None[of "ids (graph_nodes g)" "graph_edges g"]
    by (auto simp: BuildSchedule_def Let_def) (simp_all add: ids_def)
next
  case False
  then show ?thesis
    using check_edges_None[of "ids (graph_nodes g)" "graph_edges g"]
    by (auto simp: BuildSchedule_def split: option.splits)
qed

lemma kahn_finished_perm:
  assumes "kahn_inv es (set vs) [] deg order" "distinct vs" "acyclic (edge_rel es)"
  shows "mset order = mset vs \<and> topo_sorted es order"
  using assms kahn_finished[OF assms(1)]
  by (auto simp: kahn_inv_def set_eq_iff_mset_eq_distinct[symmetric])

lemma indegrees_cong: "mset es = mset es' \<Longrightarrow> indegrees es = indegrees es'"
  unfolding indegrees_def inbound_def fun_eq_iff by (metis mset_filter size_mset)

lemma adjacency_cong:
  assumes "mset es = mset es'" "edges_in V es" "\<forall>v \<in> V. valid_utf8 v"
  shows "sort_keys (adjacency es c) = sort_keys (adjacency es' c)"
  unfolding sort_keys_def
proof (rule utf16.sort_by_cong_mset)
  show "mset (adjacency es c) = mset (adjacency es' c)"
    using assms(1) unfolding adjacency_def by (metis mset_filter mset_map)
  show "\<forall>v \<in> set (adjacency es c). valid_utf8 v"
    using assms(2,3) edges_in_rel by (auto simp: set_adjacency)
qed

lemma last_node_by_id_cong:
  assumes "distinct (ids ns)" "mset ns = mset ns'"
  shows "last_node_by_id ns i = last_node_by_id ns' i"
proof -
  have d: "distinct (ids ns')"
    using assms mset_eq_imp_distinct_iff[of "ids ns" "ids ns'"] by (simp add: ids_def)
  have same: "set ns = set ns'" using assms(2) by (metis set_mset_mset)
  show ?thesis
  proof (cases "node_by_id ns i")
    case None
    then have "node_by_id ns' i = None" using same by (simp add: node_by_id_None ids_def)
    with None show ?thesis by (simp add: last_node_by_id_distinct assms(1) d)
  next
    case (Some n)
    then have "n \<in> set ns'" "node_id n = i" using same node_by_id_Some by blast+
    then have "node_by_id ns' i = Some n" using node_by_id_distinct[OF d] by blast
    with Some show ?thesis by (simp add: last_node_by_id_distinct assms(1) d)
  qed
qed

lemma initial_ready_cong:
  assumes "mset vs = mset vs'" "distinct vs" "\<forall>v \<in> set vs. valid_utf8 v" "mset es = mset es'"
  shows "initial_ready vs es = initial_ready vs' es'"
  unfolding initial_ready_def sort_keys_def indegrees_cong[OF assms(4)]
proof (rule utf16.sort_by_cong_mset)
  have "distinct vs'" using assms(1,2) mset_eq_imp_distinct_iff by blast
  then show "mset (filter (\<lambda>v. indegrees es' v = 0) (remdups vs))
    = mset (filter (\<lambda>v. indegrees es' v = 0) (remdups vs'))"
    using assms(1,2) by (simp add: distinct_remdups_id)
qed (use assms(3) in auto)

lemma sched_loop_cong:
  assumes "\<And>s. sched_pop ns es s = sched_pop ns' es' s"
  shows "sched_loop ns es s = sched_loop ns' es' s"
  using assms
proof (induction ns es s rule: sched_loop.induct)
  case (1 ns es s)
  show ?case
  proof (cases "ss_ready s = []")
    case True
    then show ?thesis by (simp add: sched_loop.simps)
  next
    case False
    then show ?thesis
      using "1.IH"[OF False "1.prems"] "1.prems"[of s]
      by (simp add: sched_loop.simps[of ns es s] sched_loop.simps[of ns' es' s])
  qed
qed

section \<open>A diamond\<close>

text \<open>A small graph on which the properties below are exercised.\<close>

definition node_of :: "string \<Rightarrow> string \<Rightarrow> GraphNode" where
  "node_of i k = zero_node\<lparr>node_id := i, node_kind := k\<rparr>"

definition edge_of :: "string \<Rightarrow> string \<Rightarrow> GraphEdge" where
  "edge_of u v = \<lparr>edge_from = u, edge_to = v, edge_case = []\<rparr>"

definition diamond :: Graph where
  "diamond = \<lparr>graph_irVersion = ''1'', graph_start = ''s'', graph_end = ''e'',
     graph_nodes = [node_of ''s'' NodeKindStart, node_of ''b'' NodeKindStep,
       node_of ''a'' NodeKindStep, node_of ''e'' NodeKindEnd],
     graph_edges = [edge_of ''s'' ''b'', edge_of ''s'' ''a'', edge_of ''b'' ''e'', edge_of ''a'' ''e''],
     graph_exitHook = None\<rparr>"

definition diamond_schedule :: Schedule where
  "diamond_schedule = \<lparr>NodeOrder = [''s'', ''a'', ''b'', ''e''], StepIDs = [''a'', ''b''],
     Depths = [\<lparr>nd_node = ''s'', nd_depth = 0\<rparr>, \<lparr>nd_node = ''a'', nd_depth = 1\<rparr>,
       \<lparr>nd_node = ''b'', nd_depth = 1\<rparr>, \<lparr>nd_node = ''e'', nd_depth = 2\<rparr>]\<rparr>"

lemmas diamond_eval = diamond_def diamond_schedule_def node_of_def edge_of_def zero_node_def ids_def

lemma BuildSchedule_diamond: "BuildSchedule diamond = Inr diamond_schedule"
  by (simp add: diamond_eval utf16_eval BuildSchedule_def sched_init_def initial_ready_def indegrees_def
      inbound_def sched_loop.simps sched_pop_def relax_def last_node_by_id_def adjacency_def node_kinds)

lemma diamond_valid: "\<forall>v \<in> set (ids (graph_nodes diamond)). valid_utf8 v \<and> v \<noteq> []"
  by (simp add: diamond_eval valid_utf8_ascii)

section \<open>Properties\<close>

text \<open>
  C9. A successful \<^verbatim>\<open>BuildSchedule\<close> orders every authored node exactly once, each after all its
  predecessors, and \<^verbatim>\<open>StepIDs\<close> is the subsequence of step nodes.
\<close>

theorem BuildSchedule_order:
  assumes "BuildSchedule g = Inr s"
  shows "mset (NodeOrder s) = mset (ids (graph_nodes g)) \<and> topo_sorted (graph_edges g) (NodeOrder s)
    \<and> StepIDs s = filter (\<lambda>i. map_option node_kind (node_by_id (graph_nodes g) i) = Some NodeKindStep)
        (NodeOrder s)"
proof -
  let ?r = "sched_loop (graph_nodes g) (graph_edges g) (sched_init (graph_nodes g) (graph_edges g))"
  have ok: "edges_in (set (ids (graph_nodes g))) (graph_edges g)" "distinct (ids (graph_nodes g))"
    "acyclic (edge_rel (graph_edges g))" and s: "NodeOrder s = ss_order ?r" "StepIDs s = ss_steps ?r"
    using assms by (auto simp: BuildSchedule_Inr Let_def)
  show ?thesis
    using kahn_finished_perm[OF sched_run_inv[OF ok(1)] ok(2,3)] sched_run_depth[OF ok(1)] s
    by (simp add: depth_inv_def last_node_by_id_distinct[OF ok(2)])
qed

theorem BuildSchedule_order_witness:
  "BuildSchedule diamond = Inr diamond_schedule
   \<and> topo_sorted (graph_edges diamond) [''s'', ''a'', ''b'', ''e'']"
  using BuildSchedule_order[OF BuildSchedule_diamond] BuildSchedule_diamond
  by (simp add: diamond_schedule_def)

text \<open>
  C10. \<^verbatim>\<open>BuildSchedule\<close> succeeds exactly on the graphs whose node ids are distinct, whose edges
  join known nodes and whose edge relation is acyclic; on every other graph it reports an error.
\<close>

theorem BuildSchedule_succeeds_iff:
  "(\<exists>s. BuildSchedule g = Inr s) \<longleftrightarrow>
     edges_in (set (ids (graph_nodes g))) (graph_edges g) \<and> distinct (ids (graph_nodes g))
     \<and> acyclic (edge_rel (graph_edges g))"
  by (auto simp: BuildSchedule_Inr Let_def)

text \<open>
  C11. The depth \<^verbatim>\<open>BuildSchedule\<close> reports for a node is the length of the longest path of edges
  that ends in it.
\<close>

theorem BuildSchedule_depths:
  assumes "BuildSchedule g = Inr s" "d \<in> set (Depths s)"
  shows "longest_path (edge_rel (graph_edges g)) (nd_node d) (nat (nd_depth d)) \<and> 0 \<le> nd_depth d"
proof -
  let ?r = "sched_loop (graph_nodes g) (graph_edges g) (sched_init (graph_nodes g) (graph_edges g))"
  have ok: "edges_in (set (ids (graph_nodes g))) (graph_edges g)" "acyclic (edge_rel (graph_edges g))"
    and d: "d \<in> (\<lambda>i. \<lparr>nd_node = i, nd_depth = ss_depth ?r i\<rparr>) ` set (ss_order ?r)"
    using assms by (auto simp: BuildSchedule_Inr Let_def)
  have "set (ss_order ?r) = set (ids (graph_nodes g))"
    using kahn_finished[OF sched_run_inv[OF ok(1)]] ok(2) by simp
  then show ?thesis
    using depth_inv_longest[OF sched_run_depth[OF ok(1)]] ok(1) sched_run_depth[OF ok(1)] d
    by (auto simp: depth_inv_def)
qed

theorem BuildSchedule_depths_witness:
  "longest_path (edge_rel (graph_edges diamond)) ''e'' 2"
  using BuildSchedule_depths[OF BuildSchedule_diamond, of "\<lparr>nd_node = ''e'', nd_depth = 2\<rparr>"]
  by (simp add: diamond_schedule_def)

text \<open>
  C12. The three implementations agree: on a graph with nonempty well-formed ids, the order of
  \<^verbatim>\<open>BuildSchedule\<close> is the one \<^verbatim>\<open>spec.graphTopologicalOrder\<close> reports as complete and the one
  \<^verbatim>\<open>orchestrator.topologicalPlanOrder\<close> executes, although they keep their queues differently.
\<close>

theorem topological_orders_agree:
  assumes "BuildSchedule g = Inr s" "\<forall>v \<in> set (ids (graph_nodes g)). valid_utf8 v \<and> v \<noteq> []"
  shows "graphTopologicalOrder (graph_nodes g) (graph_edges g) = (NodeOrder s, True)
    \<and> topologicalPlanOrder (graph_nodes g) (graph_edges g) = Inr (NodeOrder s)"
proof -
  let ?vs = "ids (graph_nodes g)" and ?es = "graph_edges g"
  have ok: "edges_in (set ?vs) ?es" "distinct ?vs" "acyclic (edge_rel ?es)"
    and s: "NodeOrder s = ss_order (sched_loop (graph_nodes g) ?es (sched_init (graph_nodes g) ?es))"
    using assms by (auto simp: BuildSchedule_Inr Let_def)
  have run: "ts_order (topo_loop ?es (topo_init ?vs ?es)) = NodeOrder s"
    using sched_run_refines[OF ok(1)] assms(2) s by simp
  have len: "length (NodeOrder s) = length ?vs"
    using run_complete[OF topo_run_inv[OF ok(1)]] ok(2,3) run by simp
  have known: "known_edges ?vs ?es = ?es"
    using ok(1) by (auto simp: known_edges_def edges_in_def intro: filter_True)
  have checks: "check_plan_nodes [] ?vs = None" "check_plan_edges ?vs ?es = None"
    using assms(2) ok(1,2) by (auto simp: check_plan_nodes_None check_plan_edges_None)
  show ?thesis
    using run len known checks ok(2)
    by (simp add: graphTopologicalOrder_def topologicalPlanOrder_def Let_def distinct_remdups_id)
      (simp add: ids_def)
qed

theorem topological_orders_agree_witness:
  "graphTopologicalOrder (graph_nodes diamond) (graph_edges diamond) = ([''s'', ''a'', ''b'', ''e''], True)
   \<and> topologicalPlanOrder (graph_nodes diamond) (graph_edges diamond) = Inr [''s'', ''a'', ''b'', ''e'']"
  using topological_orders_agree[OF BuildSchedule_diamond diamond_valid]
  by (simp add: diamond_schedule_def)

text \<open>
  C13. The schedule depends on the graph, not on how it is written down: permuting the node list
  and the edge list of a graph with well-formed ids leaves the whole schedule unchanged.
\<close>

theorem BuildSchedule_permutation:
  assumes "BuildSchedule g = Inr s" "mset (graph_nodes g') = mset (graph_nodes g)"
    "mset (graph_edges g') = mset (graph_edges g)" "\<forall>v \<in> set (ids (graph_nodes g)). valid_utf8 v"
  shows "BuildSchedule g' = Inr s"
proof -
  let ?ns = "graph_nodes g" and ?es = "graph_edges g" and ?ns' = "graph_nodes g'" and ?es' = "graph_edges g'"
  have ok: "edges_in (set (ids ?ns)) ?es" "distinct (ids ?ns)" "acyclic (edge_rel ?es)"
    using assms(1) by (auto simp: BuildSchedule_Inr)
  have vs: "mset (ids ?ns) = mset (ids ?ns')" using assms(2) by (simp add: ids_def)
  have es: "set ?es' = set ?es" and ids: "set (ids ?ns') = set (ids ?ns)"
    using assms(3) vs by (metis set_mset_mset)+
  have pop: "sched_pop ?ns ?es t = sched_pop ?ns' ?es' t" for t
    unfolding sched_pop_def
    using adjacency_cong[OF assms(3)[symmetric] ok(1) assms(4)]
      last_node_by_id_cong[OF ok(2) assms(2)[symmetric]] by (simp split: list.split)
  have "sched_init ?ns ?es = sched_init ?ns' ?es'"
    using initial_ready_cong[OF vs ok(2) assms(4) assms(3)[symmetric]] indegrees_cong[OF assms(3)]
    by (simp add: sched_init_def)
  then have run: "sched_loop ?ns' ?es' (sched_init ?ns' ?es') = sched_loop ?ns ?es (sched_init ?ns ?es)"
    using sched_loop_cong[OF pop] by metis
  have "distinct (ids ?ns')" using ok(2) vs mset_eq_imp_distinct_iff by blast
  then show ?thesis
    using assms(1) ok es ids unfolding BuildSchedule_Inr run
    by (simp add: edges_in_def edge_rel_def)
qed

theorem BuildSchedule_permutation_witness:
  "BuildSchedule (diamond\<lparr>graph_nodes := rev (graph_nodes diamond), graph_edges := rev (graph_edges diamond)\<rparr>)
   = Inr diamond_schedule"
  using BuildSchedule_permutation[OF BuildSchedule_diamond,
      of "diamond\<lparr>graph_nodes := rev (graph_nodes diamond), graph_edges := rev (graph_edges diamond)\<rparr>"]
    diamond_valid by simp

end
