(* ===== verification/GraphPasses.thy ===== *)
theory GraphPasses
  imports WorkflowSpec
begin

text \<open>
  The graph traversals of \<^verbatim>\<open>internal/spec/spec.go\<close>: the breadth-first searches behind
  \<^verbatim>\<open>unreachableDiagnostics\<close>, \<^verbatim>\<open>graphReachable\<close> and \<^verbatim>\<open>graphReachableBefore\<close>, and the depth-first
  \<^verbatim>\<open>findCycle\<close>. Each is shown to compute what it decides: the reachable set, reachability
  avoiding a node, and the presence of a directed cycle, with a cycle as evidence.
\<close>

section \<open>Adjacency tables\<close>

text \<open>Go's \<^verbatim>\<open>map[string][]string\<close>; a missing key reads the empty slice.\<close>

type_synonym adj_table = "(string \<times> string list) list"

definition adj_of :: "adj_table \<Rightarrow> string \<Rightarrow> string list" where
  "adj_of adj u = (case map_of adj u of None \<Rightarrow> [] | Some vs \<Rightarrow> vs)"

definition adjacency_table :: "GraphEdge list \<Rightarrow> adj_table" where
  "adjacency_table es = map (\<lambda>u. (u, adjacency es u)) (remdups (map edge_from es))"

definition sorted_table :: "adj_table \<Rightarrow> adj_table" where
  "sorted_table adj = map (\<lambda>(u, vs). (u, sort_keys vs)) adj"

definition adj_targets :: "adj_table \<Rightarrow> string set" where
  "adj_targets adj = \<Union> ((set \<circ> snd) ` set adj)"

definition adj_rel :: "adj_table \<Rightarrow> (string \<times> string) set" where
  "adj_rel adj = {(u, v). v \<in> set (adj_of adj u)}"

lemma finite_adj_targets [simp]: "finite (adj_targets adj)"
  by (simp add: adj_targets_def)

lemma adj_of_targets: "set (adj_of adj u) \<subseteq> adj_targets adj"
  by (cases "map_of adj u") (auto simp: adj_of_def adj_targets_def dest!: map_of_SomeD)

lemma adj_relD: "v \<in> set (adj_of adj u) \<longleftrightarrow> (u, v) \<in> adj_rel adj"
  by (simp add: adj_rel_def)

lemma adj_of_table: "adj_of (adjacency_table es) u = adjacency es u"
proof (cases "u \<in> edge_from ` set es")
  case True
  then have "map_of (adjacency_table es) u = Some (adjacency es u)"
    by (auto simp: adjacency_table_def map_of_map_restrict restrict_map_def)
  then show ?thesis by (simp add: adj_of_def)
next
  case False
  then have "map_of (adjacency_table es) u = None"
    by (auto simp: adjacency_table_def map_of_map_restrict restrict_map_def)
  moreover have "adjacency es u = []" using False by (auto simp: adjacency_def filter_empty_conv)
  ultimately show ?thesis by (simp add: adj_of_def)
qed

lemma adj_of_sorted: "adj_of (sorted_table adj) u = sort_keys (adj_of adj u)"
  by (induction adj) (auto simp: sorted_table_def adj_of_def sort_keys_def)

lemma adj_rel_table [simp]: "adj_rel (adjacency_table es) = edge_rel es"
  by (auto simp: adj_rel_def adj_of_table set_adjacency)

lemma adj_rel_sorted [simp]: "adj_rel (sorted_table adj) = adj_rel adj"
  by (simp add: adj_rel_def adj_of_sorted sort_keys_def)

section \<open>Breadth-first search\<close>

text \<open>
  One pass over the successors of the current node: \<^const>\<open>None\<close> is the early return of
  \<^verbatim>\<open>graphReachable\<close> at a successor satisfying \<open>hit\<close>.
\<close>

fun bfs_visit :: "(string \<Rightarrow> bool) \<Rightarrow> string list \<Rightarrow> string list \<Rightarrow> string list
    \<Rightarrow> (string list \<times> string list) option" where
  "bfs_visit hit [] seen queue = Some (seen, queue)"
| "bfs_visit hit (next_id # rest) seen queue =
     (if hit next_id then None
      else if next_id \<in> set seen then bfs_visit hit rest seen queue
      else bfs_visit hit rest (next_id # seen) (queue @ [next_id]))"

definition bfs_measure :: "adj_table \<Rightarrow> string list \<Rightarrow> string list \<Rightarrow> nat" where
  "bfs_measure adj seen queue = length queue + card (adj_targets adj - set seen)"

lemma bfs_visit_measure:
  assumes "bfs_visit hit vs seen queue = Some (seen', queue')" "set vs \<subseteq> adj_targets adj"
  shows "bfs_measure adj seen' queue' \<le> bfs_measure adj seen queue"
  using assms
proof (induction hit vs seen queue rule: bfs_visit.induct)
  case (2 hit v vs seen queue)
  show ?case
  proof (cases "v \<in> set seen")
    case True
    then show ?thesis using 2 by (auto split: if_splits)
  next
    case False
    have "bfs_measure adj (v # seen) (queue @ [v]) = bfs_measure adj seen queue"
      using False "2.prems"(2)
      by (simp add: bfs_measure_def card_Diff_insert card_gt_0_iff)
        (metis Diff_iff Suc_pred card_gt_0_iff empty_iff finite_Diff finite_adj_targets)
    then show ?thesis using 2 False by (auto split: if_splits)
  qed
qed simp

function bfs_loop :: "(string \<Rightarrow> bool) \<Rightarrow> adj_table \<Rightarrow> string list \<Rightarrow> string list \<Rightarrow> string list option" where
  "bfs_loop hit adj seen [] = Some seen"
| "bfs_loop hit adj seen (current # queue) =
     (case bfs_visit hit (adj_of adj current) seen queue of
        None \<Rightarrow> None
      | Some (seen', queue') \<Rightarrow> bfs_loop hit adj seen' queue')"
  by pat_completeness auto
termination
proof (relation "measure (\<lambda>(hit, adj, seen, queue). bfs_measure adj seen queue)")
  fix hit adj seen current queue x xa y
  assume "bfs_visit hit (adj_of adj current) seen queue = Some x" "(xa, y) = x"
  then have "bfs_measure adj xa y \<le> bfs_measure adj seen queue"
    using bfs_visit_measure[OF _ adj_of_targets] by metis
  then show "((hit, adj, xa, y), hit, adj, seen, current # queue)
    \<in> measure (\<lambda>(hit, adj, seen, queue). bfs_measure adj seen queue)"
    by (simp add: bfs_measure_def)
qed simp

definition graphReachable :: "string \<Rightarrow> string \<Rightarrow> GraphEdge list \<Rightarrow> bool" where
  "graphReachable start target es =
     (start = target
      \<or> bfs_loop (\<lambda>v. v = target) (adjacency_table es) [start] [start] = None)"

definition unreachable_ids :: "string \<Rightarrow> string list \<Rightarrow> adj_table \<Rightarrow> string list" where
  "unreachable_ids start vs adj =
     (case bfs_loop (\<lambda>_. False) adj [start] [start] of
        None \<Rightarrow> []
      | Some reachable \<Rightarrow> sort_keys (filter (\<lambda>v. v \<notin> set reachable) vs))"

definition unreachableDiagnostics :: "Graph \<Rightarrow> adj_table \<Rightarrow> Diagnostic list" where
  "unreachableDiagnostics g adj =
     (if node_by_id (graph_nodes g) (graph_start g) = None then []
      else map (\<lambda>i. Diag ''$.graph.nodes'' i ''node is not reachable from start'')
             (unreachable_ids (graph_start g) (ids (graph_nodes g)) adj))"

text \<open>The variant that marks a node when it is popped and never enters \<open>stop\<close>.\<close>

function before_loop :: "string \<Rightarrow> adj_table \<Rightarrow> string list \<Rightarrow> string list \<Rightarrow> string list" where
  "before_loop stop adj seen [] = seen"
| "before_loop stop adj seen (current # queue) =
     (if current = stop \<or> current \<in> set seen then before_loop stop adj seen queue
      else before_loop stop adj (current # seen)
             (queue @ filter (\<lambda>v. v \<notin> set (current # seen)) (adj_of adj current)))"
  by pat_completeness auto
termination
proof (relation "measures [\<lambda>(stop, adj, seen, queue). card (adj_targets adj \<union> set queue - set seen),
    \<lambda>(stop, adj, seen, queue). length queue]")
  fix stop current adj and seen queue :: "string list"
  have "card (adj_targets adj \<union> set queue - set seen)
    \<le> card (adj_targets adj \<union> set (current # queue) - set seen)"
    by (rule card_mono) auto
  then show "((stop, adj, seen, queue), stop, adj, seen, current # queue)
    \<in> measures [\<lambda>(stop, adj, seen, queue). card (adj_targets adj \<union> set queue - set seen),
      \<lambda>(stop, adj, seen, queue). length queue]"
    by (auto simp: le_less)
next
  fix stop current adj and seen queue :: "string list"
  let ?q = "queue @ filter (\<lambda>v. v \<notin> set (current # seen)) (adj_of adj current)"
  assume "\<not> (current = stop \<or> current \<in> set seen)"
  then have "adj_targets adj \<union> set ?q - set (current # seen)
    \<subset> adj_targets adj \<union> set (current # queue) - set seen"
    using adj_of_targets[of adj current] by auto
  then have "card (adj_targets adj \<union> set ?q - set (current # seen))
    < card (adj_targets adj \<union> set (current # queue) - set seen)"
    by (intro psubset_card_mono) auto
  then show "((stop, adj, current # seen, ?q), stop, adj, seen, current # queue)
    \<in> measures [\<lambda>(stop, adj, seen, queue). card (adj_targets adj \<union> set queue - set seen),
      \<lambda>(stop, adj, seen, queue). length queue]"
    by simp
qed simp

definition graphReachableBefore :: "string \<Rightarrow> string \<Rightarrow> GraphEdge list \<Rightarrow> string list" where
  "graphReachableBefore start stop es = before_loop stop (adjacency_table es) [] [start]"

section \<open>Depth-first search for a cycle\<close>

text \<open>
  \<^verbatim>\<open>findCycle\<close>'s closure \<^verbatim>\<open>visit\<close>, with its call stack made explicit: a frame is the node of an
  active call with the successors its loop has not reached. Colours are 0 unvisited, 1 visiting,
  2 visited; \<^verbatim>\<open>stackIndex\<close> reads 0 where it has no entry.
\<close>

record dfs_state =
  df_frames :: "(string \<times> string list) list"
  df_state :: "string \<Rightarrow> nat"
  df_stack :: "string list"
  df_stackIndex :: "string \<Rightarrow> nat"

definition dfs_enter :: "adj_table \<Rightarrow> string \<Rightarrow> dfs_state \<Rightarrow> dfs_state" where
  "dfs_enter adj n s = s\<lparr>df_frames := (n, adj_of adj n) # df_frames s,
     df_state := (df_state s)(n := 1),
     df_stackIndex := (df_stackIndex s)(n := length (df_stack s)),
     df_stack := df_stack s @ [n]\<rparr>"

definition dfs_leave :: "string \<Rightarrow> dfs_state \<Rightarrow> dfs_state" where
  "dfs_leave n s = s\<lparr>df_frames := tl (df_frames s),
     df_stack := butlast (df_stack s),
     df_stackIndex := (df_stackIndex s)(n := 0),
     df_state := (df_state s)(n := 2)\<rparr>"

definition dfs_advance :: "string \<Rightarrow> string list \<Rightarrow> dfs_state \<Rightarrow> dfs_state" where
  "dfs_advance n rest s = s\<lparr>df_frames := (n, rest) # tl (df_frames s)\<rparr>"

text \<open>What the search may still enter, and the work left in the active calls.\<close>

definition dfs_white :: "adj_table \<Rightarrow> dfs_state \<Rightarrow> string set" where
  "dfs_white adj s = {v \<in> adj_targets adj \<union> (\<Union>f \<in> set (df_frames s). set (snd f)). df_state s v = 0}"

definition dfs_work :: "dfs_state \<Rightarrow> nat" where
  "dfs_work s = sum_list (map (\<lambda>f. Suc (length (snd f))) (df_frames s))"

lemma finite_dfs_white [simp]: "finite (dfs_white adj s)"
  by (simp add: dfs_white_def)

lemma dfs_enter_less:
  assumes "df_frames s = (n, v # rest) # fs" "df_state s v = 0"
  shows "card (dfs_white adj (dfs_enter adj v (dfs_advance n rest s))) < card (dfs_white adj s)"
proof (rule psubset_card_mono)
  have "dfs_white adj (dfs_enter adj v (dfs_advance n rest s)) \<subseteq> dfs_white adj s - {v}"
    using adj_of_targets[of adj v] assms(1)
    by (auto simp: dfs_white_def dfs_enter_def dfs_advance_def split: if_splits)
  moreover have "v \<in> dfs_white adj s" using assms by (simp add: dfs_white_def)
  ultimately show "dfs_white adj (dfs_enter adj v (dfs_advance n rest s)) \<subset> dfs_white adj s" by blast
qed simp

lemma dfs_leave_less:
  assumes "df_frames s = (n, []) # fs"
  shows "card (dfs_white adj (dfs_leave n s)) \<le> card (dfs_white adj s)"
    and "dfs_work (dfs_leave n s) < dfs_work s"
proof -
  show "card (dfs_white adj (dfs_leave n s)) \<le> card (dfs_white adj s)"
    by (rule card_mono) (auto simp: dfs_white_def dfs_leave_def assms split: if_splits)
qed (simp add: dfs_work_def dfs_leave_def assms)

lemma dfs_advance_less:
  assumes "df_frames s = (n, v # rest) # fs"
  shows "card (dfs_white adj (dfs_advance n rest s)) \<le> card (dfs_white adj s)"
    and "dfs_work (dfs_advance n rest s) < dfs_work s"
proof -
  show "card (dfs_white adj (dfs_advance n rest s)) \<le> card (dfs_white adj s)"
    by (rule card_mono) (auto simp: dfs_white_def dfs_advance_def assms)
qed (simp add: dfs_work_def dfs_advance_def assms)

text \<open>Runs the active calls to the end: a cycle, or the state the outermost call leaves.\<close>

function (sequential) dfs_run :: "adj_table \<Rightarrow> dfs_state \<Rightarrow> string list + dfs_state" where
  "dfs_run adj s =
     (case df_frames s of
        [] \<Rightarrow> Inr s
      | (n, []) # _ \<Rightarrow> dfs_run adj (dfs_leave n s)
      | (n, v # rest) # _ \<Rightarrow>
          if df_state s v = 0 then dfs_run adj (dfs_enter adj v (dfs_advance n rest s))
          else if df_state s v \<noteq> 1 then dfs_run adj (dfs_advance n rest s)
          else Inl (drop (df_stackIndex s v) (df_stack s) @ [v]))"
  by pat_completeness auto
termination
proof (relation "measures [\<lambda>(adj, s). card (dfs_white adj s), \<lambda>(adj, s). dfs_work s]")
  fix adj and s :: dfs_state and f fs n r
  assume "df_frames s = f # fs" "(n, r) = f" "r = []"
  then show "((adj, dfs_leave n s), adj, s)
      \<in> measures [\<lambda>(adj, s). card (dfs_white adj s), \<lambda>(adj, s). dfs_work s]"
    using dfs_leave_less(1)[of s n fs adj] dfs_leave_less(2)[of s n fs] by (auto simp: le_less)
next
  fix adj and s :: dfs_state and f fs n r v rest
  assume "df_frames s = f # fs" "(n, r) = f" "r = v # rest" "df_state s v = 0"
  then show "((adj, dfs_enter adj v (dfs_advance n rest s)), adj, s)
      \<in> measures [\<lambda>(adj, s). card (dfs_white adj s), \<lambda>(adj, s). dfs_work s]"
    using dfs_enter_less[of s n v rest fs adj] by auto
next
  fix adj and s :: dfs_state and f fs n r v rest
  assume "df_frames s = f # fs" "(n, r) = f" "r = v # rest" "df_state s v \<noteq> 0"
  then show "((adj, dfs_advance n rest s), adj, s)
      \<in> measures [\<lambda>(adj, s). card (dfs_white adj s), \<lambda>(adj, s). dfs_work s]"
    using dfs_advance_less(1)[of s n v rest fs adj] dfs_advance_less(2)[of s n v rest fs] by (auto simp: le_less)
qed simp

declare dfs_run.simps [simp del]

fun dfs_roots :: "adj_table \<Rightarrow> string list \<Rightarrow> dfs_state \<Rightarrow> string list" where
  "dfs_roots adj [] s = []"
| "dfs_roots adj (n # ns) s =
     (if df_state s n \<noteq> 0 then dfs_roots adj ns s
      else case dfs_run adj (dfs_enter adj n s) of
             Inl cycle \<Rightarrow> cycle
           | Inr s' \<Rightarrow> dfs_roots adj ns s')"

definition dfs_init :: dfs_state where
  "dfs_init = \<lparr>df_frames = [], df_state = (\<lambda>_. 0), df_stack = [], df_stackIndex = (\<lambda>_. 0)\<rparr>"

definition findCycle :: "GraphNode list \<Rightarrow> adj_table \<Rightarrow> string list" where
  "findCycle ns adj = dfs_roots adj (sort_keys (ids ns)) dfs_init"

section \<open>What the breadth-first searches compute\<close>

lemma bfs_visit_Some:
  "bfs_visit hit vs seen queue = Some (seen', queue') \<Longrightarrow>
     set seen' = set seen \<union> set vs \<and> set queue' = set queue \<union> (set vs - set seen)
     \<and> (\<forall>v \<in> set vs. \<not> hit v)"
proof (induction hit vs seen queue rule: bfs_visit.induct)
  case (2 hit v vs seen queue)
  have h: "\<not> hit v" using "2.prems" by (simp split: if_splits)
  show ?case
  proof (cases "v \<in> set seen")
    case True
    then show ?thesis using "2.IH"(1)[OF h True] "2.prems" h by auto
  next
    case False
    then show ?thesis using "2.IH"(2)[OF h False] "2.prems" h by auto
  qed
qed simp

lemma bfs_visit_None: "bfs_visit hit vs seen queue = None \<longleftrightarrow> (\<exists>v \<in> set vs. hit v)"
  by (induction hit vs seen queue rule: bfs_visit.induct) auto

definition bfs_inv :: "(string \<Rightarrow> bool) \<Rightarrow> adj_table \<Rightarrow> string list \<Rightarrow> string list \<Rightarrow> bool" where
  "bfs_inv hit adj seen queue =
     (set queue \<subseteq> set seen
      \<and> (\<forall>u \<in> set seen - set queue. \<forall>v. (u, v) \<in> adj_rel adj \<longrightarrow> v \<in> set seen \<and> \<not> hit v))"

lemma bfs_loop_result:
  assumes "bfs_inv hit adj seen queue"
  shows "case bfs_loop hit adj seen queue of
      None \<Rightarrow> \<exists>u \<in> set seen. \<exists>v. (u, v) \<in> (adj_rel adj)\<^sup>+ \<and> hit v
    | Some S \<Rightarrow> set S = (adj_rel adj)\<^sup>* `` set seen
        \<and> (\<forall>u \<in> set S. \<forall>v. (u, v) \<in> adj_rel adj \<longrightarrow> \<not> hit v)"
  using assms
proof (induction hit adj seen queue rule: bfs_loop.induct)
  case (1 hit adj seen)
  then have "adj_rel adj `` set seen \<subseteq> set seen" by (auto simp: bfs_inv_def)
  then have "(adj_rel adj)\<^sup>* `` set seen = set seen" by (rule Image_closed_trancl)
  then show ?case using 1 by (auto simp: bfs_inv_def)
next
  case (2 hit adj seen c queue)
  have c: "c \<in> set seen" using "2.prems" by (auto simp: bfs_inv_def)
  show ?case
  proof (cases "bfs_visit hit (adj_of adj c) seen queue")
    case None
    then obtain v where "(c, v) \<in> adj_rel adj" "hit v" by (auto simp: bfs_visit_None adj_relD)
    then show ?thesis using None c by auto
  next
    case (Some p)
    obtain seen' queue' where p: "p = (seen', queue')" by (cases p)
    note visit = conjunct1[OF bfs_visit_Some[OF Some[unfolded p]]]
      conjunct2[OF bfs_visit_Some[OF Some[unfolded p]]]
    have inv: "bfs_inv hit adj seen' queue'"
      unfolding bfs_inv_def
    proof (intro conjI ballI allI impI)
      show "set queue' \<subseteq> set seen'" using visit "2.prems" by (auto simp: bfs_inv_def)
    next
      fix u v
      assume u: "u \<in> set seen' - set queue'" and uv: "(u, v) \<in> adj_rel adj"
      then have "u = c \<or> u \<in> set seen - set (c # queue)" using visit by auto
      then have "v \<in> set seen' \<and> \<not> hit v"
      proof
        assume "u = c"
        then show ?thesis using uv visit by (simp add: adj_relD[symmetric])
      next
        assume "u \<in> set seen - set (c # queue)"
        then show ?thesis using uv visit(1) "2.prems" unfolding bfs_inv_def by blast
      qed
      then show "v \<in> set seen'" "\<not> hit v" by simp_all
    qed
    have mono: "(adj_rel adj)\<^sup>* `` set seen' = (adj_rel adj)\<^sup>* `` set seen"
      using visit(1) c
      by (auto simp: adj_relD intro: ImageI[OF converse_rtrancl_into_rtrancl])
    have prior: "\<exists>u \<in> set seen. \<exists>v. (u, v) \<in> (adj_rel adj)\<^sup>+ \<and> hit v"
      if hits: "\<exists>u \<in> set seen'. \<exists>v. (u, v) \<in> (adj_rel adj)\<^sup>+ \<and> hit v"
      using hits visit(1) c by (metis UnE adj_relD trancl_into_trancl2)
    show ?thesis
      using "2.IH"[OF Some[unfolded p] refl inv] mono prior Some p by (auto split: option.splits)
  qed
qed

lemma bfs_loop_start:
  "case bfs_loop hit adj [start] [start] of
      None \<Rightarrow> \<exists>v. (start, v) \<in> (adj_rel adj)\<^sup>+ \<and> hit v
    | Some S \<Rightarrow> set S = (adj_rel adj)\<^sup>* `` {start}
        \<and> (\<forall>u \<in> set S. \<forall>v. (u, v) \<in> adj_rel adj \<longrightarrow> \<not> hit v)"
  using bfs_loop_result[of hit adj "[start]" "[start]"]
  by (simp add: bfs_inv_def del: bfs_loop.simps split: option.splits)

lemma graphReachable_rtrancl: "graphReachable start target es \<longleftrightarrow> (start, target) \<in> (edge_rel es)\<^sup>*"
proof -
  let ?r = "bfs_loop (\<lambda>v. v = target) (adjacency_table es) [start] [start]"
  show ?thesis
  proof (cases ?r)
    case None
    then have "(start, target) \<in> (edge_rel es)\<^sup>+"
      using bfs_loop_start[where hit = "\<lambda>v. v = target" and adj = "adjacency_table es" and start = start]
      by (simp del: bfs_loop.simps)
    then show ?thesis using None by (simp add: graphReachable_def trancl_into_rtrancl del: bfs_loop.simps)
  next
    case (Some S)
    then have S: "set S = (edge_rel es)\<^sup>* `` {start}"
      "\<forall>u \<in> set S. \<forall>v. (u, v) \<in> edge_rel es \<longrightarrow> v \<noteq> target"
      using bfs_loop_start[where hit = "\<lambda>v. v = target" and adj = "adjacency_table es" and start = start]
      by (simp_all del: bfs_loop.simps)
    have "start = target" if "(start, target) \<in> (edge_rel es)\<^sup>*"
      using that S by (cases rule: rtranclE) auto
    then show ?thesis using Some by (auto simp: graphReachable_def simp del: bfs_loop.simps)
  qed
qed

lemma unreachable_ids_set:
  "set (unreachable_ids start vs adj) = {v \<in> set vs. (start, v) \<notin> (adj_rel adj)\<^sup>*}"
  using bfs_loop_start[where hit = "\<lambda>_. False" and adj = adj and start = start]
  by (auto simp: unreachable_ids_def sort_keys_def simp del: bfs_loop.simps split: option.splits)

text \<open>Reachability through nodes other than \<open>stop\<close>.\<close>

definition avoiding :: "string \<Rightarrow> (string \<times> string) set \<Rightarrow> (string \<times> string) set" where
  "avoiding stop r = {(u, v) \<in> r. u \<noteq> stop \<and> v \<noteq> stop}"

definition before_inv :: "string \<Rightarrow> adj_table \<Rightarrow> string list \<Rightarrow> string list \<Rightarrow> bool" where
  "before_inv stop adj seen queue =
     (stop \<notin> set seen \<and>
      (\<forall>u \<in> set seen. \<forall>v. (u, v) \<in> adj_rel adj \<longrightarrow> v \<noteq> stop \<longrightarrow> v \<in> set seen \<union> set queue))"

lemma before_loop_result:
  assumes "before_inv stop adj seen queue"
  shows "set (before_loop stop adj seen queue)
    = (avoiding stop (adj_rel adj))\<^sup>* `` (set seen \<union> (set queue - {stop}))"
  using assms
proof (induction stop adj seen queue rule: before_loop.induct)
  case (1 stop adj seen)
  then have "avoiding stop (adj_rel adj) `` set seen \<subseteq> set seen"
    by (auto simp: before_inv_def avoiding_def)
  then have "(avoiding stop (adj_rel adj))\<^sup>* `` set seen = set seen" by (rule Image_closed_trancl)
  then show ?case by simp
next
  case (2 stop adj seen c queue)
  show ?case
  proof (cases "c = stop \<or> c \<in> set seen")
    case True
    have inv: "before_inv stop adj seen queue"
      unfolding before_inv_def
    proof (intro conjI ballI allI impI)
      fix u v
      assume "u \<in> set seen" "(u, v) \<in> adj_rel adj" "v \<noteq> stop"
      then have "v \<in> set seen \<union> set (c # queue)" "v \<noteq> stop"
        using "2.prems" unfolding before_inv_def by blast+
      then show "v \<in> set seen \<union> set queue" using True by auto
    qed (use "2.prems" in \<open>simp add: before_inv_def\<close>)
    have "set seen \<union> (set queue - {stop}) = set seen \<union> (set (c # queue) - {stop})" using True by auto
    then show ?thesis using "2.IH"(1)[OF True inv] True by simp
  next
    case False
    let ?q = "queue @ filter (\<lambda>v. v \<notin> set (c # seen)) (adj_of adj c)"
    have inv: "before_inv stop adj (c # seen) ?q"
      unfolding before_inv_def
    proof (intro conjI ballI allI impI)
      show "stop \<notin> set (c # seen)" using False "2.prems" by (auto simp: before_inv_def)
    next
      fix u v
      assume u: "u \<in> set (c # seen)" and uv: "(u, v) \<in> adj_rel adj" and v: "v \<noteq> stop"
      show "v \<in> set (c # seen) \<union> set ?q"
      proof (cases "u = c")
        case True
        then show ?thesis using uv by (auto simp: adj_relD)
      next
        case False
        then have "v \<in> set seen \<union> set (c # queue)"
          using u uv v "2.prems" by (auto simp: before_inv_def)
        then show ?thesis by auto
      qed
    qed
    let ?R = "(avoiding stop (adj_rel adj))\<^sup>*"
    have "?R `` (set (c # seen) \<union> (set ?q - {stop})) = ?R `` (set seen \<union> (set (c # queue) - {stop}))"
    proof (intro equalityI subsetI)
      fix w
      assume "w \<in> ?R `` (set (c # seen) \<union> (set ?q - {stop}))"
      then obtain u where u: "u \<in> set (c # seen) \<union> (set ?q - {stop})" "(u, w) \<in> ?R" by blast
      show "w \<in> ?R `` (set seen \<union> (set (c # queue) - {stop}))"
      proof (cases "u \<in> set seen \<union> (set (c # queue) - {stop})")
        case True
        then show ?thesis using u(2) by blast
      next
        case False
        then have "(c, u) \<in> avoiding stop (adj_rel adj)"
          using u(1) \<open>\<not> (c = stop \<or> c \<in> set seen)\<close> by (auto simp: avoiding_def adj_relD)
        then have "(c, w) \<in> ?R" using u(2) by (rule converse_rtrancl_into_rtrancl)
        then show ?thesis using \<open>\<not> (c = stop \<or> c \<in> set seen)\<close> by auto
      qed
    qed auto
    then show ?thesis using "2.IH"(2)[OF False inv] False by simp
  qed
qed

lemma graphReachableBefore_set:
  "set (graphReachableBefore start stop es)
    = (if start = stop then {} else (avoiding stop (edge_rel es))\<^sup>* `` {start})"
  unfolding graphReachableBefore_def
  by (subst before_loop_result) (auto simp: before_inv_def)

section \<open>What the depth-first search finds\<close>

text \<open>A closed walk: consecutive nodes are joined by edges and the last node is the first.\<close>

definition closed_walk :: "(string \<times> string) set \<Rightarrow> string list \<Rightarrow> bool" where
  "closed_walk r c = (2 \<le> length c \<and> hd c = last c \<and> successively (\<lambda>u v. (u, v) \<in> r) c)"

lemma closed_walk_cyclic:
  assumes "closed_walk r c"
  shows "\<not> acyclic r"
proof -
  have path: "(x, last (x # xs)) \<in> r\<^sup>+" if "successively (\<lambda>u v. (u, v) \<in> r) (x # xs)" "xs \<noteq> []" for x xs
    using that
  proof (induction xs arbitrary: x)
    case (Cons y ys)
    then show ?case by (cases ys) (auto intro: trancl_into_trancl2)
  qed simp
  obtain x y ys where "c = x # y # ys" using assms
    by (cases c rule: remdups_adj.cases) (auto simp: closed_walk_def)
  then obtain xs where c: "c = x # xs" "xs \<noteq> []" by blast
  then have "(x, x) \<in> r\<^sup>+" using path[of x xs] assms by (auto simp: closed_walk_def)
  then show ?thesis by (auto simp: acyclic_def)
qed

text \<open>
  The invariant of the search. The frames are the grey nodes, the stack and its index describe
  them, every successor a frame has passed is black or is the next frame, and the black nodes
  are closed under successors and carry no cycle.
\<close>

fun frames_ok :: "adj_table \<Rightarrow> (string \<Rightarrow> nat) \<Rightarrow> string set \<Rightarrow> (string \<times> string list) list \<Rightarrow> bool" where
  "frames_ok adj st up [] = True"
| "frames_ok adj st up ((n, rest) # fs) =
     (set rest \<subseteq> set (adj_of adj n) \<and> up \<subseteq> set (adj_of adj n)
      \<and> (\<forall>v \<in> set (adj_of adj n). v \<in> set rest \<or> v \<in> up \<or> st v = 2)
      \<and> frames_ok adj st {n} fs)"

definition black :: "dfs_state \<Rightarrow> string set" where
  "black s = {v. df_state s v = 2}"

definition dfs_inv :: "adj_table \<Rightarrow> dfs_state \<Rightarrow> bool" where
  "dfs_inv adj s =
     (df_stack s = rev (map fst (df_frames s)) \<and> distinct (df_stack s)
      \<and> (\<forall>v. df_state s v = 1 \<longleftrightarrow> v \<in> set (df_stack s)) \<and> (\<forall>v. df_state s v \<le> 2)
      \<and> (\<forall>i < length (df_stack s). df_stackIndex s (df_stack s ! i) = i)
      \<and> frames_ok adj (df_state s) {} (df_frames s)
      \<and> adj_rel adj `` black s \<subseteq> black s \<and> acyclic (adj_rel adj \<inter> black s \<times> black s))"

lemma dfs_invD:
  assumes "dfs_inv adj s"
  shows "df_stack s = rev (map fst (df_frames s))" "distinct (df_stack s)"
    "\<forall>v. df_state s v = 1 \<longleftrightarrow> v \<in> set (df_stack s)" "\<forall>v. df_state s v \<le> 2"
    "\<forall>i < length (df_stack s). df_stackIndex s (df_stack s ! i) = i"
    "frames_ok adj (df_state s) {} (df_frames s)"
    "adj_rel adj `` black s \<subseteq> black s" "acyclic (adj_rel adj \<inter> black s \<times> black s)"
  using assms unfolding dfs_inv_def by blast+

lemma frames_ok_mono:
  assumes "frames_ok adj st up fs" "\<And>v. st v = 2 \<Longrightarrow> st' v = 2"
  shows "frames_ok adj st' up fs"
  using assms(1)
proof (induction fs arbitrary: up)
  case (Cons f fs)
  then show ?case using assms(2) by (cases f) auto
qed simp

lemma frames_ok_walk:
  assumes "frames_ok adj st up fs"
  shows "successively (\<lambda>u v. (u, v) \<in> adj_rel adj) (rev (map fst fs))
    \<and> (fs \<noteq> [] \<longrightarrow> (\<forall>v \<in> up. (fst (hd fs), v) \<in> adj_rel adj))"
  using assms
proof (induction fs arbitrary: up)
  case (Cons f fs)
  obtain n rest where f: "f = (n, rest)" by (cases f)
  have "successively (\<lambda>u v. (u, v) \<in> adj_rel adj) (rev (map fst fs))"
    "fs \<noteq> [] \<Longrightarrow> (fst (hd fs), n) \<in> adj_rel adj"
    using Cons.IH[of "{n}"] Cons.prems f by auto
  moreover have "last (rev (map fst fs)) = fst (hd fs)" if "fs \<noteq> []"
    using that by (simp add: last_rev hd_map)
  ultimately show ?case
    using Cons.prems f by (cases "fs = []") (auto simp: successively_append_iff adj_relD)
qed simp

lemma frames_ok_black:
  assumes "frames_ok adj st {n} fs" "\<And>v. st v = 2 \<Longrightarrow> st' v = 2" "st' n = 2"
  shows "frames_ok adj st' {} fs"
proof (cases fs)
  case (Cons f gs)
  then show ?thesis
    using assms frames_ok_mono[of adj st "{fst f}" gs st'] by (cases f) auto
qed simp

lemma enter_fields:
  "df_frames (dfs_enter adj v s) = (v, adj_of adj v) # df_frames s"
  "df_state (dfs_enter adj v s) = (df_state s)(v := 1)"
  "df_stack (dfs_enter adj v s) = df_stack s @ [v]"
  "df_stackIndex (dfs_enter adj v s) = (df_stackIndex s)(v := length (df_stack s))"
  by (simp_all add: dfs_enter_def)

lemma leave_fields:
  "df_frames (dfs_leave n s) = tl (df_frames s)"
  "df_state (dfs_leave n s) = (df_state s)(n := 2)"
  "df_stack (dfs_leave n s) = butlast (df_stack s)"
  "df_stackIndex (dfs_leave n s) = (df_stackIndex s)(n := 0)"
  by (simp_all add: dfs_leave_def)

lemma advance_fields:
  "df_frames (dfs_advance n rest s) = (n, rest) # tl (df_frames s)"
  "df_state (dfs_advance n rest s) = df_state s"
  "df_stack (dfs_advance n rest s) = df_stack s"
  "df_stackIndex (dfs_advance n rest s) = df_stackIndex s"
  by (simp_all add: dfs_advance_def)

lemmas dfs_fields = enter_fields leave_fields advance_fields

text \<open>Entering \<open>v\<close>, the frames below already prepared for it.\<close>

lemma dfs_inv_enter':
  assumes base: "df_stack s = rev (map fst (df_frames s))" "distinct (df_stack s)"
      "\<forall>w. df_state s w = 1 \<longleftrightarrow> w \<in> set (df_stack s)" "\<forall>w. df_state s w \<le> 2"
      "\<forall>i < length (df_stack s). df_stackIndex s (df_stack s ! i) = i"
      "adj_rel adj `` black s \<subseteq> black s" "acyclic (adj_rel adj \<inter> black s \<times> black s)"
    and white: "df_state s v = 0" and frames: "frames_ok adj (df_state s) {v} (df_frames s)"
  shows "dfs_inv adj (dfs_enter adj v s)"
proof -
  have black: "black (dfs_enter adj v s) = black s" using white by (auto simp: black_def dfs_fields)
  have fresh: "v \<notin> set (df_stack s)" using base(3) white by force
  have "frames_ok adj ((df_state s)(v := 1)) {v} (df_frames s)"
    by (rule frames_ok_mono[OF frames]) (use white in auto)
  then have "frames_ok adj (df_state (dfs_enter adj v s)) {} (df_frames (dfs_enter adj v s))"
    by (simp add: dfs_fields)
  moreover have "\<forall>i < length (df_stack (dfs_enter adj v s)).
      df_stackIndex (dfs_enter adj v s) (df_stack (dfs_enter adj v s) ! i) = i"
    using base(5) fresh by (auto simp: dfs_fields nth_append less_Suc_eq) 
  ultimately show ?thesis
    using base fresh black unfolding dfs_inv_def by (auto simp: dfs_fields)
qed

lemma acyclic_insert_source:
  assumes "r `` B \<subseteq> B" "acyclic (r \<inter> B \<times> B)" "n \<notin> B" "r `` {n} \<subseteq> B"
  shows "acyclic (r \<inter> insert n B \<times> insert n B)"
  unfolding acyclic_def
proof (intro allI notI)
  fix x
  let ?r = "r \<inter> insert n B \<times> insert n B"
  assume cyc: "(x, x) \<in> ?r\<^sup>+"
  then obtain y where "(y, x) \<in> ?r" by (auto elim: tranclE)
  then have xB: "x \<in> B" using assms(1,4) by auto
  have stay: "(x, z) \<in> (r \<inter> B \<times> B)\<^sup>+ \<and> z \<in> B" if "(x, z) \<in> ?r\<^sup>+" for z
    using that
  proof (induction rule: trancl_induct)
    case (base y)
    then show ?case using xB assms(1) by auto
  next
    case (step y z)
    then have "(y, z) \<in> r \<inter> B \<times> B" using assms(1) by auto
    then show ?case using step.IH by (auto intro: trancl_into_trancl)
  qed
  then show False using cyc assms(2) by (auto simp: acyclic_def)
qed

lemma dfs_inv_leave:
  assumes inv: "dfs_inv adj s" and top: "df_frames s = (n, []) # fs"
  shows "dfs_inv adj (dfs_leave n s)"
proof -
  have n: "df_state s n = 1" "n \<notin> set (rev (map fst fs))"
    using dfs_invD(1-3)[OF inv] top by auto
  have succ: "set (adj_of adj n) \<subseteq> black s" using inv top by (auto simp: dfs_inv_def black_def)
  have black: "black (dfs_leave n s) = insert n (black s)" by (auto simp: black_def dfs_fields)
  have "acyclic (adj_rel adj \<inter> insert n (black s) \<times> insert n (black s))"
  proof (rule acyclic_insert_source[OF dfs_invD(7,8)[OF inv]])
    show "n \<notin> black s" using n(1) by (simp add: black_def)
    show "adj_rel adj `` {n} \<subseteq> black s" using succ by (auto simp: adj_rel_def)
  qed
  moreover have "frames_ok adj (df_state (dfs_leave n s)) {} fs"
    using inv top by (auto simp: dfs_inv_def dfs_fields intro: frames_ok_black)
  moreover have "\<forall>i < length (rev (map fst fs)).
      df_stackIndex (dfs_leave n s) (rev (map fst fs) ! i) = i"
  proof (intro allI impI)
    fix i
    assume i: "i < length (rev (map fst fs))"
    then have "rev (map fst fs) ! i \<noteq> n" using n(2) nth_mem by metis
    moreover have "df_stack s ! i = rev (map fst fs) ! i"
      using dfs_invD(1)[OF inv] top i by (simp add: nth_append)
    moreover have "df_stackIndex s (df_stack s ! i) = i"
      using dfs_invD(1,5)[OF inv] top i by simp
    ultimately show "df_stackIndex (dfs_leave n s) (rev (map fst fs) ! i) = i"
      by (simp add: dfs_fields)
  qed
  moreover have "adj_rel adj `` insert n (black s) \<subseteq> insert n (black s)"
    using inv succ by (auto simp: dfs_inv_def adj_rel_def)
  ultimately show ?thesis
    using inv top n unfolding dfs_inv_def black by (auto simp: dfs_fields)
qed

lemma dfs_inv_push:
  assumes inv: "dfs_inv adj s" and top: "df_frames s = (n, v # rest) # fs" and "df_state s v = 0"
  shows "dfs_inv adj (dfs_enter adj v (dfs_advance n rest s))"
proof (rule dfs_inv_enter')
  show "frames_ok adj (df_state (dfs_advance n rest s)) {v} (df_frames (dfs_advance n rest s))"
    using inv top by (auto simp: dfs_inv_def dfs_fields)
  have "black (dfs_advance n rest s) = black s" by (simp add: black_def dfs_fields)
  then show "adj_rel adj `` black (dfs_advance n rest s) \<subseteq> black (dfs_advance n rest s)"
    "acyclic (adj_rel adj \<inter> black (dfs_advance n rest s) \<times> black (dfs_advance n rest s))"
    using inv by (simp_all add: dfs_inv_def)
qed (use dfs_invD[OF inv] top assms(3) in \<open>simp_all add: dfs_fields\<close>)

lemma dfs_inv_advance:
  assumes inv: "dfs_inv adj s" and top: "df_frames s = (n, v # rest) # fs" and "df_state s v = 2"
  shows "dfs_inv adj (dfs_advance n rest s)"
proof -
  have "black (dfs_advance n rest s) = black s" by (simp add: black_def dfs_fields)
  moreover have "frames_ok adj (df_state s) {} ((n, rest) # fs)"
    using inv top assms(3) by (auto simp: dfs_inv_def)
  ultimately show ?thesis
    unfolding dfs_inv_def using dfs_invD[OF inv] top by (simp add: dfs_fields)
qed

lemma dfs_cycle_found:
  assumes inv: "dfs_inv adj s" and top: "df_frames s = (n, v # rest) # fs" and "df_state s v = 1"
  shows "closed_walk (adj_rel adj) (drop (df_stackIndex s v) (df_stack s) @ [v])"
proof -
  let ?k = "df_stack s"
  have "v \<in> set ?k" using inv assms(3) by (simp add: dfs_inv_def)
  then obtain i where i: "i < length ?k" "?k ! i = v" by (auto simp: in_set_conv_nth)
  then have idx: "df_stackIndex s v = i" using inv by (auto simp: dfs_inv_def)
  have walk: "successively (\<lambda>u w. (u, w) \<in> adj_rel adj) ?k"
    using frames_ok_walk inv by (auto simp: dfs_inv_def)
  have "successively (\<lambda>u w. (u, w) \<in> adj_rel adj) (take i ?k @ drop i ?k)" using walk by simp
  then have suffix: "successively (\<lambda>u w. (u, w) \<in> adj_rel adj) (drop i ?k)"
    unfolding successively_append_iff by blast
  have "last ?k = n" "(n, v) \<in> adj_rel adj" using inv top by (auto simp: dfs_inv_def adj_relD)
  then have "(last (drop i ?k), v) \<in> adj_rel adj" using i by simp
  with suffix have "successively (\<lambda>u w. (u, w) \<in> adj_rel adj) (drop i ?k @ [v])"
    by (simp add: successively_append_iff)
  then show ?thesis using i idx by (auto simp: closed_walk_def hd_drop_conv_nth)
qed

lemma dfs_run_result:
  assumes "dfs_inv adj s"
  shows "case dfs_run adj s of
      Inl c \<Rightarrow> closed_walk (adj_rel adj) c
    | Inr t \<Rightarrow> dfs_inv adj t \<and> df_frames t = [] \<and> black s \<union> set (df_stack s) \<subseteq> black t"
  using assms
proof (induction adj s rule: dfs_run.induct)
  case (1 adj s)
  note inv = "1.prems"
  show ?case
  proof (cases "df_frames s")
    case Nil
    then show ?thesis using inv by (subst dfs_run.simps) (simp add: dfs_inv_def)
  next
    case (Cons f fs)
    obtain n r where f: "f = (n, r)" by (cases f)
    show ?thesis
    proof (cases r)
      case Nil
      have top: "df_frames s = (n, []) # fs" using Cons f Nil by simp
      have "black s \<union> set (df_stack s) \<subseteq> black (dfs_leave n s) \<union> set (df_stack (dfs_leave n s))"
        using inv top by (auto simp: black_def dfs_fields dfs_inv_def)
      then show ?thesis
        using "1.IH"(1)[OF Cons f[symmetric] Nil dfs_inv_leave[OF inv top]] top
        by (subst dfs_run.simps) (auto split: sum.splits)
    next
      case r: (Cons v rest)
      have top: "df_frames s = (n, v # rest) # fs" using Cons f r by simp
      have le: "df_state s v \<le> 2" using inv by (simp add: dfs_inv_def)
      consider "df_state s v = 0" | "df_state s v = 1" | "df_state s v = 2" using le by linarith
      then show ?thesis
      proof cases
        case 1
        let ?t = "dfs_enter adj v (dfs_advance n rest s)"
        have "black s \<union> set (df_stack s) \<subseteq> black ?t \<union> set (df_stack ?t)"
          using 1 by (auto simp: black_def dfs_fields)
        then show ?thesis
          using "1.IH"(2)[OF Cons f[symmetric] r 1 dfs_inv_push[OF inv top 1]] top 1
          by (subst dfs_run.simps) (auto split: sum.splits)
      next
        case 2
        then show ?thesis
          using dfs_cycle_found[OF inv top 2] top by (subst dfs_run.simps) simp
      next
        case 3
        let ?t = "dfs_advance n rest s"
        have "black ?t = black s" "df_stack ?t = df_stack s" by (simp_all add: black_def dfs_fields)
        then show ?thesis
          using "1.IH"(3)[OF Cons f[symmetric] r _ _ dfs_inv_advance[OF inv top 3]] top 3
          by (subst dfs_run.simps) (simp split: sum.splits)
      qed
    qed
  qed
qed

lemma dfs_roots_result:
  assumes "dfs_inv adj s" "df_frames s = []"
  shows "(dfs_roots adj ns s = [] \<and> (\<exists>t. dfs_inv adj t \<and> black s \<union> set ns \<subseteq> black t))
    \<or> closed_walk (adj_rel adj) (dfs_roots adj ns s)"
  using assms
proof (induction ns arbitrary: s)
  case Nil
  then show ?case by auto
next
  case (Cons n ns)
  note D = dfs_invD[OF Cons.prems(1)]
  show ?case
  proof (cases "df_state s n = 0")
    case False
    have "df_state s n \<noteq> 1" using D(1,3) Cons.prems(2) by simp
    then have "n \<in> black s" using False D(4)[rule_format, of n] by (simp add: black_def)
    then show ?thesis using Cons.IH[OF Cons.prems] False by auto
  next
    case True
    have inv: "dfs_inv adj (dfs_enter adj n s)"
      by (rule dfs_inv_enter') (use D Cons.prems(2) True in simp_all)
    have mono: "black s \<union> {n} \<subseteq> black (dfs_enter adj n s) \<union> set (df_stack (dfs_enter adj n s))"
      using True by (auto simp: black_def dfs_fields)
    show ?thesis
    proof (cases "dfs_run adj (dfs_enter adj n s)")
      case (Inl c)
      then show ?thesis using dfs_run_result[OF inv] True by simp
    next
      case (Inr t)
      then have t: "dfs_inv adj t" "df_frames t = []" "black s \<union> {n} \<subseteq> black t"
        using dfs_run_result[OF inv] mono by auto
      show ?thesis using Cons.IH[OF t(1,2)] t(3) Inr True by auto
    qed
  qed
qed

lemma findCycle_result:
  "(findCycle ns adj = [] \<and> (\<exists>t. dfs_inv adj t \<and> set (ids ns) \<subseteq> black t))
    \<or> closed_walk (adj_rel adj) (findCycle ns adj)"
proof -
  have "dfs_inv adj dfs_init" "df_frames dfs_init = []"
    by (auto simp: dfs_inv_def dfs_init_def black_def acyclic_def)
  then show ?thesis
    using dfs_roots_result[of adj dfs_init "sort_keys (ids ns)"]
    by (auto simp: findCycle_def sort_keys_def)
qed

lemma closed_walk_nonempty: "closed_walk r c \<Longrightarrow> c \<noteq> []"
  by (auto simp: closed_walk_def)

section \<open>Properties\<close>

text \<open>
  C14. \<^verbatim>\<open>findCycle\<close> decides acyclicity and gives evidence: when every edge joins authored nodes, it
  returns nothing exactly on acyclic graphs, and whatever it returns is a closed walk along edges,
  with its first node repeated at the end.
\<close>

theorem findCycle_correct:
  assumes "adj_rel adj \<subseteq> set (ids ns) \<times> set (ids ns)"
  shows "(findCycle ns adj = [] \<longleftrightarrow> acyclic (adj_rel adj))
    \<and> (findCycle ns adj \<noteq> [] \<longrightarrow> closed_walk (adj_rel adj) (findCycle ns adj))"
proof (cases "findCycle ns adj = []")
  case True
  then obtain t where t: "dfs_inv adj t" "set (ids ns) \<subseteq> black t"
    using findCycle_result[of ns adj] closed_walk_nonempty by blast
  then have "adj_rel adj \<inter> black t \<times> black t = adj_rel adj" using assms by auto
  then show ?thesis using True dfs_invD(8)[OF t(1)] by simp
next
  case False
  then have "closed_walk (adj_rel adj) (findCycle ns adj)" using findCycle_result by blast
  then show ?thesis using False closed_walk_cyclic by blast
qed

theorem findCycle_correct_witness:
  "findCycle [zero_node\<lparr>node_id := ''a''\<rparr>, zero_node\<lparr>node_id := ''b''\<rparr>] [(''a'', [''b'']), (''b'', [''a''])]
     = [''a'', ''b'', ''a'']
   \<and> closed_walk (adj_rel [(''a'', [''b'']), (''b'', [''a''])]) [''a'', ''b'', ''a'']"
proof -
  let ?ns = "[zero_node\<lparr>node_id := ''a''\<rparr>, zero_node\<lparr>node_id := ''b''\<rparr>]"
    and ?adj = "[(''a'', [''b'']), (''b'', [''a''])]"
  have eval: "findCycle ?ns ?adj = [''a'', ''b'', ''a'']"
    by (simp add: findCycle_def ids_def utf16_eval dfs_init_def dfs_run.simps dfs_enter_def
        dfs_advance_def dfs_leave_def adj_of_def)
  have "adj_rel ?adj \<subseteq> set (ids ?ns) \<times> set (ids ?ns)"
    by (auto simp: adj_rel_def adj_of_def ids_def split: if_splits)
  from findCycle_correct[OF this] eval show ?thesis by simp
qed

text \<open>
  C15. \<^verbatim>\<open>unreachableDiagnostics\<close> names exactly the authored nodes that no path from the start node
  reaches.
\<close>

theorem unreachableDiagnostics_exact:
  assumes "graph_start g \<in> set (ids (graph_nodes g))"
  shows "diag_ref ` set (unreachableDiagnostics g adj)
    = {v \<in> set (ids (graph_nodes g)). (graph_start g, v) \<notin> (adj_rel adj)\<^sup>*}"
  using assms node_by_id_None[of "graph_nodes g" "graph_start g"]
  by (auto simp: unreachableDiagnostics_def unreachable_ids_set Diag_def image_iff)

theorem unreachableDiagnostics_exact_witness:
  "diag_ref ` set (unreachableDiagnostics
      \<lparr>graph_irVersion = ''1'', graph_start = ''s'', graph_end = ''e'',
        graph_nodes = [zero_node\<lparr>node_id := ''s''\<rparr>, zero_node\<lparr>node_id := ''x''\<rparr>],
        graph_edges = [], graph_exitHook = None\<rparr> []) = {''x''}"
proof -
  have rel: "adj_rel [] = {}" by (simp add: adj_rel_def adj_of_def)
  show ?thesis
    by (subst unreachableDiagnostics_exact) (auto simp: ids_def rel zero_node_def)
qed

text \<open>
  The searches decide reachability: \<^verbatim>\<open>graphReachable\<close> holds exactly when a path of edges joins
  its arguments, and \<^verbatim>\<open>graphReachableBefore\<close> returns exactly the nodes joined to \<^verbatim>\<open>start\<close> by a path
  that never touches \<^verbatim>\<open>stop\<close>.
\<close>

theorem graphReachable_correct:
  "(graphReachable start target es \<longleftrightarrow> (start, target) \<in> (edge_rel es)\<^sup>*)
   \<and> set (graphReachableBefore start stop es)
      = (if start = stop then {} else (avoiding stop (edge_rel es))\<^sup>* `` {start})"
  using graphReachable_rtrancl graphReachableBefore_set by simp

end
