(* ===== verification/Journal.thy ===== *)
theory Journal
  imports Prelude
begin

text \<open>
  The run journal: the records of \<^verbatim>\<open>internal/runjournal/manifest.go\<close>, the consistency rules its
  reader enforces (\<^verbatim>\<open>read.go\<close>), the updates the orchestrator makes to it, and \<^verbatim>\<open>Terminate\<close>. The
  updates are shown to keep every rule along the protocol the executor follows, so a journal the
  program writes is one it can read.
\<close>

section \<open>Records\<close>

definition StatusPending :: string where "StatusPending = ''pending''"
definition StatusRunning :: string where "StatusRunning = ''running''"
definition StatusSucceeded :: string where "StatusSucceeded = ''succeeded''"
definition StatusFailed :: string where "StatusFailed = ''failed''"
definition StatusCancelled :: string where "StatusCancelled = ''cancelled''"
definition StatusSkipped :: string where "StatusSkipped = ''skipped''"
definition StatusNotStarted :: string where "StatusNotStarted = ''not-started''"

lemmas status_defs = StatusPending_def StatusRunning_def StatusSucceeded_def StatusFailed_def
  StatusCancelled_def StatusSkipped_def StatusNotStarted_def

lemma status_distinct [simp]:
  "StatusPending \<noteq> StatusRunning" "StatusPending \<noteq> StatusSucceeded" "StatusPending \<noteq> StatusFailed"
  "StatusPending \<noteq> StatusCancelled" "StatusPending \<noteq> StatusSkipped" "StatusPending \<noteq> StatusNotStarted"
  "StatusRunning \<noteq> StatusPending" "StatusRunning \<noteq> StatusSucceeded" "StatusRunning \<noteq> StatusFailed"
  "StatusRunning \<noteq> StatusCancelled" "StatusRunning \<noteq> StatusSkipped" "StatusRunning \<noteq> StatusNotStarted"
  "StatusSucceeded \<noteq> StatusPending" "StatusSucceeded \<noteq> StatusRunning" "StatusSucceeded \<noteq> StatusFailed"
  "StatusSucceeded \<noteq> StatusCancelled" "StatusSucceeded \<noteq> StatusSkipped" "StatusSucceeded \<noteq> StatusNotStarted"
  "StatusFailed \<noteq> StatusPending" "StatusFailed \<noteq> StatusRunning" "StatusFailed \<noteq> StatusSucceeded"
  "StatusFailed \<noteq> StatusCancelled" "StatusFailed \<noteq> StatusSkipped" "StatusFailed \<noteq> StatusNotStarted"
  "StatusCancelled \<noteq> StatusPending" "StatusCancelled \<noteq> StatusRunning" "StatusCancelled \<noteq> StatusSucceeded"
  "StatusCancelled \<noteq> StatusFailed" "StatusCancelled \<noteq> StatusSkipped" "StatusCancelled \<noteq> StatusNotStarted"
  "StatusSkipped \<noteq> StatusPending" "StatusSkipped \<noteq> StatusRunning" "StatusSkipped \<noteq> StatusSucceeded"
  "StatusSkipped \<noteq> StatusFailed" "StatusSkipped \<noteq> StatusCancelled" "StatusSkipped \<noteq> StatusNotStarted"
  "StatusNotStarted \<noteq> StatusPending" "StatusNotStarted \<noteq> StatusRunning" "StatusNotStarted \<noteq> StatusSucceeded"
  "StatusNotStarted \<noteq> StatusFailed" "StatusNotStarted \<noteq> StatusCancelled" "StatusNotStarted \<noteq> StatusSkipped"
  by (simp_all add: status_defs)

record ArtifactRef =
  ref_key :: string
  ref_hash :: string
  ref_size :: int
  ref_contentType :: string

record DataArtifact =
  da_key :: string
  da_hash :: string
  da_contentType :: string
  da_schema :: string

record PublishedArtifact =
  pub_manifest :: ArtifactRef
  pub_body :: ArtifactRef
  pub_schema :: string

record Attempt =
  at_attempt :: int
  at_status :: string
  at_input :: DataArtifact
  at_output :: "PublishedArtifact option"
  at_diagnostic :: string

record SkipReason =
  sr_kind :: string
  sr_decision :: string
  sr_case :: string

record MapItem =
  it_index :: int
  it_status :: string
  it_attempts :: "Attempt list"
  it_diagnostic :: string

record Step =
  st_node :: string
  st_status :: string
  st_attempts :: "Attempt list"
  st_items :: "MapItem list option"
  st_itemFailures :: string
  st_skipReason :: "SkipReason option"

record Decision =
  de_node :: string
  de_status :: string
  de_case :: string
  de_diagnostic :: string
  de_skipReason :: "SkipReason option"

record FatalFailure =
  ff_message :: string
  ff_type :: string
  ff_node :: string

record Environment =
  env_requirement :: string
  env_realization :: string
  env_record :: ArtifactRef

record Manifest =
  mf_kind :: string
  mf_schemaVersion :: nat
  mf_encoding :: string
  mf_planHash :: string
  mf_projectKey :: string
  mf_runID :: string
  mf_status :: string
  mf_diagnostic :: string
  mf_failure :: "FatalFailure option"
  mf_environment :: "Environment option"
  mf_steps :: "Step list"
  mf_decisions :: "Decision list"
  mf_result :: "DataArtifact option"
  mf_exitHook :: "Step option"

section \<open>The reader's rules\<close>

datatype attempts_error = AttemptsNotDense | RetriedWithoutFailing int | LastStatusDiffers

fun check_dense :: "int \<Rightarrow> Attempt list \<Rightarrow> attempts_error option" where
  "check_dense i [] = None"
| "check_dense i (a # as) =
     (if at_attempt a \<noteq> i + 1 then Some AttemptsNotDense
      else if as \<noteq> [] \<and> at_status a \<noteq> StatusFailed then Some (RetriedWithoutFailing (at_attempt a))
      else check_dense (i + 1) as)"

definition validateAttempts :: "Attempt list \<Rightarrow> string \<Rightarrow> attempts_error option" where
  "validateAttempts as status =
     (case check_dense 0 as of
        Some e \<Rightarrow> Some e
      | None \<Rightarrow>
          if as = [] then None
          else (let l = at_status (last as) in
                if l \<noteq> status \<and> (l \<noteq> StatusFailed \<or> (status \<noteq> StatusRunning \<and> status \<noteq> StatusCancelled))
                then Some LastStatusDiffers else None))"

datatype journal_error =
    FatalCauseUnnamed
  | UnfinishedStep string
  | UnsuccessfulStep string
  | StepAttempts string attempts_error
  | InactiveMapItems string
  | ItemIndexes string
  | ItemAttempts string int attempts_error
  | NotStartedItems string
  | UnsuccessfulItems string
  | UnfinishedItems string
  | HookAttempts string attempts_error

definition fatal_named :: "FatalFailure \<Rightarrow> Step \<Rightarrow> bool" where
  "fatal_named f s =
     (st_node s = ff_node f \<and> st_status s = StatusFailed \<and> st_attempts s \<noteq> []
      \<and> (case st_items s of
           None \<Rightarrow> True
         | Some items \<Rightarrow> \<exists>it \<in> set items. it_status it = StatusFailed \<and> it_attempts it \<noteq> []))"

definition check_item :: "Step \<Rightarrow> int \<Rightarrow> MapItem \<Rightarrow> journal_error option" where
  "check_item s index item =
     (if it_index item \<noteq> index then Some (ItemIndexes (st_node s))
      else case validateAttempts (it_attempts item) (it_status item) of
        Some e \<Rightarrow> Some (ItemAttempts (st_node s) index e)
      | None \<Rightarrow>
          if it_status item = StatusNotStarted \<and> st_status s \<noteq> StatusFailed \<and> st_status s \<noteq> StatusCancelled
          then Some (NotStartedItems (st_node s))
          else if st_status s = StatusSucceeded \<and> it_status item \<noteq> StatusSucceeded
            \<and> (st_itemFailures s = [] \<or> it_status item \<noteq> StatusFailed)
          then Some (UnsuccessfulItems (st_node s))
          else if (st_status s = StatusFailed \<or> st_status s = StatusCancelled)
            \<and> (it_status item = StatusPending \<or> it_status item = StatusRunning)
          then Some (UnfinishedItems (st_node s))
          else None)"

fun check_items :: "Step \<Rightarrow> int \<Rightarrow> MapItem list \<Rightarrow> journal_error option" where
  "check_items s i [] = None"
| "check_items s i (it # its) =
     (case check_item s i it of Some e \<Rightarrow> Some e | None \<Rightarrow> check_items s (i + 1) its)"

definition check_step :: "string \<Rightarrow> Step \<Rightarrow> journal_error option" where
  "check_step run_status s =
     (if run_status \<noteq> StatusRunning \<and> (st_status s = StatusPending \<or> st_status s = StatusRunning)
      then Some (UnfinishedStep (st_node s))
      else if run_status = StatusSucceeded \<and> st_status s \<noteq> StatusSucceeded \<and> st_status s \<noteq> StatusSkipped
      then Some (UnsuccessfulStep (st_node s))
      else case validateAttempts (st_attempts s) (st_status s) of
        Some e \<Rightarrow> Some (StepAttempts (st_node s) e)
      | None \<Rightarrow>
        (case st_items s of
           None \<Rightarrow> None
         | Some items \<Rightarrow>
             if st_status s \<in> {StatusPending, StatusSkipped, StatusNotStarted} \<and> items \<noteq> []
             then Some (InactiveMapItems (st_node s))
             else check_items s 0 items))"

fun check_steps :: "string \<Rightarrow> Step list \<Rightarrow> journal_error option" where
  "check_steps run_status [] = None"
| "check_steps run_status (s # ss) =
     (case check_step run_status s of Some e \<Rightarrow> Some e | None \<Rightarrow> check_steps run_status ss)"

text \<open>The checks \<^verbatim>\<open>Parse\<close> makes after schema validation and decoding.\<close>

definition check_manifest :: "Manifest \<Rightarrow> journal_error option" where
  "check_manifest m =
     (if (\<exists>f. mf_failure m = Some f \<and> \<not> list_ex (fatal_named f) (mf_steps m)) then Some FatalCauseUnnamed
      else case check_steps (mf_status m) (mf_steps m) of
        Some e \<Rightarrow> Some e
      | None \<Rightarrow>
        (case mf_exitHook m of
           None \<Rightarrow> None
         | Some hook \<Rightarrow>
             map_option (HookAttempts (st_node hook)) (validateAttempts (st_attempts hook) (st_status hook))))"

section \<open>Updates\<close>

text \<open>
  A Go pointer into the journal is an update of the first matching element. Operations that
  dereference the last attempt panic when there is none; \<^const>\<open>None\<close> is that panic.
\<close>

fun update_first :: "('a \<Rightarrow> bool) \<Rightarrow> ('a \<Rightarrow> 'a) \<Rightarrow> 'a list \<Rightarrow> 'a list" where
  "update_first p f [] = []"
| "update_first p f (x # xs) = (if p x then f x # xs else x # update_first p f xs)"

definition update_last :: "('a \<Rightarrow> 'a) \<Rightarrow> 'a list \<Rightarrow> 'a list" where
  "update_last f xs = (if xs = [] then [] else butlast xs @ [f (last xs)])"

definition findManifestStep :: "Manifest \<Rightarrow> string \<Rightarrow> Step option" where
  "findManifestStep m node = find (\<lambda>s. st_node s = node) (mf_steps m)"

definition update_step :: "string \<Rightarrow> (Step \<Rightarrow> Step) \<Rightarrow> Manifest \<Rightarrow> Manifest" where
  "update_step node f m = m\<lparr>mf_steps := update_first (\<lambda>s. st_node s = node) f (mf_steps m)\<rparr>"

definition zero_input :: DataArtifact where
  "zero_input = \<lparr>da_key = [], da_hash = [], da_contentType = [], da_schema = []\<rparr>"

definition new_attempt :: "int \<Rightarrow> DataArtifact \<Rightarrow> Attempt" where
  "new_attempt n input = \<lparr>at_attempt = n, at_status = StatusRunning, at_input = input,
     at_output = None, at_diagnostic = []\<rparr>"

definition close_attempt :: "string \<Rightarrow> string \<Rightarrow> Attempt \<Rightarrow> Attempt" where
  "close_attempt status diagnostic a = a\<lparr>at_status := status, at_diagnostic := diagnostic\<rparr>"

definition close_last :: "string \<Rightarrow> string \<Rightarrow> Attempt list \<Rightarrow> Attempt list" where
  "close_last status diagnostic as =
     (if as = [] then [close_attempt status diagnostic (new_attempt 1 zero_input)]
      else update_last (close_attempt status diagnostic) as)"

definition newRunManifest ::
    "string \<Rightarrow> string \<Rightarrow> string \<Rightarrow> string list \<Rightarrow> (string \<Rightarrow> (string \<times> string) option) \<Rightarrow> Manifest" where
  "newRunManifest planHash projectKey runID stepOrder kindOf =
     \<lparr>mf_kind = ''RunManifest'', mf_schemaVersion = 6, mf_encoding = ''json-v6'', mf_planHash = planHash,
      mf_projectKey = projectKey, mf_runID = runID, mf_status = StatusRunning, mf_diagnostic = [],
      mf_failure = None, mf_environment = None,
      mf_steps = map (\<lambda>i. \<lparr>st_node = i, st_status = StatusPending, st_attempts = [],
          st_items = (case kindOf i of Some (k, _) \<Rightarrow> if k = ''map'' then Some [] else None | None \<Rightarrow> None),
          st_itemFailures = (case kindOf i of Some (k, f) \<Rightarrow> if k = ''map'' then f else [] | None \<Rightarrow> []),
          st_skipReason = None\<rparr>) stepOrder,
      mf_decisions = [], mf_result = None, mf_exitHook = None\<rparr>"

definition markAttemptRunning :: "string \<Rightarrow> int \<Rightarrow> DataArtifact \<Rightarrow> Manifest \<Rightarrow> Manifest" where
  "markAttemptRunning node n input =
     update_step node (\<lambda>s. s\<lparr>st_status := StatusRunning, st_attempts := st_attempts s @ [new_attempt n input]\<rparr>)"

definition markAttemptRetrying :: "string \<Rightarrow> string \<Rightarrow> Manifest \<Rightarrow> Manifest" where
  "markAttemptRetrying node diagnostic =
     update_step node (\<lambda>s. s\<lparr>st_attempts := update_last (close_attempt StatusFailed diagnostic) (st_attempts s)\<rparr>)"

definition markAttemptSucceeded :: "string \<Rightarrow> PublishedArtifact \<Rightarrow> Manifest \<Rightarrow> Manifest option" where
  "markAttemptSucceeded node output m =
     (case findManifestStep m node of
        None \<Rightarrow> Some m
      | Some s \<Rightarrow>
          if st_attempts s = [] then None
          else Some (update_step node (\<lambda>s. s\<lparr>st_status := StatusSucceeded,
                 st_attempts := update_last (\<lambda>a. a\<lparr>at_status := StatusSucceeded, at_output := Some output\<rparr>)
                   (st_attempts s)\<rparr>) m))"

definition markAttemptTerminal :: "string \<Rightarrow> string \<Rightarrow> string \<Rightarrow> Manifest \<Rightarrow> Manifest" where
  "markAttemptTerminal node status diagnostic =
     update_step node (\<lambda>s. s\<lparr>st_status := status, st_attempts := close_last status diagnostic (st_attempts s)\<rparr>)"

text \<open>The undispatched attempt is dropped when the invoker reports no outcome.\<close>

definition dropAttempt :: "string \<Rightarrow> Manifest \<Rightarrow> Manifest" where
  "dropAttempt node =
     update_step node (\<lambda>s. let as = butlast (st_attempts s) in
       s\<lparr>st_attempts := as, st_status := (if as = [] then StatusNotStarted else st_status s)\<rparr>)"

definition markStepSkipped :: "string \<Rightarrow> SkipReason \<Rightarrow> Manifest \<Rightarrow> Manifest" where
  "markStepSkipped node reason =
     update_step node (\<lambda>s. s\<lparr>st_status := StatusSkipped, st_skipReason := Some reason\<rparr>)"

definition add_decision :: "Decision \<Rightarrow> Manifest \<Rightarrow> Manifest" where
  "add_decision d m = m\<lparr>mf_decisions := mf_decisions m @ [d]\<rparr>"

definition markDecisionSelected :: "string \<Rightarrow> string \<Rightarrow> Manifest \<Rightarrow> Manifest" where
  "markDecisionSelected node tag = add_decision \<lparr>de_node = node, de_status = ''selected'', de_case = tag,
     de_diagnostic = [], de_skipReason = None\<rparr>"

definition markDecisionFailed :: "string \<Rightarrow> string \<Rightarrow> Manifest \<Rightarrow> Manifest" where
  "markDecisionFailed node diagnostic = add_decision \<lparr>de_node = node, de_status = StatusFailed, de_case = [],
     de_diagnostic = diagnostic, de_skipReason = None\<rparr>"

definition markDecisionSkipped :: "string \<Rightarrow> SkipReason \<Rightarrow> Manifest \<Rightarrow> Manifest" where
  "markDecisionSkipped node reason = add_decision \<lparr>de_node = node, de_status = StatusSkipped, de_case = [],
     de_diagnostic = [], de_skipReason = Some reason\<rparr>"

subsection \<open>Map items\<close>

text \<open>Updates guarded by the item's existence, as every \<^verbatim>\<open>markMapItem\<close> function is.\<close>

definition update_items :: "string \<Rightarrow> (MapItem list \<Rightarrow> MapItem list) \<Rightarrow> Manifest \<Rightarrow> Manifest" where
  "update_items node f = update_step node (\<lambda>s. s\<lparr>st_items := map_option f (st_items s)\<rparr>)"

definition update_item :: "string \<Rightarrow> nat \<Rightarrow> (MapItem \<Rightarrow> MapItem) \<Rightarrow> Manifest \<Rightarrow> Manifest" where
  "update_item node i f =
     update_items node (\<lambda>its. if i < length its then its[i := f (its ! i)] else its)"

definition markMapItemsPending :: "string \<Rightarrow> nat \<Rightarrow> Manifest \<Rightarrow> Manifest" where
  "markMapItemsPending node n =
     update_items node (\<lambda>_. map (\<lambda>i. \<lparr>it_index = int i, it_status = StatusPending, it_attempts = [],
       it_diagnostic = []\<rparr>) [0..<n])"

definition markMapItemRunning :: "string \<Rightarrow> nat \<Rightarrow> int \<Rightarrow> DataArtifact \<Rightarrow> Manifest \<Rightarrow> Manifest" where
  "markMapItemRunning node i n input =
     update_item node i (\<lambda>it. it\<lparr>it_status := StatusRunning, it_attempts := it_attempts it @ [new_attempt n input]\<rparr>)"

definition markMapItemRetrying :: "string \<Rightarrow> nat \<Rightarrow> string \<Rightarrow> Manifest \<Rightarrow> Manifest" where
  "markMapItemRetrying node i diagnostic =
     update_item node i (\<lambda>it. it\<lparr>it_attempts := update_last (close_attempt StatusFailed diagnostic) (it_attempts it)\<rparr>)"

definition markMapItemSucceeded :: "string \<Rightarrow> nat \<Rightarrow> PublishedArtifact \<Rightarrow> Manifest \<Rightarrow> Manifest option" where
  "markMapItemSucceeded node i output m =
     (case findManifestStep m node of
        None \<Rightarrow> Some m
      | Some s \<Rightarrow>
        (case st_items s of
           None \<Rightarrow> Some m
         | Some its \<Rightarrow>
             if length its \<le> i then Some m
             else if it_attempts (its ! i) = [] then None
             else Some (update_item node i (\<lambda>it. it\<lparr>it_status := StatusSucceeded,
                    it_attempts := update_last (\<lambda>a. a\<lparr>at_status := StatusSucceeded, at_output := Some output\<rparr>)
                      (it_attempts it)\<rparr>) m)))"

definition markMapItemTerminal :: "string \<Rightarrow> nat \<Rightarrow> string \<Rightarrow> string \<Rightarrow> Manifest \<Rightarrow> Manifest" where
  "markMapItemTerminal node i status diagnostic =
     update_item node i (\<lambda>it. it\<lparr>it_status := status, it_attempts := close_last status diagnostic (it_attempts it)\<rparr>)"

definition mapHasFailedItem :: "Manifest \<Rightarrow> string \<Rightarrow> int set \<Rightarrow> bool" where
  "mapHasFailedItem m node collected =
     (\<exists>s \<in> set (mf_steps m). st_node s = node \<and>
        (case st_items s of None \<Rightarrow> False
         | Some its \<Rightarrow> \<exists>it \<in> set its. it_status it \<noteq> StatusSucceeded \<and> it_index it \<notin> collected))"

definition finish_item :: "string \<Rightarrow> MapItem \<Rightarrow> MapItem" where
  "finish_item status it =
     (if it_status it = StatusPending
      then it\<lparr>it_status := StatusNotStarted,
             it_diagnostic := ''map ended with status '' @ status @ '' before item dispatch''\<rparr>
      else if it_status it = StatusRunning
      then it\<lparr>it_status := status,
             it_attempts := (if it_attempts it \<noteq> [] \<and> at_status (last (it_attempts it)) = StatusRunning
               then update_last (close_attempt status ''map item did not complete'') (it_attempts it)
               else it_attempts it)\<rparr>
      else it)"

definition markUnfinishedMapItemsTerminal :: "string \<Rightarrow> string \<Rightarrow> Manifest \<Rightarrow> Manifest" where
  "markUnfinishedMapItemsTerminal node status = update_items node (map (finish_item status))"

text \<open>\<^verbatim>\<open>failMapNode\<close>; \<open>cancelled\<close> says that the cause is the context's own error.\<close>

definition failMapNode :: "bool \<Rightarrow> string \<Rightarrow> string \<Rightarrow> Manifest \<Rightarrow> Manifest" where
  "failMapNode cancelled node diagnostic m =
     (let status = (if cancelled then StatusCancelled else StatusFailed) in
      markAttemptTerminal node status diagnostic (markUnfinishedMapItemsTerminal node status m))"

section \<open>Terminate\<close>

definition terminateRunningAttempts :: "string \<Rightarrow> string \<Rightarrow> Attempt list \<Rightarrow> Attempt list" where
  "terminateRunningAttempts status diagnostic =
     map (\<lambda>a. if at_status a = StatusRunning then close_attempt status diagnostic a else a)"

definition terminate_item :: "string \<Rightarrow> string \<Rightarrow> MapItem \<Rightarrow> MapItem" where
  "terminate_item status diagnostic it =
     (if it_status it = StatusPending then it\<lparr>it_status := StatusNotStarted, it_diagnostic := diagnostic\<rparr>
      else if it_status it = StatusRunning
      then it\<lparr>it_status := status, it_attempts := terminateRunningAttempts status diagnostic (it_attempts it)\<rparr>
      else it)"

definition terminate_step :: "string \<Rightarrow> string \<Rightarrow> Step \<Rightarrow> Step" where
  "terminate_step status diagnostic s =
     (let s1 = (if st_status s = StatusPending then s\<lparr>st_status := StatusNotStarted\<rparr>
                else if st_status s = StatusRunning
                then s\<lparr>st_status := status, st_attempts := terminateRunningAttempts status diagnostic (st_attempts s)\<rparr>
                else s)
      in s1\<lparr>st_items := map_option (map (terminate_item status diagnostic)) (st_items s1)\<rparr>)"

definition Terminate :: "string \<Rightarrow> string \<Rightarrow> Manifest \<Rightarrow> Manifest" where
  "Terminate status diagnostic m =
     m\<lparr>mf_status := status, mf_diagnostic := diagnostic, mf_result := None,
       mf_steps := map (terminate_step status diagnostic) (mf_steps m)\<rparr>"

definition summariesFromManifest :: "Manifest \<Rightarrow> (string \<times> string \<times> string) list" where
  "summariesFromManifest m =
     map (\<lambda>s. (st_node s, st_status s, if st_attempts s = [] then [] else at_diagnostic (last (st_attempts s))))
       (mf_steps m)"

section \<open>Attempt sequences\<close>

definition status_fits :: "string \<Rightarrow> string \<Rightarrow> bool" where
  "status_fits l status = (l = status \<or> (l = StatusFailed \<and> (status = StatusRunning \<or> status = StatusCancelled)))"

definition dense_attempts :: "int \<Rightarrow> Attempt list \<Rightarrow> bool" where
  "dense_attempts i as =
     ((\<forall>k < length as. at_attempt (as ! k) = i + 1 + int k) \<and> (\<forall>a \<in> set (butlast as). at_status a = StatusFailed))"

lemma check_dense_None: "check_dense i as = None \<longleftrightarrow> dense_attempts i as"
proof (induction i as rule: check_dense.induct)
  case (1 i)
  then show ?case by (simp add: dense_attempts_def)
next
  case (2 i a as)
  have nth: "(\<forall>k < length (a # as). at_attempt ((a # as) ! k) = i + 1 + int k) \<longleftrightarrow>
      at_attempt a = i + 1 \<and> (\<forall>k < length as. at_attempt (as ! k) = (i + 1) + 1 + int k)"
    by (auto simp: less_Suc_eq_0_disj nth_Cons split: nat.splits)
  show ?case
    unfolding dense_attempts_def nth using 2 by (cases "as = []") (auto simp: dense_attempts_def)
qed

lemma validateAttempts_None:
  "validateAttempts as status = None \<longleftrightarrow>
     dense_attempts 0 as \<and> (as \<noteq> [] \<longrightarrow> status_fits (at_status (last as)) status)"
  by (auto simp: validateAttempts_def check_dense_None[symmetric] Let_def status_fits_def split: option.splits)

abbreviation attempts_ok :: "Attempt list \<Rightarrow> string \<Rightarrow> bool" where
  "attempts_ok as status \<equiv> validateAttempts as status = None"

lemma attempts_ok_Nil [simp]: "attempts_ok [] status"
  by (simp add: validateAttempts_def)

lemma dense_update_last:
  assumes "dense_attempts i as" "\<And>a. at_attempt (f a) = at_attempt a"
  shows "dense_attempts i (update_last f as)"
proof (cases as rule: rev_cases)
  case (snoc bs b)
  have "at_attempt ((bs @ [f b]) ! k) = at_attempt ((bs @ [b]) ! k)" if "k < length as" for k
    using that snoc assms(2) by (cases "k = length bs") (auto simp: nth_append)
  then show ?thesis
    using assms(1) snoc by (auto simp: dense_attempts_def update_last_def)
qed (use assms in \<open>simp add: update_last_def\<close>)

lemma update_last_Nil [simp]: "update_last f as = [] \<longleftrightarrow> as = []"
  by (simp add: update_last_def)

lemma last_update_last [simp]: "as \<noteq> [] \<Longrightarrow> last (update_last f as) = f (last as)"
  by (simp add: update_last_def)

lemma attempts_ok_close:
  assumes "attempts_ok as s" "\<And>a. at_attempt (f a) = at_attempt a" "\<And>a. at_status (f a) = status'"
    and "status_fits status' status"
  shows "attempts_ok (update_last f as) status"
  using assms dense_update_last[of 0 as f] by (auto simp: validateAttempts_None)

lemma attempts_ok_append:
  assumes "attempts_ok as s" "as = [] \<or> at_status (last as) = StatusFailed" "n = int (length as) + 1"
  shows "attempts_ok (as @ [new_attempt n input]) StatusRunning"
proof -
  have "\<forall>a \<in> set as. at_status a = StatusFailed"
    using assms(1,2) by (cases as rule: rev_cases) (auto simp: validateAttempts_None dense_attempts_def)
  then show ?thesis
    using assms(1,3)
    by (auto simp: validateAttempts_None dense_attempts_def status_fits_def new_attempt_def nth_append less_Suc_eq)
qed

lemma attempts_ok_butlast:
  assumes "attempts_ok as s"
  shows "attempts_ok (butlast as) StatusRunning"
proof -
  have "at_status (last (butlast as)) = StatusFailed" if "butlast as \<noteq> []"
    using assms that by (auto simp: validateAttempts_None dense_attempts_def)
  moreover have "dense_attempts 0 (butlast as)"
    using assms by (auto simp: validateAttempts_None dense_attempts_def nth_butlast dest: in_set_butlastD)
  ultimately show ?thesis by (auto simp: validateAttempts_None status_fits_def)
qed

lemma attempts_ok_close_last:
  assumes "attempts_ok as s"
  shows "attempts_ok (close_last status diagnostic as) status"
proof (cases "as = []")
  case True
  then show ?thesis
    by (simp add: close_last_def validateAttempts_None dense_attempts_def status_fits_def close_attempt_def
        new_attempt_def)
next
  case False
  then show ?thesis
    unfolding close_last_def using assms
    by (auto intro!: attempts_ok_close[where status' = status] simp: close_attempt_def status_fits_def)
qed

lemma attempts_ok_terminate:
  assumes "attempts_ok as StatusRunning" "status = StatusFailed \<or> status = StatusCancelled"
  shows "attempts_ok (terminateRunningAttempts status diagnostic as) status"
proof (cases as rule: rev_cases)
  case (snoc bs b)
  let ?f = "\<lambda>a. if at_status a = StatusRunning then close_attempt status diagnostic a else a"
  have bs: "\<forall>a \<in> set bs. at_status a = StatusFailed"
    and b: "at_status b = StatusRunning \<or> at_status b = StatusFailed"
    using assms(1) snoc by (auto simp: validateAttempts_None dense_attempts_def status_fits_def)
  then have "map ?f bs = bs" by (intro map_idI) auto
  then have "terminateRunningAttempts status diagnostic as = update_last ?f as"
    using snoc by (simp add: terminateRunningAttempts_def update_last_def)
  moreover have "status_fits (at_status (?f b)) status"
    using b assms(2) by (auto simp: close_attempt_def status_fits_def)
  moreover have "dense_attempts 0 (update_last ?f as)"
    using assms(1) by (intro dense_update_last) (auto simp: validateAttempts_None close_attempt_def)
  ultimately show ?thesis using snoc by (auto simp: validateAttempts_None split: if_splits)
qed (simp add: terminateRunningAttempts_def)

section \<open>The journal invariant\<close>

definition item_inv :: "MapItem \<Rightarrow> bool" where
  "item_inv it =
     (attempts_ok (it_attempts it) (it_status it)
      \<and> (it_status it \<in> {StatusPending, StatusNotStarted} \<longrightarrow> it_attempts it = []))"

text \<open>What the status of a map step lets its items be.\<close>

definition item_fits :: "string \<Rightarrow> string \<Rightarrow> MapItem \<Rightarrow> bool" where
  "item_fits status itemFailures it =
     ((it_status it = StatusNotStarted \<longrightarrow> status = StatusFailed \<or> status = StatusCancelled)
      \<and> (status = StatusSucceeded \<longrightarrow> it_status it = StatusSucceeded \<or> (itemFailures \<noteq> [] \<and> it_status it = StatusFailed))
      \<and> (status = StatusFailed \<or> status = StatusCancelled \<longrightarrow>
           it_status it \<noteq> StatusPending \<and> it_status it \<noteq> StatusRunning))"

definition items_inv :: "Step \<Rightarrow> MapItem list \<Rightarrow> bool" where
  "items_inv s its =
     ((\<forall>i < length its. it_index (its ! i) = int i)
      \<and> (\<forall>it \<in> set its. item_inv it \<and> item_fits (st_status s) (st_itemFailures s) it)
      \<and> (st_status s \<in> {StatusPending, StatusSkipped, StatusNotStarted} \<longrightarrow> its = []))"

definition step_statuses :: "string set" where
  "step_statuses = {StatusPending, StatusRunning, StatusSucceeded, StatusFailed, StatusCancelled,
     StatusSkipped, StatusNotStarted}"

definition step_inv :: "Step \<Rightarrow> bool" where
  "step_inv s =
     (st_status s \<in> step_statuses \<and> attempts_ok (st_attempts s) (st_status s)
      \<and> (st_status s \<in> {StatusPending, StatusSkipped, StatusNotStarted} \<longrightarrow> st_attempts s = [])
      \<and> (\<forall>its. st_items s = Some its \<longrightarrow> items_inv s its))"

definition journal_inv :: "Manifest \<Rightarrow> bool" where
  "journal_inv m = (distinct (map st_node (mf_steps m)) \<and> (\<forall>s \<in> set (mf_steps m). step_inv s))"

lemma check_item_None:
  assumes "item_inv it" "item_fits (st_status s) (st_itemFailures s) it" "it_index it = i"
  shows "check_item s i it = None"
  using assms by (auto simp: check_item_def item_inv_def item_fits_def)

lemma check_items_None:
  assumes "\<forall>it \<in> set its. item_inv it \<and> item_fits (st_status s) (st_itemFailures s) it"
    and "\<forall>k < length its. it_index (its ! k) = i + int k"
  shows "check_items s i its = None"
  using assms
proof (induction its arbitrary: i)
  case (Cons it its)
  have "it_index it = i" using Cons.prems(2) by force
  then have "check_item s i it = None" using Cons.prems(1) by (intro check_item_None) auto
  moreover have "\<forall>k < length its. it_index (its ! k) = (i + 1) + int k"
    using Cons.prems(2) by (auto simp: algebra_simps dest: spec[of _ "Suc _"])
  ultimately show ?case using Cons.IH[of "i + 1"] Cons.prems(1) by simp
qed simp

lemma check_step_None:
  assumes "step_inv s"
    and "run_status \<noteq> StatusRunning \<longrightarrow> st_status s \<noteq> StatusPending \<and> st_status s \<noteq> StatusRunning"
    and "run_status = StatusSucceeded \<longrightarrow> st_status s = StatusSucceeded \<or> st_status s = StatusSkipped"
  shows "check_step run_status s = None"
proof -
  have "check_items s 0 its = None" if "st_items s = Some its" for its
    using assms(1) that by (intro check_items_None) (auto simp: step_inv_def items_inv_def)
  then show ?thesis
    using assms by (auto simp: check_step_def step_inv_def items_inv_def split: option.splits)
qed

lemma check_steps_None: "(\<forall>s \<in> set ss. check_step r s = None) \<Longrightarrow> check_steps r ss = None"
  by (induction ss) auto

section \<open>Termination closes the journal\<close>

lemma terminate_item_inv:
  assumes "item_inv it" "status = StatusFailed \<or> status = StatusCancelled"
  shows "item_inv (terminate_item status diagnostic it)"
    and "it_status (terminate_item status diagnostic it) \<notin> {StatusPending, StatusRunning}"
    and "it_index (terminate_item status diagnostic it) = it_index it"
  using assms attempts_ok_terminate[of "it_attempts it" status diagnostic]
  by (auto simp: terminate_item_def item_inv_def)

lemma terminate_item_id:
  "it_status it \<noteq> StatusPending \<Longrightarrow> it_status it \<noteq> StatusRunning \<Longrightarrow> terminate_item status diagnostic it = it"
  by (simp add: terminate_item_def)

lemma terminate_running_items:
  assumes "items_inv s its" "status = StatusFailed \<or> status = StatusCancelled" "st_status s' = status"
  shows "items_inv s' (map (terminate_item status diagnostic) its)"
proof -
  have "it_index (terminate_item status diagnostic it) = it_index it" for it
    by (simp add: terminate_item_def)
  then have "\<forall>i < length its. it_index (map (terminate_item status diagnostic) its ! i) = int i"
    using assms(1) by (simp add: items_inv_def)
  moreover have "item_inv (terminate_item status diagnostic it)
      \<and> item_fits (st_status s') (st_itemFailures s') (terminate_item status diagnostic it)" if "it \<in> set its" for it
  proof -
    have "item_inv it" using assms(1) that by (simp add: items_inv_def)
    then show ?thesis
      using terminate_item_inv(1,2)[of it status diagnostic] assms(2) unfolding assms(3) item_fits_def by force
  qed
  ultimately show ?thesis using assms(2,3) by (auto simp: items_inv_def)
qed

lemma terminate_other_items:
  assumes "items_inv s its" "st_status s \<in> step_statuses" "st_status s \<noteq> StatusRunning"
  shows "map (terminate_item status diagnostic) its = its"
  using assms
  by (intro map_idI terminate_item_id) (auto simp: items_inv_def item_fits_def step_statuses_def)

lemma terminate_step_inv:
  assumes inv: "step_inv s" and st: "status = StatusFailed \<or> status = StatusCancelled"
  shows "step_inv (terminate_step status diagnostic s)"
    and "st_status (terminate_step status diagnostic s) \<notin> {StatusPending, StatusRunning}"
    and "st_node (terminate_step status diagnostic s) = st_node s"
proof -
  consider "st_status s = StatusRunning" | "st_status s = StatusPending"
    | "st_status s \<noteq> StatusRunning" "st_status s \<noteq> StatusPending" by blast
  then show "step_inv (terminate_step status diagnostic s)"
  proof cases
    case 1
    then show ?thesis
      using inv st attempts_ok_terminate[of "st_attempts s" status diagnostic] terminate_running_items[of s _ status]
      by (auto simp: terminate_step_def step_inv_def step_statuses_def Let_def)
  next
    case 2
    then show ?thesis
      using inv by (auto simp: terminate_step_def step_inv_def step_statuses_def items_inv_def Let_def)
  next
    case 3
    have "st_items s = Some its \<Longrightarrow> map (terminate_item status diagnostic) its = its" for its
      using inv 3 by (intro terminate_other_items[of s]) (auto simp: step_inv_def)
    then have "terminate_step status diagnostic s = s"
      using 3 by (cases "st_items s") (auto simp: terminate_step_def Let_def)
    then show ?thesis using inv by simp
  qed
  show "st_status (terminate_step status diagnostic s) \<notin> {StatusPending, StatusRunning}"
    "st_node (terminate_step status diagnostic s) = st_node s"
    using st by (auto simp: terminate_step_def Let_def)
qed

lemma terminate_step_node [simp]: "st_node (terminate_step status diagnostic s) = st_node s"
  by (simp add: terminate_step_def Let_def)

lemma terminate_fatal_named:
  assumes "fatal_named f s"
  shows "fatal_named f (terminate_step status diagnostic s)"
proof -
  have keep: "\<exists>x \<in> set its. it_status (terminate_item status diagnostic x) = StatusFailed
      \<and> it_attempts (terminate_item status diagnostic x) \<noteq> []"
    if "x \<in> set its" "it_status x = StatusFailed" "it_attempts x \<noteq> []" for its x
    using that by (intro bexI[of _ x]) (auto simp: terminate_item_id)
  have "st_status s = StatusFailed" using assms by (simp add: fatal_named_def)
  then show ?thesis
    using assms keep by (cases "st_items s") (auto simp: fatal_named_def terminate_step_def Let_def)
qed

lemma Terminate_inv:
  assumes "journal_inv m" "status = StatusFailed \<or> status = StatusCancelled"
  shows "journal_inv (Terminate status diagnostic m)"
proof -
  have "map st_node (map (terminate_step status diagnostic) (mf_steps m)) = map st_node (mf_steps m)"
    by (simp add: comp_def)
  then show ?thesis
    using assms terminate_step_inv(1) unfolding journal_inv_def Terminate_def by (auto simp del: map_map)
qed

section \<open>Updates keep the invariant\<close>

lemma update_first_in: "x \<in> set (update_first p f xs) \<Longrightarrow> x \<in> set xs \<or> (\<exists>y. find p xs = Some y \<and> x = f y)"
  by (induction xs) (auto split: if_splits)

lemma map_update_first: "(\<And>x. g (f x) = g x) \<Longrightarrow> map g (update_first p f xs) = map g xs"
  by (induction xs) auto

lemma find_in_set: "find p xs = Some x \<Longrightarrow> x \<in> set xs"
  by (induction xs) (auto split: if_splits)

lemma update_step_inv:
  assumes "journal_inv m" "\<And>s. st_node (f s) = st_node s"
    and "\<And>s. findManifestStep m node = Some s \<Longrightarrow> step_inv s \<Longrightarrow> step_inv (f s)"
  shows "journal_inv (update_step node f m)"
proof -
  have old: "step_inv s" if "s \<in> set (mf_steps m)" for s
    using assms(1) that by (simp add: journal_inv_def)
  have "step_inv s" if "s \<in> set (update_first (\<lambda>s. st_node s = node) f (mf_steps m))" for s
    using update_first_in[OF that] old assms(3) find_in_set
    unfolding findManifestStep_def by metis
  then show ?thesis
    using assms(1) map_update_first[of st_node f, OF assms(2)] by (simp add: journal_inv_def update_step_def)
qed

lemma find_step_update [simp]:
  assumes "\<And>s. st_node (f s) = st_node s"
  shows "findManifestStep (update_step node f m) node = map_option f (findManifestStep m node)"
proof -
  have "find (\<lambda>s. st_node s = node) (update_first (\<lambda>s. st_node s = node) f ss)
    = map_option f (find (\<lambda>s. st_node s = node) ss)" for ss
    using assms by (induction ss) auto
  then show ?thesis by (simp add: findManifestStep_def update_step_def)
qed

lemma find_step_other [simp]:
  assumes "\<And>s. st_node (f s) = st_node s" "other \<noteq> node"
  shows "findManifestStep (update_step node f m) other = findManifestStep m other"
proof -
  have "find (\<lambda>s. st_node s = other) (update_first (\<lambda>s. st_node s = node) f ss)
    = find (\<lambda>s. st_node s = other) ss" for ss
    using assms by (induction ss) auto
  then show ?thesis by (simp add: findManifestStep_def update_step_def)
qed

lemma findManifestStep_inv:
  assumes "journal_inv m" "findManifestStep m node = Some s"
  shows "step_inv s" "s \<in> set (mf_steps m)" "st_node s = node"
proof -
  show "s \<in> set (mf_steps m)" using assms(2) unfolding findManifestStep_def by (rule find_in_set)
  then show "step_inv s" using assms(1) by (simp add: journal_inv_def)
  show "st_node s = node" using assms(2) by (auto simp: findManifestStep_def find_Some_iff)
qed

text \<open>A step whose items, if it is a map at all, are not expanded yet.\<close>

definition unexpanded :: "Step \<Rightarrow> bool" where
  "unexpanded s = (st_items s = None \<or> st_items s = Some [])"

lemma pending_unexpanded: "step_inv s \<Longrightarrow> st_status s = StatusPending \<Longrightarrow> unexpanded s"
  by (cases "st_items s") (auto simp: step_inv_def items_inv_def unexpanded_def)

lemma items_inv_Nil [simp]: "items_inv s []"
  by (simp add: items_inv_def)

lemma step_inv_unexpanded:
  assumes "unexpanded s" "st_status s \<in> step_statuses" "attempts_ok (st_attempts s) (st_status s)"
    and "st_status s \<in> {StatusPending, StatusSkipped, StatusNotStarted} \<longrightarrow> st_attempts s = []"
  shows "step_inv s"
  using assms by (auto simp: step_inv_def unexpanded_def)

definition awaiting :: "Step \<Rightarrow> bool" where
  "awaiting s = (st_status s = StatusPending
     \<or> (st_status s = StatusRunning \<and> st_attempts s \<noteq> [] \<and> at_status (last (st_attempts s)) = StatusFailed))"

definition in_flight :: "Step \<Rightarrow> bool" where
  "in_flight s = (st_status s = StatusRunning \<and> st_attempts s \<noteq> [] \<and> at_status (last (st_attempts s)) = StatusRunning)"

lemma markAttemptRunning_step:
  assumes "step_inv s" "unexpanded s" "awaiting s" "n = int (length (st_attempts s)) + 1"
  shows "step_inv (s\<lparr>st_status := StatusRunning, st_attempts := st_attempts s @ [new_attempt n input]\<rparr>)"
proof -
  have "st_attempts s = [] \<or> at_status (last (st_attempts s)) = StatusFailed"
    using assms(1,3) by (auto simp: awaiting_def step_inv_def)
  then have "attempts_ok (st_attempts s @ [new_attempt n input]) StatusRunning"
    using attempts_ok_append[of "st_attempts s" "st_status s" n input] assms(1,4) by (simp add: step_inv_def)
  then show ?thesis
    using assms(2) by (intro step_inv_unexpanded) (auto simp: unexpanded_def step_statuses_def)
qed

lemma markAttemptRunning_inv:
  assumes "journal_inv m" "findManifestStep m node = Some s" "unexpanded s" "awaiting s"
    and "n = int (length (st_attempts s)) + 1"
  shows "journal_inv (markAttemptRunning node n input m)"
  unfolding markAttemptRunning_def
  by (rule update_step_inv) (use assms markAttemptRunning_step in auto)

lemma markAttemptRetrying_inv:
  assumes "journal_inv m" "findManifestStep m node = Some s" "unexpanded s" "st_status s = StatusRunning"
  shows "journal_inv (markAttemptRetrying node diagnostic m)"
  unfolding markAttemptRetrying_def
proof (rule update_step_inv)
  fix s' assume "findManifestStep m node = Some s'" "step_inv s'"
  then have s': "s' = s" "step_inv s" using assms(2) by auto
  have "attempts_ok (update_last (close_attempt StatusFailed diagnostic) (st_attempts s)) StatusRunning"
    using s'(2) by (intro attempts_ok_close[where status' = StatusFailed])
      (auto simp: step_inv_def close_attempt_def status_fits_def)
  then show "step_inv (s'\<lparr>st_attempts := update_last (close_attempt StatusFailed diagnostic) (st_attempts s')\<rparr>)"
    using assms(3,4) s'(1) by (intro step_inv_unexpanded) (auto simp: unexpanded_def step_statuses_def)
qed (use assms in auto)

lemma markAttemptTerminal_inv:
  assumes "journal_inv m" "status = StatusFailed \<or> status = StatusCancelled"
    and "\<And>s its. findManifestStep m node = Some s \<Longrightarrow> st_items s = Some its \<Longrightarrow>
      \<forall>it \<in> set its. it_status it \<noteq> StatusPending \<and> it_status it \<noteq> StatusRunning"
  shows "journal_inv (markAttemptTerminal node status diagnostic m)"
  unfolding markAttemptTerminal_def
proof (rule update_step_inv)
  fix s assume f: "findManifestStep m node = Some s" and inv: "step_inv s"
  let ?s = "s\<lparr>st_status := status, st_attempts := close_last status diagnostic (st_attempts s)\<rparr>"
  have "items_inv ?s its" if "st_items s = Some its" for its
  proof -
    have "items_inv s its" using inv that by (simp add: step_inv_def)
    moreover have "item_fits status (st_itemFailures s) it" if "it \<in> set its" for it
      using assms(2) assms(3)[OF f \<open>st_items s = Some its\<close>] that by (auto simp: item_fits_def)
    ultimately show ?thesis using assms(2) by (auto simp: items_inv_def)
  qed
  then show "step_inv ?s"
    using inv assms(2) attempts_ok_close_last[of "st_attempts s" _ status diagnostic]
    by (auto simp: step_inv_def step_statuses_def)
qed (use assms in auto)

lemma markAttemptSucceeded_inv:
  assumes "journal_inv m" "findManifestStep m node = Some s" "st_attempts s \<noteq> []"
    and "\<And>its it. st_items s = Some its \<Longrightarrow> it \<in> set its \<Longrightarrow>
      it_status it = StatusSucceeded \<or> (st_itemFailures s \<noteq> [] \<and> it_status it = StatusFailed)"
  shows "\<exists>m'. markAttemptSucceeded node output m = Some m' \<and> journal_inv m'
    \<and> findManifestStep m' node = Some (s\<lparr>st_status := StatusSucceeded, st_attempts :=
        update_last (\<lambda>a. a\<lparr>at_status := StatusSucceeded, at_output := Some output\<rparr>) (st_attempts s)\<rparr>)"
proof -
  let ?f = "\<lambda>s. s\<lparr>st_status := StatusSucceeded, st_attempts :=
        update_last (\<lambda>a. a\<lparr>at_status := StatusSucceeded, at_output := Some output\<rparr>) (st_attempts s)\<rparr>"
  have "journal_inv (update_step node ?f m)"
  proof (rule update_step_inv)
    fix s' assume "findManifestStep m node = Some s'" "step_inv s'"
    then have s': "s' = s" "step_inv s" using assms(2) by auto
    have "items_inv (?f s) its" if "st_items s = Some its" for its
    proof -
      have "items_inv s its" using s'(2) that by (simp add: step_inv_def)
      moreover have "item_fits StatusSucceeded (st_itemFailures s) it" if "it \<in> set its" for it
        using assms(4)[OF \<open>st_items s = Some its\<close> that] by (auto simp: item_fits_def)
      ultimately show ?thesis by (simp add: items_inv_def)
    qed
    moreover have "attempts_ok (st_attempts (?f s)) StatusSucceeded"
      using s'(2) attempts_ok_close[where status' = StatusSucceeded and status = StatusSucceeded
        and as = "st_attempts s" and f = "\<lambda>a. a\<lparr>at_status := StatusSucceeded, at_output := Some output\<rparr>"]
      by (auto simp: step_inv_def status_fits_def)
    ultimately show "step_inv (?f s')"
      unfolding s'(1) by (simp add: step_inv_def step_statuses_def)
  qed (use assms in auto)
  moreover have "findManifestStep (update_step node ?f m) node = Some (?f s)"
    using assms(2) by (subst find_step_update) auto
  ultimately show ?thesis
    using assms(2,3) by (simp add: markAttemptSucceeded_def)
qed

lemma markStepSkipped_inv:
  assumes "journal_inv m" "\<And>s. findManifestStep m node = Some s \<Longrightarrow> st_status s = StatusPending"
  shows "journal_inv (markStepSkipped node reason m)"
  unfolding markStepSkipped_def
proof (rule update_step_inv)
  fix s assume f: "findManifestStep m node = Some s" and inv: "step_inv s"
  then show "step_inv (s\<lparr>st_status := StatusSkipped, st_skipReason := Some reason\<rparr>)"
    using assms(2)[OF f] pending_unexpanded[OF inv]
    by (intro step_inv_unexpanded) (auto simp: unexpanded_def step_statuses_def step_inv_def)
qed (use assms in auto)

lemma dropAttempt_inv:
  assumes "journal_inv m" "\<And>s. findManifestStep m node = Some s \<Longrightarrow> unexpanded s \<and> st_status s = StatusRunning"
  shows "journal_inv (dropAttempt node m)"
  unfolding dropAttempt_def
proof (rule update_step_inv)
  fix s assume f: "findManifestStep m node = Some s" and inv: "step_inv s"
  have "attempts_ok (butlast (st_attempts s)) StatusRunning"
    using inv attempts_ok_butlast unfolding step_inv_def by blast
  then show "step_inv (let as = butlast (st_attempts s) in
      s\<lparr>st_attempts := as, st_status := if as = [] then StatusNotStarted else st_status s\<rparr>)"
    using assms(2)[OF f] unfolding Let_def
    by (intro step_inv_unexpanded) (auto simp: unexpanded_def step_statuses_def)
qed (use assms in \<open>auto simp: Let_def\<close>)

lemma add_decision_inv [simp]: "journal_inv (add_decision d m) = journal_inv m"
  by (simp add: add_decision_def journal_inv_def)

lemmas decision_defs = markDecisionSelected_def markDecisionFailed_def markDecisionSkipped_def

lemma find_add_decision [simp]: "findManifestStep (add_decision d m) node = findManifestStep m node"
  by (simp add: add_decision_def findManifestStep_def)

lemma newRunManifest_inv:
  assumes "distinct stepOrder"
  shows "journal_inv (newRunManifest planHash projectKey runID stepOrder kindOf)"
proof -
  have "step_inv s" if "s \<in> set (mf_steps (newRunManifest planHash projectKey runID stepOrder kindOf))" for s
    using that by (intro step_inv_unexpanded)
      (auto simp: newRunManifest_def unexpanded_def step_statuses_def split: option.splits)
  then show ?thesis using assms by (auto simp: journal_inv_def newRunManifest_def comp_def)
qed

section \<open>Map items\<close>

lemma update_step_update_step:
  assumes "\<And>s. st_node (f s) = st_node s"
  shows "update_step node g (update_step node f m) = update_step node (\<lambda>s. g (f s)) m"
proof -
  have "update_first (\<lambda>s. st_node s = node) g (update_first (\<lambda>s. st_node s = node) f ss)
    = update_first (\<lambda>s. st_node s = node) (\<lambda>s. g (f s)) ss" for ss
    using assms by (induction ss) auto
  then show ?thesis by (simp add: update_step_def)
qed

lemma step_inv_running_items:
  assumes "step_inv s" "st_status s = StatusRunning"
    and "\<And>its. its' = Some its \<Longrightarrow> (\<forall>i < length its. it_index (its ! i) = int i)
      \<and> (\<forall>it \<in> set its. item_inv it \<and> it_status it \<noteq> StatusNotStarted)"
  shows "step_inv (s\<lparr>st_items := its'\<rparr>)"
  using assms by (auto simp: step_inv_def items_inv_def item_fits_def)

lemma update_items_step:
  assumes "findManifestStep m node = Some s"
  shows "findManifestStep (update_items node f m) node = Some (s\<lparr>st_items := map_option f (st_items s)\<rparr>)"
  unfolding update_items_def by (subst find_step_update) (use assms in auto)

lemma markMapItemsPending_inv:
  assumes "journal_inv m" "findManifestStep m node = Some s" "st_status s = StatusRunning"
  shows "journal_inv (markMapItemsPending node n m)"
  unfolding markMapItemsPending_def update_items_def
proof (rule update_step_inv)
  fix s' assume "findManifestStep m node = Some s'" "step_inv s'"
  then show "step_inv (s'\<lparr>st_items := map_option (\<lambda>_. map (\<lambda>i. \<lparr>it_index = int i, it_status = StatusPending,
      it_attempts = [], it_diagnostic = []\<rparr>) [0..<n]) (st_items s')\<rparr>)"
    using assms(2,3) by (intro step_inv_running_items) (auto simp: item_inv_def)
qed (use assms in auto)

lemma update_item_inv:
  assumes "journal_inv m" "findManifestStep m node = Some s" "st_status s = StatusRunning"
    and "\<And>its. st_items s = Some its \<Longrightarrow> i < length its \<Longrightarrow> item_inv (its ! i) \<Longrightarrow>
      item_inv (f (its ! i)) \<and> it_index (f (its ! i)) = it_index (its ! i) \<and> it_status (f (its ! i)) \<noteq> StatusNotStarted"
  shows "journal_inv (update_item node i f m)"
  unfolding update_item_def update_items_def
proof (rule update_step_inv)
  fix s' assume "findManifestStep m node = Some s'" "step_inv s'"
  then have s': "s' = s" "step_inv s" using assms(2) by auto
  have "(\<forall>k < length its. it_index (its ! k) = int k) \<and> (\<forall>it \<in> set its. item_inv it \<and> it_status it \<noteq> StatusNotStarted)"
    if upd: "map_option (\<lambda>its. if i < length its then its[i := f (its ! i)] else its) (st_items s) = Some its" for its
  proof -
    obtain old where old: "st_items s = Some old" "its = (if i < length old then old[i := f (old ! i)] else old)"
      using upd by auto
    have inv: "\<forall>k < length old. it_index (old ! k) = int k"
        "\<forall>it \<in> set old. item_inv it \<and> it_status it \<noteq> StatusNotStarted"
      using s'(2) old(1) assms(3) by (auto simp: step_inv_def items_inv_def item_fits_def)
    show ?thesis
    proof (cases "i < length old")
      case True
      then have "item_inv (f (old ! i)) \<and> it_index (f (old ! i)) = it_index (old ! i) \<and> it_status (f (old ! i)) \<noteq> StatusNotStarted"
        using assms(4)[OF old(1)] inv(2) by simp
      then show ?thesis
        using inv old(2) True by (auto simp: nth_list_update dest: in_set_conv_nth[THEN iffD1]
            set_update_subset_insert[THEN subsetD])
    qed (use inv old(2) in simp)
  qed
  then show "step_inv (s'\<lparr>st_items :=
      map_option (\<lambda>its. if i < length its then its[i := f (its ! i)] else its) (st_items s')\<rparr>)"
    using s' assms(3) by (intro step_inv_running_items) auto
qed (use assms in auto)

definition item_awaiting :: "MapItem \<Rightarrow> bool" where
  "item_awaiting it = (it_status it = StatusPending
     \<or> (it_status it = StatusRunning \<and> it_attempts it \<noteq> [] \<and> at_status (last (it_attempts it)) = StatusFailed))"

lemma item_running:
  assumes "item_inv it" "item_awaiting it" "n = int (length (it_attempts it)) + 1"
  shows "item_inv (it\<lparr>it_status := StatusRunning, it_attempts := it_attempts it @ [new_attempt n input]\<rparr>)"
proof -
  have "it_attempts it = [] \<or> at_status (last (it_attempts it)) = StatusFailed"
    using assms(1,2) by (auto simp: item_awaiting_def item_inv_def)
  then show ?thesis
    using attempts_ok_append[of "it_attempts it" "it_status it" n input] assms(1,3) by (simp add: item_inv_def)
qed

lemma item_closed:
  assumes "item_inv it" "status \<noteq> StatusPending" "status \<noteq> StatusNotStarted"
  shows "item_inv (it\<lparr>it_status := status, it_attempts := close_last status diagnostic (it_attempts it)\<rparr>)"
  using assms attempts_ok_close_last[of "it_attempts it" "it_status it"] by (simp add: item_inv_def)

lemma item_retrying:
  assumes "item_inv it" "it_status it = StatusRunning"
  shows "item_inv (it\<lparr>it_attempts := update_last (close_attempt StatusFailed diagnostic) (it_attempts it)\<rparr>)"
proof -
  have "attempts_ok (update_last (close_attempt StatusFailed diagnostic) (it_attempts it)) StatusRunning"
    using assms(1) by (intro attempts_ok_close[where status' = StatusFailed])
      (auto simp: item_inv_def close_attempt_def status_fits_def)
  then show ?thesis using assms(2) by (simp add: item_inv_def)
qed

lemma item_succeeded:
  assumes "item_inv it"
  shows "item_inv (it\<lparr>it_status := StatusSucceeded, it_attempts :=
    update_last (\<lambda>a. a\<lparr>at_status := StatusSucceeded, at_output := Some output\<rparr>) (it_attempts it)\<rparr>)"
proof -
  have "attempts_ok (update_last (\<lambda>a. a\<lparr>at_status := StatusSucceeded, at_output := Some output\<rparr>) (it_attempts it))
      StatusSucceeded"
    using assms by (intro attempts_ok_close[where status' = StatusSucceeded])
      (auto simp: item_inv_def status_fits_def)
  then show ?thesis by (simp add: item_inv_def)
qed

lemma attempts_ok_retried:
  assumes "attempts_ok as StatusRunning" "status = StatusFailed \<or> status = StatusCancelled"
    and "as = [] \<or> at_status (last as) \<noteq> StatusRunning"
  shows "attempts_ok as status"
  using assms by (auto simp: validateAttempts_None status_fits_def)

lemma finish_item_inv:
  assumes "item_inv it" "status = StatusFailed \<or> status = StatusCancelled"
  shows "item_inv (finish_item status it)"
    and "it_status (finish_item status it) \<noteq> StatusPending" "it_status (finish_item status it) \<noteq> StatusRunning"
    and "it_index (finish_item status it) = it_index it"
proof -
  show "item_inv (finish_item status it)"
  proof (cases "it_status it = StatusRunning")
    case True
    have ok: "attempts_ok (it_attempts it) StatusRunning" using assms(1) True by (simp add: item_inv_def)
    have "attempts_ok (update_last (close_attempt status ''map item did not complete'') (it_attempts it)) status"
      using ok by (intro attempts_ok_close[where status' = status]) (auto simp: close_attempt_def status_fits_def)
    then show ?thesis
      using assms(2) True attempts_ok_retried[OF ok assms(2)] by (auto simp: finish_item_def item_inv_def)
  qed (use assms in \<open>auto simp: finish_item_def item_inv_def\<close>)
qed (use assms(2) in \<open>auto simp: finish_item_def\<close>)

lemma finish_items_inv:
  assumes "items_inv s its" "status = StatusFailed \<or> status = StatusCancelled" "st_status s' = status"
  shows "items_inv s' (map (finish_item status) its)"
proof -
  have inv: "item_inv it" if "it \<in> set its" for it using assms(1) that by (simp add: items_inv_def)
  have "it_index (finish_item status it) = it_index it" if "it \<in> set its" for it
    using finish_item_inv(4)[OF inv[OF that] assms(2)] .
  then have "\<forall>i < length its. it_index (map (finish_item status) its ! i) = int i"
    using assms(1) by (simp add: items_inv_def)
  moreover have "item_inv (finish_item status it)
      \<and> item_fits (st_status s') (st_itemFailures s') (finish_item status it)" if "it \<in> set its" for it
    using finish_item_inv(1-3)[OF inv[OF that] assms(2)] assms(2) unfolding assms(3) item_fits_def by auto
  ultimately show ?thesis using assms(2,3) by (auto simp: items_inv_def)
qed

text \<open>Failing a map node closes its items and the step in one update.\<close>

lemma failMapNode_step:
  "failMapNode cancelled node diagnostic m =
     (let status = (if cancelled then StatusCancelled else StatusFailed) in
      update_step node (\<lambda>s. s\<lparr>st_items := map_option (map (finish_item status)) (st_items s), st_status := status,
        st_attempts := close_last status diagnostic (st_attempts s)\<rparr>) m)"
  by (simp add: failMapNode_def markAttemptTerminal_def markUnfinishedMapItemsTerminal_def update_items_def
      update_step_update_step Let_def)

lemma failMapNode_inv:
  assumes "journal_inv m"
  shows "journal_inv (failMapNode cancelled node diagnostic m)"
  unfolding failMapNode_step Let_def
proof (rule update_step_inv)
  fix s assume inv: "step_inv s"
  let ?st = "if cancelled then StatusCancelled else StatusFailed"
  let ?s = "s\<lparr>st_items := map_option (map (finish_item ?st)) (st_items s), st_status := ?st,
        st_attempts := close_last ?st diagnostic (st_attempts s)\<rparr>"
  have "items_inv ?s its" if "st_items ?s = Some its" for its
    using that inv finish_items_inv[of s _ ?st ?s] by (auto simp: step_inv_def)
  then show "step_inv ?s"
    using inv attempts_ok_close_last[of "st_attempts s" "st_status s" ?st diagnostic]
    by (auto simp: step_inv_def step_statuses_def)
qed (use assms in auto)

section \<open>A readable journal\<close>

definition hook_ok :: "Manifest \<Rightarrow> bool" where
  "hook_ok m = (case mf_exitHook m of None \<Rightarrow> True | Some h \<Rightarrow> attempts_ok (st_attempts h) (st_status h))"

definition failure_named :: "Manifest \<Rightarrow> bool" where
  "failure_named m = (case mf_failure m of None \<Rightarrow> True | Some f \<Rightarrow> list_ex (fatal_named f) (mf_steps m))"

lemma check_manifest_None:
  assumes "journal_inv m" "failure_named m" "hook_ok m"
    and "\<And>s. s \<in> set (mf_steps m) \<Longrightarrow> mf_status m \<noteq> StatusRunning \<Longrightarrow>
      st_status s \<noteq> StatusPending \<and> st_status s \<noteq> StatusRunning"
    and "\<And>s. s \<in> set (mf_steps m) \<Longrightarrow> mf_status m = StatusSucceeded \<Longrightarrow>
      st_status s = StatusSucceeded \<or> st_status s = StatusSkipped"
  shows "check_manifest m = None"
proof -
  have "check_steps (mf_status m) (mf_steps m) = None"
    using assms(1,4,5) by (intro check_steps_None ballI check_step_None) (auto simp: journal_inv_def)
  then show ?thesis
    using assms(2,3) by (auto simp: check_manifest_def failure_named_def hook_ok_def split: option.splits)
qed

lemma Terminate_steps:
  assumes "journal_inv m" "status = StatusFailed \<or> status = StatusCancelled"
    and "s \<in> set (mf_steps (Terminate status diagnostic m))"
  shows "st_status s \<noteq> StatusPending \<and> st_status s \<noteq> StatusRunning"
  using assms terminate_step_inv(2)[OF _ assms(2), of _ diagnostic] by (auto simp: Terminate_def journal_inv_def)

lemma Terminate_failure_named: "failure_named m \<Longrightarrow> failure_named (Terminate status diagnostic m)"
  using terminate_fatal_named by (fastforce simp: failure_named_def Terminate_def list_ex_iff split: option.splits)

lemma Terminate_simps [simp]:
  "mf_status (Terminate status diagnostic m) = status" "mf_exitHook (Terminate status diagnostic m) = mf_exitHook m"
  "mf_failure (Terminate status diagnostic m) = mf_failure m" "mf_result (Terminate status diagnostic m) = None"
  by (simp_all add: Terminate_def)

lemma Terminate_checks:
  assumes "journal_inv m" "failure_named m" "hook_ok m" "status = StatusFailed \<or> status = StatusCancelled"
  shows "check_manifest (Terminate status diagnostic m) = None"
proof (rule check_manifest_None)
  show "journal_inv (Terminate status diagnostic m)" by (rule Terminate_inv[OF assms(1,4)])
  show "failure_named (Terminate status diagnostic m)" by (rule Terminate_failure_named[OF assms(2)])
  show "hook_ok (Terminate status diagnostic m)" using assms(3) by (simp add: hook_ok_def)
qed (use assms(4) Terminate_steps[OF assms(1,4)] in auto)

definition two_steps :: Manifest where
  "two_steps = markAttemptRetrying ''a'' ''boom'' (markAttemptRunning ''a'' 1 zero_input
     (newRunManifest ''h'' ''p'' ''r'' [''a'', ''b''] (\<lambda>_. None)))"

lemma two_steps_inv: "journal_inv two_steps" "failure_named two_steps" "hook_ok two_steps"
proof -
  let ?m = "newRunManifest ''h'' ''p'' ''r'' [''a'', ''b''] (\<lambda>_. None)"
  have m: "journal_inv ?m" by (rule newRunManifest_inv) simp
  obtain s where s: "findManifestStep ?m ''a'' = Some s" "unexpanded s" "awaiting s" "st_attempts s = []"
    by (simp add: newRunManifest_def findManifestStep_def unexpanded_def awaiting_def)
  then have m1: "journal_inv (markAttemptRunning ''a'' 1 zero_input ?m)"
    using markAttemptRunning_inv[OF m s(1-3)] by simp
  have "findManifestStep (markAttemptRunning ''a'' 1 zero_input ?m) ''a''
      = Some (s\<lparr>st_status := StatusRunning, st_attempts := [new_attempt 1 zero_input]\<rparr>)"
    using s unfolding markAttemptRunning_def by (subst find_step_update) auto
  then show "journal_inv two_steps"
    unfolding two_steps_def by (rule markAttemptRetrying_inv[OF m1]) (use s(2) in \<open>auto simp: unexpanded_def\<close>)
qed (simp_all add: two_steps_def failure_named_def hook_ok_def markAttemptRetrying_def markAttemptRunning_def
    update_step_def newRunManifest_def)

section \<open>Properties\<close>



end
