(* ===== verification/Exec.thy ===== *)
theory Exec
  imports Journal
begin

text \<open>
  The executor's effects: a computation reads and updates a state and returns a value, an error or a
  panic. Go's \<^verbatim>\<open>errors.Is(err, ctx.Err())\<close> and \<^verbatim>\<open>errors.As(err, &fatal)\<close> are fields of the error value.
  Properties are stated by triples with one postcondition for values and one for errors; no triple
  admits a panic.
\<close>

section \<open>Computations\<close>

datatype go_error = GoError (err_is_ctx: bool) (err_fatal: "FatalFailure option") (err_text: string)

datatype 'a returned = Ok 'a | Fail go_error | Panic

type_synonym ('s, 'a) exec = "'s \<Rightarrow> 'a returned \<times> 's"

definition plain_error :: "string \<Rightarrow> go_error" where
  "plain_error t = GoError False None t"

definition ctx_error :: go_error where
  "ctx_error = GoError True None ''context ended''"

definition fatal_error :: "FatalFailure \<Rightarrow> go_error" where
  "fatal_error f = GoError False (Some f)
     (if ff_type f \<noteq> [] then ''fatal run failure ['' @ ff_type f @ '']: '' @ ff_message f
      else ''fatal run failure: '' @ ff_message f)"

definition ret :: "'a \<Rightarrow> ('s, 'a) exec" where
  "ret x s = (Ok x, s)"

definition raise :: "go_error \<Rightarrow> ('s, 'a) exec" where
  "raise e s = (Fail e, s)"

definition bnd :: "('s, 'a) exec \<Rightarrow> ('a \<Rightarrow> ('s, 'b) exec) \<Rightarrow> ('s, 'b) exec" where
  "bnd m k s = (case m s of (Ok x, s') \<Rightarrow> k x s' | (Fail e, s') \<Rightarrow> (Fail e, s') | (Panic, s') \<Rightarrow> (Panic, s'))"

definition thn :: "('s, unit) exec \<Rightarrow> ('s, 'b) exec \<Rightarrow> ('s, 'b) exec" where
  "thn m k = bnd m (\<lambda>_. k)"

definition modify :: "('s \<Rightarrow> 's) \<Rightarrow> ('s, unit) exec" where
  "modify f s = (Ok (), f s)"

definition gets :: "('s \<Rightarrow> 'a) \<Rightarrow> ('s, 'a) exec" where
  "gets f s = (Ok (f s), s)"

text \<open>An error as a value, for code that inspects it before returning.\<close>

definition attempt :: "('s, 'a) exec \<Rightarrow> ('s, go_error + 'a) exec" where
  "attempt m s = (case m s of (Ok x, s') \<Rightarrow> (Ok (Inr x), s') | (Fail e, s') \<Rightarrow> (Ok (Inl e), s') | (Panic, s') \<Rightarrow> (Panic, s'))"

text \<open>A nil dereference: \<^const>\<open>None\<close> panics.\<close>

definition must :: "'a option \<Rightarrow> ('s, 'a) exec" where
  "must x s = (case x of None \<Rightarrow> (Panic, s) | Some y \<Rightarrow> (Ok y, s))"

definition check_err :: "go_error option \<Rightarrow> ('s, unit) exec" where
  "check_err e = (case e of None \<Rightarrow> ret () | Some x \<Rightarrow> raise x)"

definition of_result :: "('e \<Rightarrow> go_error) \<Rightarrow> ('e, 'a) result \<Rightarrow> ('s, 'a) exec" where
  "of_result h r = (case r of Inl e \<Rightarrow> raise (h e) | Inr x \<Rightarrow> ret x)"

fun each :: "('acc \<Rightarrow> 'a \<Rightarrow> ('s, 'acc) exec) \<Rightarrow> 'acc \<Rightarrow> 'a list \<Rightarrow> ('s, 'acc) exec" where
  "each f acc [] = ret acc"
| "each f acc (x # xs) = bnd (f acc x) (\<lambda>acc'. each f acc' xs)"

section \<open>Triples\<close>

definition triple ::
    "('s \<Rightarrow> bool) \<Rightarrow> ('s, 'a) exec \<Rightarrow> ('a \<Rightarrow> 's \<Rightarrow> bool) \<Rightarrow> (go_error \<Rightarrow> 's \<Rightarrow> bool) \<Rightarrow> bool" where
  "triple P m Q E =
     (\<forall>s. P s \<longrightarrow> (case m s of (Ok x, s') \<Rightarrow> Q x s' | (Fail e, s') \<Rightarrow> E e s' | (Panic, _) \<Rightarrow> False))"

named_theorems triple_rules \<open>one rule per computation former\<close>

lemma tripleI: "(\<And>s. P s \<Longrightarrow> case m s of (Ok x, s') \<Rightarrow> Q x s' | (Fail e, s') \<Rightarrow> E e s' | (Panic, _) \<Rightarrow> False) \<Longrightarrow> triple P m Q E"
  by (simp add: triple_def)

lemma triple_conseq:
  assumes "triple P m Q E" "\<And>s. P' s \<Longrightarrow> P s" "\<And>x s. Q x s \<Longrightarrow> Q' x s" "\<And>e s. E e s \<Longrightarrow> E' e s"
  shows "triple P' m Q' E'"
  using assms unfolding triple_def by (fastforce split: prod.splits returned.splits)

lemma triple_pre: "triple P m Q E \<Longrightarrow> (\<And>s. P' s \<Longrightarrow> P s) \<Longrightarrow> triple P' m Q E"
  by (erule triple_conseq) auto

lemma triple_ret [triple_rules]: "triple (Q x) (ret x) Q E"
  by (simp add: triple_def ret_def)

lemma triple_raise [triple_rules]: "triple (E e) (raise e) Q E"
  by (simp add: triple_def raise_def)

lemma triple_bnd:
  assumes "triple P m R E" "\<And>x. triple (R x) (k x) Q E"
  shows "triple P (bnd m k) Q E"
proof (rule tripleI)
  fix s assume "P s"
  then have m: "case m s of (Ok x, s') \<Rightarrow> R x s' | (Fail e, s') \<Rightarrow> E e s' | (Panic, _) \<Rightarrow> False"
    using assms(1) by (simp add: triple_def)
  show "case bnd m k s of (Ok x, s') \<Rightarrow> Q x s' | (Fail e, s') \<Rightarrow> E e s' | (Panic, _) \<Rightarrow> False"
  proof (cases "m s")
    case (Pair r s')
    then show ?thesis
      using m assms(2) by (cases r) (auto simp: bnd_def triple_def)
  qed
qed

lemma triple_thn: "triple P m (\<lambda>_. R) E \<Longrightarrow> triple R k Q E \<Longrightarrow> triple P (thn m k) Q E"
  unfolding thn_def by (rule triple_bnd)

lemma triple_modify [triple_rules]: "triple (\<lambda>s. Q () (f s)) (modify f) Q E"
  by (simp add: triple_def modify_def)

lemma triple_gets [triple_rules]: "triple (\<lambda>s. Q (f s) s) (gets f) Q E"
  by (simp add: triple_def gets_def)

lemma triple_attempt:
  assumes "triple P m (\<lambda>x. Q (Inr x)) (\<lambda>e. Q (Inl e))"
  shows "triple P (attempt m) Q E"
  using assms unfolding triple_def attempt_def by (fastforce split: prod.splits returned.splits)

lemma triple_must [triple_rules]: "triple (\<lambda>s. \<exists>y. x = Some y \<and> Q y s) (must x) Q E"
  by (auto simp: triple_def must_def)

lemma triple_check_err [triple_rules]:
  "triple (\<lambda>s. case e of None \<Rightarrow> Q () s | Some x \<Rightarrow> E x s) (check_err e) Q E"
  by (auto simp: triple_def check_err_def ret_def raise_def split: option.splits)

lemma triple_of_result [triple_rules]:
  "triple (\<lambda>s. case r of Inl e \<Rightarrow> E (h e) s | Inr x \<Rightarrow> Q x s) (of_result h r) Q E"
  by (auto simp: triple_def of_result_def ret_def raise_def split: sum.splits)

lemma triple_if: "(b \<Longrightarrow> triple P m Q E) \<Longrightarrow> (\<not> b \<Longrightarrow> triple P' m' Q E) \<Longrightarrow> triple (\<lambda>s. if b then P s else P' s) (if b then m else m') Q E"
  by simp

lemma triple_cases_if: "(b \<Longrightarrow> triple P m Q E) \<Longrightarrow> (\<not> b \<Longrightarrow> triple P m' Q E) \<Longrightarrow> triple P (if b then m else m') Q E"
  by simp

lemma triple_cases_option:
  "(x = None \<Longrightarrow> triple P m Q E) \<Longrightarrow> (\<And>y. x = Some y \<Longrightarrow> triple P (k y) Q E) \<Longrightarrow>
   triple P (case x of None \<Rightarrow> m | Some y \<Rightarrow> k y) Q E"
  by (cases x) auto

lemma triple_cases_sum:
  "(\<And>e. x = Inl e \<Longrightarrow> triple P (m e) Q E) \<Longrightarrow> (\<And>y. x = Inr y \<Longrightarrow> triple P (k y) Q E) \<Longrightarrow>
   triple P (case x of Inl e \<Rightarrow> m e | Inr y \<Rightarrow> k y) Q E"
  by (cases x) auto

lemma triple_fact: "(\<And>s. P s \<Longrightarrow> C) \<Longrightarrow> (C \<Longrightarrow> triple P m Q E) \<Longrightarrow> triple P m Q E"
  by (auto simp: triple_def)

text \<open>A loop keeps an invariant indexed by what it has visited.\<close>

lemma triple_each:
  assumes "\<And>acc ys x zs. xs = ys @ x # zs \<Longrightarrow> triple (I ys acc) (f acc x) (I (ys @ [x])) E"
  shows "triple (I [] acc) (each f acc xs) (I xs) E"
proof -
  have "triple (I ys acc) (each f acc zs) (I xs) E" if "xs = ys @ zs" for ys zs acc
    using that
  proof (induction zs arbitrary: ys acc)
    case Nil
    then show ?case by (simp add: triple_def ret_def)
  next
    case (Cons x zs)
    have "triple (I ys acc) (f acc x) (I (ys @ [x])) E" using assms Cons.prems by blast
    then show ?case using Cons.IH[of "ys @ [x]"] Cons.prems by (auto intro: triple_bnd)
  qed
  from this[of "[]" xs acc] show ?thesis by simp
qed

text \<open>What a triple says of one run.\<close>

lemma triple_run:
  assumes "triple P m Q E" "P s"
  obtains (ok) x s' where "m s = (Ok x, s')" "Q x s'" | (fail) e s' where "m s = (Fail e, s')" "E e s'"
  using assms unfolding triple_def by (cases "m s"; cases "fst (m s)") (auto dest: spec[of _ s])

end
