(* ===== verification/Json.thy ===== *)
theory Json
  imports GoText
begin

text \<open>
  JSON documents as the program reads and writes them: the field tree, the strict reader behind
  \<^verbatim>\<open>canonical.decodeJSON\<close> (well-formed UTF-8, no duplicate names, no lone surrogates, at most
  10000 nested containers, nothing after the value) as a lexer and a pushdown machine over its
  tokens, and the compact writer with \<^verbatim>\<open>jsonQuote\<close>. Reading what the writer wrote gives the
  tree back.
\<close>

section \<open>Field trees\<close>

text \<open>The numbers are a parameter: token strings while reading, doubles once decoded.\<close>

datatype 'n json =
    JNull
  | JBool bool
  | JNum 'n
  | JStr string
  | JArr "'n json list"
  | JObj "(string \<times> 'n json) list"

fun depth :: "'n json \<Rightarrow> nat" where
  "depth (JArr vs) = Suc (fold max (map depth vs) 0)"
| "depth (JObj ms) = Suc (fold max (map (depth \<circ> snd) ms) 0)"
| "depth _ = 0"

text \<open>Every object has distinct, well-formed names; every string is well-formed.\<close>

fun wf_json :: "'n json \<Rightarrow> bool" where
  "wf_json (JArr vs) = list_all wf_json vs"
| "wf_json (JObj ms) = (distinct (map fst ms) \<and> list_all (\<lambda>m. valid_utf8 (fst m) \<and> wf_json (snd m)) ms)"
| "wf_json (JStr s) = valid_utf8 s"
| "wf_json _ = True"

section \<open>Tokens\<close>

datatype token =
    TNull | TBool bool | TNum string | TStr string
  | TLBrack | TRBrack | TLBrace | TRBrace | TComma | TColon

definition is_digit :: "char \<Rightarrow> bool" where
  "is_digit c = (48 \<le> byte c \<and> byte c \<le> 57)"

definition num_char :: "char \<Rightarrow> bool" where
  "num_char c = (is_digit c \<or> c \<in> {CHR ''-'', CHR ''+'', CHR ''.'', CHR ''e'', CHR ''E''})"

definition starts_digit :: "string \<Rightarrow> bool" where
  "starts_digit s = (s \<noteq> [] \<and> is_digit (hd s))"

definition num_int :: "string \<Rightarrow> string option" where
  "num_int s =
     (case s of
        [] \<Rightarrow> None
      | c # cs \<Rightarrow> if c = CHR ''0'' then Some cs
                  else if is_digit c then Some (dropWhile is_digit cs) else None)"

definition num_frac :: "string \<Rightarrow> string option" where
  "num_frac s =
     (case s of
        [] \<Rightarrow> Some []
      | c # cs \<Rightarrow> if c \<noteq> CHR ''.'' then Some s
                  else if starts_digit cs then Some (dropWhile is_digit cs) else None)"

definition num_exp :: "string \<Rightarrow> string option" where
  "num_exp s =
     (case s of
        [] \<Rightarrow> Some []
      | c # cs \<Rightarrow>
          if c \<noteq> CHR ''e'' \<and> c \<noteq> CHR ''E'' then Some s
          else (let ds = (case cs of [] \<Rightarrow> [] | d # ds \<Rightarrow> if d = CHR ''+'' \<or> d = CHR ''-'' then ds else cs)
                in if starts_digit ds then Some (dropWhile is_digit ds) else None))"

definition strip_minus :: "string \<Rightarrow> string" where
  "strip_minus s = (case s of [] \<Rightarrow> [] | c # cs \<Rightarrow> if c = CHR ''-'' then cs else s)"

text \<open>The grammar of a JSON number token.\<close>

definition json_number :: "string \<Rightarrow> bool" where
  "json_number t =
     (case num_int (strip_minus t) of
        None \<Rightarrow> False
      | Some r \<Rightarrow> (case num_frac r of None \<Rightarrow> False | Some r' \<Rightarrow> num_exp r' = Some []))"

definition hex_val :: "char \<Rightarrow> nat option" where
  "hex_val c =
     (if is_digit c then Some (byte c - 48)
      else if 97 \<le> byte c \<and> byte c \<le> 102 then Some (byte c - 87)
      else if 65 \<le> byte c \<and> byte c \<le> 70 then Some (byte c - 55)
      else None)"

fun hex4 :: "string \<Rightarrow> (nat \<times> string) option" where
  "hex4 (a # b # c # d # rest) =
     (case (hex_val a, hex_val b, hex_val c, hex_val d) of
        (Some w, Some x, Some y, Some z) \<Rightarrow> Some (4096 * w + 256 * x + 16 * y + z, rest)
      | _ \<Rightarrow> None)"
| "hex4 _ = None"

text \<open>What follows \<^verbatim>\<open>\u\<close>: a scalar, or a surrogate pair; a lone surrogate is refused.\<close>

definition lex_unicode :: "string \<Rightarrow> (nat \<times> string) option" where
  "lex_unicode s =
     (case hex4 s of
        None \<Rightarrow> None
      | Some (u, rest) \<Rightarrow>
          if scalar u then Some (u, rest)
          else if u \<ge> 56320 then None
          else (case rest of
                  x # y # more \<Rightarrow>
                    if x = CHR 0x5C \<and> y = CHR ''u'' then
                      (case hex4 more of
                         Some (l, rest') \<Rightarrow>
                           if 56320 \<le> l \<and> l \<le> 57343
                           then Some (65536 + (u - 55296) * 1024 + (l - 56320), rest') else None
                       | None \<Rightarrow> None)
                    else None
                | _ \<Rightarrow> None))"

definition lex_escape :: "string \<Rightarrow> (nat \<times> string) option" where
  "lex_escape s =
     (case s of
        [] \<Rightarrow> None
      | c # cs \<Rightarrow>
          if c = CHR 0x22 \<or> c = CHR 0x5C \<or> c = CHR ''/'' then Some (byte c, cs)
          else if c = CHR ''b'' then Some (8, cs)
          else if c = CHR ''f'' then Some (12, cs)
          else if c = CHR ''n'' then Some (10, cs)
          else if c = CHR ''r'' then Some (13, cs)
          else if c = CHR ''t'' then Some (9, cs)
          else if c = CHR ''u'' then lex_unicode cs
          else None)"

lemma hex4_length: "hex4 s = Some (u, rest) \<Longrightarrow> length rest < length s"
  by (induction s rule: hex4.induct) (auto split: option.splits)

lemma lex_escape_length: "lex_escape s = Some (u, rest) \<Longrightarrow> length rest < length s"
  by (auto simp: lex_escape_def lex_unicode_def dest!: hex4_length
      split: list.splits option.splits if_splits)

text \<open>The body of a string token after its opening quote: the runes and what follows the closing quote.\<close>

function lex_string :: "string \<Rightarrow> (nat list \<times> string) option" where
  "lex_string s =
     (case s of
        [] \<Rightarrow> None
      | c # cs \<Rightarrow>
          if c = CHR 0x22 then Some ([], cs)
          else if c = CHR 0x5C then
            (case lex_escape cs of
               None \<Rightarrow> None
             | Some (r, rest) \<Rightarrow> map_option (\<lambda>(rs, more). (r # rs, more)) (lex_string rest))
          else if byte c < 32 \<or> decode_rune s = (rune_error, 1) then None
          else map_option (\<lambda>(rs, more). (fst (decode_rune s) # rs, more))
                 (lex_string (drop (snd (decode_rune s)) s)))"
  by pat_completeness auto
termination
proof (relation "measure length")
  fix s c cs x r rest
  assume "s = c # cs" "lex_escape cs = Some x" "(r, rest) = x"
  then show "(rest, s) \<in> measure length" using lex_escape_length[of cs r rest] by auto
next
  fix s c cs
  assume "s = (c :: char) # cs"
  then show "(drop (snd (decode_rune s)) s, s) \<in> measure length"
    using decode_rune_size[of s] by auto
qed simp

declare lex_string.simps [simp del]

lemma lex_string_length: "lex_string s = Some (rs, rest) \<Longrightarrow> length rest < length s"
proof (induction s arbitrary: rs rest rule: lex_string.induct)
  case (1 s)
  show ?case
  proof (cases s)
    case Nil
    then show ?thesis using "1.prems" by (simp add: lex_string.simps)
  next
    case (Cons c cs)
    consider "c = CHR 0x22" | "c = CHR 0x5C" | "c \<noteq> CHR 0x22" "c \<noteq> CHR 0x5C" by blast
    then show ?thesis
    proof cases
      case 1
      then show ?thesis using "1.prems" Cons by (simp add: lex_string.simps)
    next
      case 2
      then obtain r more rs' where e: "lex_escape cs = Some (r, more)" "lex_string more = Some (rs', rest)"
        using "1.prems" Cons
        by (subst (asm) lex_string.simps) (auto split: option.splits if_splits)
      have "c \<noteq> CHR 0x22" using 2 by simp
      then have "length rest < length more" using "1.IH"(1)[OF Cons _ 2 e(1) refl e(2)] by simp
      then show ?thesis using lex_escape_length[OF e(1)] Cons by simp
    next
      case 3
      then obtain rs' where e: "lex_string (drop (snd (decode_rune s)) s) = Some (rs', rest)"
        and ok: "\<not> (byte c < 32 \<or> decode_rune s = (rune_error, 1))"
        using "1.prems" Cons
        by (subst (asm) lex_string.simps) (auto split: option.splits if_splits)
      show ?thesis using "1.IH"(2)[OF Cons 3 ok e] decode_rune_size[of s] Cons by simp
    qed
  qed
qed

definition is_space :: "char \<Rightarrow> bool" where
  "is_space c = (byte c \<in> {32, 9, 10, 13})"

definition lex_token :: "string \<Rightarrow> (token \<times> string) option" where
  "lex_token s =
     (case s of
        [] \<Rightarrow> None
      | c # cs \<Rightarrow>
          if c = CHR 0x5B then Some (TLBrack, cs)
          else if c = CHR 0x5D then Some (TRBrack, cs)
          else if c = CHR 0x7B then Some (TLBrace, cs)
          else if c = CHR 0x7D then Some (TRBrace, cs)
          else if c = CHR 0x2C then Some (TComma, cs)
          else if c = CHR 0x3A then Some (TColon, cs)
          else if c = CHR 0x22 then map_option (\<lambda>(rs, rest). (TStr (encode_runes rs), rest)) (lex_string cs)
          else if num_char c then
            (if json_number (takeWhile num_char s)
             then Some (TNum (takeWhile num_char s), dropWhile num_char s) else None)
          else if has_prefix s ''null'' then Some (TNull, drop 4 s)
          else if has_prefix s ''true'' then Some (TBool True, drop 4 s)
          else if has_prefix s ''false'' then Some (TBool False, drop 5 s)
          else None)"

lemma lex_token_length: "lex_token s = Some (t, rest) \<Longrightarrow> length rest < length s"
proof (cases s)
  case (Cons c cs)
  have "length (dropWhile num_char cs) < Suc (length cs)"
    using length_dropWhile_le[of num_char cs] by simp
  moreover assume "lex_token s = Some (t, rest)"
  ultimately show ?thesis
    using Cons by (auto simp: lex_token_def dest!: lex_string_length split: if_splits)
qed (simp add: lex_token_def)

function lex_json :: "string \<Rightarrow> token list option" where
  "lex_json s =
     (case s of
        [] \<Rightarrow> Some []
      | c # cs \<Rightarrow>
          if is_space c then lex_json cs
          else (case lex_token s of
                  None \<Rightarrow> None
                | Some (t, rest) \<Rightarrow> map_option (Cons t) (lex_json rest)))"
  by pat_completeness auto
termination
proof (relation "measure length")
  fix s c cs x t rest
  assume "s = c # cs" "lex_token s = Some x" "(t, rest) = x"
  then show "(rest, s) \<in> measure length" using lex_token_length[of s t rest] by auto
qed simp_all

declare lex_json.simps [simp del]

section \<open>The pushdown machine\<close>

text \<open>
  A frame is an open container: an array with its elements so far, an object with its members so
  far, or an object that has read a name and waits for its value. The mode says what the grammar
  allows next.
\<close>

datatype frame =
    FArr "string json list"
  | FObj "(string \<times> string json) list"
  | FKey "(string \<times> string json) list" string

datatype mode = MValue | MFirst | MNameOrEnd | MName | MColon | MAfter | MDone "string json"

definition max_nesting :: nat where
  "max_nesting = 10000"

definition deliver :: "string json \<Rightarrow> frame list \<Rightarrow> (frame list \<times> mode) option" where
  "deliver v st =
     (case st of
        [] \<Rightarrow> Some ([], MDone v)
      | FArr vs # rest \<Rightarrow> Some (FArr (vs @ [v]) # rest, MAfter)
      | FKey ms k # rest \<Rightarrow> Some (FObj (ms @ [(k, v)]) # rest, MAfter)
      | FObj ms # rest \<Rightarrow> None)"

definition push_frame :: "frame \<Rightarrow> mode \<Rightarrow> frame list \<Rightarrow> (frame list \<times> mode) option" where
  "push_frame f m st = (if length st < max_nesting then Some (f # st, m) else None)"

definition value_step :: "frame list \<Rightarrow> token \<Rightarrow> (frame list \<times> mode) option" where
  "value_step st t =
     (case t of
        TNull \<Rightarrow> deliver JNull st
      | TBool b \<Rightarrow> deliver (JBool b) st
      | TNum n \<Rightarrow> deliver (JNum n) st
      | TStr x \<Rightarrow> deliver (JStr x) st
      | TLBrack \<Rightarrow> push_frame (FArr []) MFirst st
      | TLBrace \<Rightarrow> push_frame (FObj []) MNameOrEnd st
      | _ \<Rightarrow> None)"

definition name_step :: "frame list \<Rightarrow> string \<Rightarrow> (frame list \<times> mode) option" where
  "name_step st k =
     (case st of
        FObj ms # rest \<Rightarrow> if k \<in> fst ` set ms then None else Some (FKey ms k # rest, MColon)
      | _ \<Rightarrow> None)"

definition close_step :: "frame list \<Rightarrow> token \<Rightarrow> (frame list \<times> mode) option" where
  "close_step st t =
     (case st of
        FArr vs # rest \<Rightarrow> if t = TRBrack then deliver (JArr vs) rest else None
      | FObj ms # rest \<Rightarrow> if t = TRBrace then deliver (JObj ms) rest else None
      | _ \<Rightarrow> None)"

definition parse_step :: "frame list \<times> mode \<Rightarrow> token \<Rightarrow> (frame list \<times> mode) option" where
  "parse_step c t =
     (let st = fst c in
      case snd c of
        MValue \<Rightarrow> value_step st t
      | MFirst \<Rightarrow> if t = TRBrack then close_step st t else value_step st t
      | MNameOrEnd \<Rightarrow> if t = TRBrace then close_step st t
                      else (case t of TStr k \<Rightarrow> name_step st k | _ \<Rightarrow> None)
      | MName \<Rightarrow> (case t of TStr k \<Rightarrow> name_step st k | _ \<Rightarrow> None)
      | MColon \<Rightarrow> if t = TColon then Some (st, MValue) else None
      | MAfter \<Rightarrow>
          if t = TComma then
            (case st of FArr vs # _ \<Rightarrow> Some (st, MValue) | FObj ms # _ \<Rightarrow> Some (st, MName) | _ \<Rightarrow> None)
          else close_step st t
      | MDone v \<Rightarrow> None)"

fun parse_run :: "frame list \<times> mode \<Rightarrow> token list \<Rightarrow> (frame list \<times> mode) option" where
  "parse_run c [] = Some c"
| "parse_run c (t # ts) = (case parse_step c t of None \<Rightarrow> None | Some c' \<Rightarrow> parse_run c' ts)"

text \<open>The strict reader of a whole document.\<close>

definition read_json :: "bytes \<Rightarrow> string json option" where
  "read_json data =
     (case lex_json data of
        None \<Rightarrow> None
      | Some ts \<Rightarrow> (case parse_run ([], MValue) ts of Some ([], MDone v) \<Rightarrow> Some v | _ \<Rightarrow> None))"

section \<open>The writer\<close>

definition hex_digit :: "nat \<Rightarrow> char" where
  "hex_digit d = char_of (if d < 10 then 48 + d else 87 + d)"

definition quote_rune :: "nat \<Rightarrow> string" where
  "quote_rune r =
     (if r = 34 then [CHR 0x5C, CHR 0x22]
      else if r = 92 then [CHR 0x5C, CHR 0x5C]
      else if r = 8 then [CHR 0x5C, CHR ''b'']
      else if r = 9 then [CHR 0x5C, CHR ''t'']
      else if r = 10 then [CHR 0x5C, CHR ''n'']
      else if r = 12 then [CHR 0x5C, CHR ''f'']
      else if r = 13 then [CHR 0x5C, CHR ''r'']
      else if r < 32 then
        [CHR 0x5C, CHR ''u'', CHR ''0'', CHR ''0'', hex_digit (r div 16), hex_digit (r mod 16)]
      else encode_rune r)"

definition jsonQuote :: "string \<Rightarrow> string" where
  "jsonQuote s = [CHR 0x22] @ concat (map quote_rune (runes s)) @ [CHR 0x22]"

fun tok_text :: "token \<Rightarrow> string" where
  "tok_text TNull = ''null''"
| "tok_text (TBool b) = (if b then ''true'' else ''false'')"
| "tok_text (TNum t) = t"
| "tok_text (TStr s) = jsonQuote s"
| "tok_text TLBrack = [CHR 0x5B]"
| "tok_text TRBrack = [CHR 0x5D]"
| "tok_text TLBrace = [CHR 0x7B]"
| "tok_text TRBrace = [CHR 0x7D]"
| "tok_text TComma = [CHR 0x2C]"
| "tok_text TColon = [CHR 0x3A]"

text \<open>Comma separation, and the tokens of a tree.\<close>

fun comma_sep :: "token list list \<Rightarrow> token list" where
  "comma_sep [] = []"
| "comma_sep [x] = x"
| "comma_sep (x # xs) = x @ TComma # comma_sep xs"

fun toks :: "string json \<Rightarrow> token list" where
  "toks JNull = [TNull]"
| "toks (JBool b) = [TBool b]"
| "toks (JNum t) = [TNum t]"
| "toks (JStr s) = [TStr s]"
| "toks (JArr vs) = TLBrack # comma_sep (map toks vs) @ [TRBrack]"
| "toks (JObj ms) = TLBrace # comma_sep (map (\<lambda>m. TStr (fst m) # TColon # toks (snd m)) ms) @ [TRBrace]"

section \<open>Quoting round trip\<close>

lemma hex_val_digit: "d < 16 \<Longrightarrow> hex_val (hex_digit d) = Some d"
  by (auto simp: hex_val_def hex_digit_def is_digit_def)

lemma byte_inject: "byte c = byte d \<longleftrightarrow> c = d"
  using of_char_eq_iff by blast

lemma encode_rune_first:
  assumes "scalar r" "128 \<le> r"
  obtains c cs where "encode_rune r = c # cs" "194 \<le> byte c" "cs \<noteq> []"
proof -
  have a: "r < 2048 \<Longrightarrow> 2 \<le> r div 64 \<and> r div 64 < 32" using assms(2) by auto
  have b: "r div 4096 < 16" if "r < 65536" using that by linarith
  have c: "r div 262144 < 5" using assms(1) by (auto simp: scalar_def)
  consider "r < 2048" | "2048 \<le> r" "r < 65536" | "65536 \<le> r" by linarith
  then show thesis
  proof cases
    case 1
    then show thesis using that assms a by (simp add: encode_rune_def Let_def)
  next
    case 2
    then show thesis using that assms b by (simp add: encode_rune_def Let_def)
  next
    case 3
    then show thesis using that assms c by (simp add: encode_rune_def Let_def)
  qed
qed

lemma lex_string_plain:
  assumes "scalar r" "32 \<le> r" "r \<noteq> 34" "r \<noteq> 92"
  shows "lex_string (encode_rune r @ tail)
    = map_option (\<lambda>(rs, more). (r # rs, more)) (lex_string tail)"
proof -
  obtain c cs where c: "encode_rune r = c # cs" "32 \<le> byte c" "byte c \<noteq> 34" "byte c \<noteq> 92"
    and err: "decode_rune (encode_rune r @ tail) \<noteq> (rune_error, 1)"
  proof (cases "r < 128")
    case True
    then show thesis
      using assms by (intro that[of "char_of r" "[]"])
        (simp_all add: encode_rune_def Let_def rune_error_def)
  next
    case False
    then obtain c cs where "encode_rune r = c # cs" "194 \<le> byte c" "cs \<noteq> []"
      using encode_rune_first[OF assms(1)] by (metis linorder_not_less)
    then show thesis
      using decode_encode_rune[OF assms(1), of tail] by (intro that[of c cs]) auto
  qed
  have neq: "c \<noteq> CHR 0x22" "c \<noteq> CHR 0x5C" using c(3,4) by auto
  show ?thesis
    using c neq err decode_encode_rune[OF assms(1), of tail]
    by (subst lex_string.simps) (auto simp: not_less)
qed

lemma lex_string_quote_rune:
  assumes "scalar r"
  shows "lex_string (quote_rune r @ tail) = map_option (\<lambda>(rs, more). (r # rs, more)) (lex_string tail)"
proof (cases "r \<in> {34, 92, 8, 9, 10, 12, 13}")
  case True
  then show ?thesis
    by (subst lex_string.simps) (auto simp: quote_rune_def lex_escape_def)
next
  case False
  show ?thesis
  proof (cases "r < 32")
    case True
    have hex: "hex4 (CHR ''0'' # CHR ''0'' # hex_digit (r div 16) # hex_digit (r mod 16) # tail)
      = Some (r, tail)"
      using True by (simp add: hex_val_digit) (simp add: hex_val_def is_digit_def)
    have "lex_escape (CHR ''u'' # CHR ''0'' # CHR ''0'' # hex_digit (r div 16) # hex_digit (r mod 16) # tail)
      = Some (r, tail)"
      using True hex by (simp add: lex_escape_def lex_unicode_def scalar_def del: hex4.simps)
    then show ?thesis using True False by (subst lex_string.simps) (simp add: quote_rune_def)
  next
    case noctl: False
    then have "quote_rune r = encode_rune r" using False by (simp add: quote_rune_def)
    then show ?thesis using lex_string_plain assms False noctl by simp
  qed
qed

lemma lex_string_quote:
  assumes "\<forall>r \<in> set rs. scalar r"
  shows "lex_string (concat (map quote_rune rs) @ CHR 0x22 # rest) = Some (rs, rest)"
  using assms
proof (induction rs)
  case Nil
  then show ?case by (simp add: lex_string.simps)
next
  case (Cons r rs)
  then show ?case by (simp add: lex_string_quote_rune)
qed

lemma lex_token_quote:
  assumes "valid_utf8 s"
  shows "lex_token (jsonQuote s @ rest) = Some (TStr s, rest)"
  using assms lex_string_quote[of "runes s" rest] runes_scalar
  by (simp add: lex_token_def jsonQuote_def valid_utf8_def)

section \<open>Lexing what was written\<close>

definition wf_token :: "token \<Rightarrow> bool" where
  "wf_token t =
     (case t of
        TNum n \<Rightarrow> json_number n \<and> n \<noteq> [] \<and> list_all num_char n
      | TStr s \<Rightarrow> valid_utf8 s
      | _ \<Rightarrow> True)"

text \<open>A number is followed by a token that starts with no number character.\<close>

fun separated :: "token list \<Rightarrow> bool" where
  "separated (TNum n # t # ts) = (\<not> (\<exists>m. t = TNum m) \<and> separated (t # ts))"
| "separated (t # ts) = separated ts"
| "separated [] = True"

lemma tok_text_first:
  assumes "wf_token t" "\<not> (\<exists>m. t = TNum m)"
  shows "\<exists>c cs. tok_text t = c # cs \<and> \<not> num_char c"
  using assms by (cases t) (auto simp: num_char_def is_digit_def jsonQuote_def)

lemma takeWhile_num:
  assumes "list_all num_char n" "rest = [] \<or> \<not> num_char (hd rest)"
  shows "takeWhile num_char (n @ rest) = n" "dropWhile num_char (n @ rest) = rest"
proof -
  have "takeWhile num_char rest = []" "dropWhile num_char rest = rest"
    using assms(2) by (cases rest; simp)+
  then show "takeWhile num_char (n @ rest) = n" "dropWhile num_char (n @ rest) = rest"
    using assms(1) by (auto simp: list_all_iff takeWhile_append2 dropWhile_append2)
qed

lemma lex_token_text:
  assumes "wf_token t" "(\<exists>n. t = TNum n) \<longrightarrow> rest = [] \<or> \<not> num_char (hd rest)"
  shows "lex_token (tok_text t @ rest) = Some (t, rest)"
proof (cases t)
  case (TNum n)
  then obtain c cs where n: "n = c # cs" "num_char c" "json_number n" "list_all num_char n"
    using assms(1) by (cases n) (auto simp: wf_token_def)
  have "rest = [] \<or> \<not> num_char (hd rest)" using assms(2) TNum by simp
  note tw = takeWhile_num[OF n(4) this]
  have "c \<notin> {CHR 0x5B, CHR 0x5D, CHR 0x7B, CHR 0x7D, CHR 0x2C, CHR 0x3A, CHR 0x22}"
    using n(2) by (auto simp: num_char_def is_digit_def)
  then show ?thesis using n tw TNum by (simp add: lex_token_def)
next
  case (TStr s)
  then show ?thesis using assms(1) lex_token_quote by (simp add: wf_token_def)
qed (auto simp: lex_token_def has_prefix_def num_char_def is_digit_def)

lemma tok_text_start:
  assumes "wf_token t"
  shows "\<exists>c cs. tok_text t = c # cs \<and> \<not> is_space c"
proof (cases t)
  case (TNum n)
  then show ?thesis
    using assms by (cases n) (auto simp: wf_token_def num_char_def is_digit_def is_space_def)
qed (auto simp: jsonQuote_def is_space_def)

lemma separated_Cons [simp]: "\<not> (\<exists>m. t = TNum m) \<Longrightarrow> separated (t # ts) = separated ts"
  by (cases t) auto

lemma separated_num:
  "separated (TNum n # ts) \<longleftrightarrow> (ts = [] \<or> \<not> (\<exists>m. hd ts = TNum m)) \<and> separated ts"
  by (cases ts) auto

lemma lex_texts:
  assumes "list_all wf_token ts" "separated ts"
  shows "lex_json (concat (map tok_text ts)) = Some ts"
  using assms
proof (induction ts)
  case Nil
  then show ?case by (simp add: lex_json.simps)
next
  case (Cons t ts)
  obtain c cs where c: "tok_text t = c # cs" "\<not> is_space c"
    using tok_text_start[of t] Cons.prems by auto
  have sep: "separated ts" "(\<exists>n. t = TNum n) \<longrightarrow> ts = [] \<or> \<not> (\<exists>m. hd ts = TNum m)"
    using Cons.prems(2) by (cases t; auto simp: separated_num)+
  have "(\<exists>n. t = TNum n) \<longrightarrow> concat (map tok_text ts) = [] \<or> \<not> num_char (hd (concat (map tok_text ts)))"
  proof
    assume "\<exists>n. t = TNum n"
    then show "concat (map tok_text ts) = [] \<or> \<not> num_char (hd (concat (map tok_text ts)))"
      using sep(2) tok_text_first[of "hd ts"] Cons.prems(1) by (cases ts) auto
  qed
  then have "lex_token (tok_text t @ concat (map tok_text ts)) = Some (t, concat (map tok_text ts))"
    using Cons.prems(1) lex_token_text by simp
  then show ?case
    using Cons.IH sep(1) Cons.prems(1) c by (subst lex_json.simps) simp
qed

lemma separated_comma_sep:
  assumes "\<And>x ts'. x \<in> set xs \<Longrightarrow> separated ts' \<Longrightarrow> ts' = [] \<or> \<not> (\<exists>m. hd ts' = TNum m) \<Longrightarrow> separated (x @ ts')"
    and "separated ts" "ts = [] \<or> \<not> (\<exists>m. hd ts = TNum m)"
  shows "separated (comma_sep xs @ ts)"
  using assms by (induction xs rule: comma_sep.induct) auto

lemma separated_toks:
  "separated ts \<Longrightarrow> ts = [] \<or> \<not> (\<exists>m. hd ts = TNum m) \<Longrightarrow> separated (toks v @ ts)"
proof (induction v arbitrary: ts)
  case (JArr vs)
  have "separated (comma_sep (map toks vs) @ TRBrack # ts)"
  proof (rule separated_comma_sep)
    fix x ts'
    assume "x \<in> set (map toks vs)" and ts': "separated ts'" "ts' = [] \<or> \<not> (\<exists>m. hd ts' = TNum m)"
    then obtain v where "v \<in> set vs" "x = toks v" by auto
    then show "separated (x @ ts')" using JArr.IH[OF _ ts'] by simp
  qed (use JArr.prems in auto)
  then show ?case by simp
next
  case (JObj ms)
  have "separated (comma_sep (map (\<lambda>m. TStr (fst m) # TColon # toks (snd m)) ms) @ TRBrace # ts)"
  proof (rule separated_comma_sep)
    fix x ts'
    assume "x \<in> set (map (\<lambda>m. TStr (fst m) # TColon # toks (snd m)) ms)"
      and ts': "separated ts'" "ts' = [] \<or> \<not> (\<exists>m. hd ts' = TNum m)"
    then obtain m where "m \<in> set ms" "x = TStr (fst m) # TColon # toks (snd m)" by auto
    then show "separated (x @ ts')" using JObj.IH[of m "snd m", OF _ _ ts'] by (simp add: snds.intros)
  qed (use JObj.prems in auto)
  then show ?case by simp
qed (auto simp: separated_num)

section \<open>Parsing the tokens of a tree\<close>

definition run_deliver :: "string json \<Rightarrow> frame list \<Rightarrow> token list \<Rightarrow> (frame list \<times> mode) option" where
  "run_deliver v st ts = (case deliver v st of None \<Rightarrow> None | Some c \<Rightarrow> parse_run c ts)"

definition parses :: "string json \<Rightarrow> bool" where
  "parses v = (\<forall>st m ts. m = MValue \<or> m = MFirst \<longrightarrow> depth v + length st \<le> max_nesting \<longrightarrow>
     parse_run (st, m) (toks v @ ts) = run_deliver v st ts)"

lemma parsesD:
  "parses v \<Longrightarrow> m = MValue \<or> m = MFirst \<Longrightarrow> depth v + length st \<le> max_nesting \<Longrightarrow>
     parse_run (st, m) (toks v @ ts) = run_deliver v st ts"
  unfolding parses_def by blast

lemma fold_max_le: "x \<in> set xs \<Longrightarrow> x \<le> fold max xs (n :: nat)"
  by (metis Max.set_eq_fold Max_ge List.finite_set list.set_intros(2) set_simps(2))

lemma parse_elems:
  assumes "\<And>v. v \<in> set vs \<Longrightarrow> parses v \<and> depth v + Suc (length st) \<le> max_nesting"
    and "m = MFirst \<or> (m = MValue \<and> vs \<noteq> [])"
  shows "parse_run (FArr acc # st, m) (comma_sep (map toks vs) @ TRBrack # ts)
    = run_deliver (JArr (acc @ vs)) st ts"
  using assms
proof (induction vs arbitrary: acc m rule: induct_list012)
  case 1
  then show ?case by (simp add: parse_step_def close_step_def run_deliver_def)
next
  case (2 v)
  have "parse_run (FArr acc # st, m) (toks v @ TRBrack # ts) = run_deliver v (FArr acc # st) (TRBrack # ts)"
    using "2.prems"(1)[of v] "2.prems"(2) by (intro parsesD) auto
  then show ?case
    by (simp add: run_deliver_def deliver_def parse_step_def close_step_def)
next
  case (3 v w vs)
  have "parse_run (FArr acc # st, m) (toks v @ TComma # comma_sep (map toks (w # vs)) @ TRBrack # ts)
    = run_deliver v (FArr acc # st) (TComma # comma_sep (map toks (w # vs)) @ TRBrack # ts)"
    using "3.prems"(1)[of v] "3.prems"(2) by (intro parsesD) auto
  also have "\<dots> = parse_run (FArr (acc @ [v]) # st, MValue) (comma_sep (map toks (w # vs)) @ TRBrack # ts)"
    by (simp add: run_deliver_def deliver_def parse_step_def)
  also have "\<dots> = run_deliver (JArr ((acc @ [v]) @ w # vs)) st ts"
    by (rule "3.IH"(2)) (use "3.prems"(1) in auto)
  finally show ?case by simp
qed

abbreviation member_toks :: "string \<times> string json \<Rightarrow> token list" where
  "member_toks m \<equiv> TStr (fst m) # TColon # toks (snd m)"

lemma parse_members:
  assumes "\<And>x. x \<in> set ms \<Longrightarrow> parses (snd x) \<and> depth (snd x) + Suc (length st) \<le> max_nesting"
    and "distinct (map fst (acc @ ms))" and "m = MNameOrEnd \<or> (m = MName \<and> ms \<noteq> [])"
  shows "parse_run (FObj acc # st, m) (comma_sep (map member_toks ms) @ TRBrace # ts)
    = run_deliver (JObj (acc @ ms)) st ts"
  using assms
proof (induction ms arbitrary: acc m rule: induct_list012)
  case 1
  then show ?case by (simp add: parse_step_def close_step_def run_deliver_def)
next
  case (2 x)
  have "fst x \<notin> fst ` set acc" using "2.prems"(2) by auto
  then have "parse_run (FObj acc # st, m) (member_toks x @ TRBrace # ts)
    = parse_run (FKey acc (fst x) # st, MValue) (toks (snd x) @ TRBrace # ts)"
    using "2.prems"(3) by (auto simp: parse_step_def name_step_def)
  also have "\<dots> = run_deliver (snd x) (FKey acc (fst x) # st) (TRBrace # ts)"
    using "2.prems"(1)[of x] by (intro parsesD) auto
  finally show ?case
    by (simp add: run_deliver_def deliver_def parse_step_def close_step_def)
next
  case (3 x y ms)
  have "fst x \<notin> fst ` set acc" using "3.prems"(2) by auto
  then have "parse_run (FObj acc # st, m) (member_toks x @ TComma # comma_sep (map member_toks (y # ms)) @ TRBrace # ts)
    = parse_run (FKey acc (fst x) # st, MValue)
        (toks (snd x) @ TComma # comma_sep (map member_toks (y # ms)) @ TRBrace # ts)"
    using "3.prems"(3) by (auto simp: parse_step_def name_step_def)
  also have "\<dots> = run_deliver (snd x) (FKey acc (fst x) # st)
      (TComma # comma_sep (map member_toks (y # ms)) @ TRBrace # ts)"
    using "3.prems"(1)[of x] by (intro parsesD) auto
  also have "\<dots> = parse_run (FObj (acc @ [x]) # st, MName) (comma_sep (map member_toks (y # ms)) @ TRBrace # ts)"
    by (simp add: run_deliver_def deliver_def parse_step_def)
  also have "\<dots> = run_deliver (JObj ((acc @ [x]) @ y # ms)) st ts"
    by (rule "3.IH"(2)) (use "3.prems"(1,2) in auto)
  finally show ?case by simp
qed

lemma parses_all: "wf_json v \<Longrightarrow> parses v"
proof (induction v)
  case (JArr vs)
  show ?case
    unfolding parses_def
  proof (intro allI impI)
    fix st :: "frame list" and m ts
    assume m: "m = MValue \<or> m = MFirst" and d: "depth (JArr vs) + length st \<le> max_nesting"
    have "parses v \<and> depth v + Suc (length st) \<le> max_nesting" if "v \<in> set vs" for v
      using JArr that d fold_max_le[of "depth v" "map depth vs" 0] by (auto simp: list_all_iff)
    then have "parse_run (FArr [] # st, MFirst) (comma_sep (map toks vs) @ TRBrack # ts)
      = run_deliver (JArr vs) st ts"
      using parse_elems[of vs st MFirst "[]" ts] by simp
    moreover have "parse_step (st, m) TLBrack = Some (FArr [] # st, MFirst)"
      using m d by (auto simp: parse_step_def value_step_def push_frame_def)
    ultimately show "parse_run (st, m) (toks (JArr vs) @ ts) = run_deliver (JArr vs) st ts" by simp
  qed
next
  case (JObj ms)
  show ?case
    unfolding parses_def
  proof (intro allI impI)
    fix st :: "frame list" and m ts
    assume m: "m = MValue \<or> m = MFirst" and d: "depth (JObj ms) + length st \<le> max_nesting"
    have "parses (snd x) \<and> depth (snd x) + Suc (length st) \<le> max_nesting" if x: "x \<in> set ms" for x
      using JObj.IH[OF x, of "snd x"] JObj.prems x d
        fold_max_le[of "depth (snd x)" "map (depth \<circ> snd) ms" 0]
      by (auto simp: list_all_iff snds.intros)
    then have "parse_run (FObj [] # st, MNameOrEnd) (comma_sep (map member_toks ms) @ TRBrace # ts)
      = run_deliver (JObj ms) st ts"
      using parse_members[of ms st "[]" MNameOrEnd ts] JObj.prems by simp
    moreover have "parse_step (st, m) TLBrace = Some (FObj [] # st, MNameOrEnd)"
      using m d by (auto simp: parse_step_def value_step_def push_frame_def)
    ultimately show "parse_run (st, m) (toks (JObj ms) @ ts) = run_deliver (JObj ms) st ts" by simp
  qed
qed (auto simp: parses_def parse_step_def value_step_def run_deliver_def split: option.splits)

section \<open>Reading back\<close>

fun numbers_ok :: "string json \<Rightarrow> bool" where
  "numbers_ok (JArr vs) = list_all numbers_ok vs"
| "numbers_ok (JObj ms) = list_all (\<lambda>m. numbers_ok (snd m)) ms"
| "numbers_ok (JNum t) = (json_number t \<and> t \<noteq> [] \<and> list_all num_char t)"
| "numbers_ok _ = True"

definition text_of :: "string json \<Rightarrow> string" where
  "text_of v = concat (map tok_text (toks v))"

lemma wf_token_simps [simp]:
  "wf_token TNull" "wf_token (TBool b)" "wf_token TLBrack" "wf_token TRBrack" "wf_token TLBrace"
  "wf_token TRBrace" "wf_token TComma" "wf_token TColon" "wf_token (TStr s) = valid_utf8 s"
  "wf_token (TNum t) = (json_number t \<and> t \<noteq> [] \<and> list_all num_char t)"
  by (simp_all add: wf_token_def)

lemma wf_token_comma_sep:
  "list_all wf_token (comma_sep xs) \<longleftrightarrow> list_all (list_all wf_token) xs"
  by (induction xs rule: comma_sep.induct) auto

lemma wf_token_toks: "wf_json v \<Longrightarrow> numbers_ok v \<Longrightarrow> list_all wf_token (toks v)"
proof (induction v)
  case (JArr vs)
  then have "list_all (list_all wf_token) (map toks vs)" by (simp add: list_all_iff)
  then show ?case by (simp add: wf_token_comma_sep del: list.pred_map)
next
  case (JObj ms)
  have "list_all wf_token (member_toks x)" if "x \<in> set ms" for x
    using JObj.IH[OF that, of "snd x"] JObj.prems that by (simp add: list_all_iff snds.intros)
  then have "list_all (list_all wf_token) (map member_toks ms)" unfolding list_all_iff by auto
  then show ?case by (simp add: wf_token_comma_sep del: list.pred_map)
qed auto

theorem read_text_of:
  assumes "wf_json v" "numbers_ok v" "depth v \<le> max_nesting"
  shows "read_json (text_of v) = Some v"
proof -
  have "separated (toks v)" using separated_toks[of "[]" v] by simp
  then have "lex_json (text_of v) = Some (toks v)"
    unfolding text_of_def by (intro lex_texts wf_token_toks assms)
  moreover have "parse_run ([], MValue) (toks v) = Some ([], MDone v)"
    using parsesD[OF parses_all[OF assms(1)], of MValue "[]" "[]"] assms(3)
    by (simp add: run_deliver_def deliver_def)
  ultimately show ?thesis by (simp add: read_json_def)
qed

section \<open>What the reader accepts\<close>

definition val_ok :: "nat \<Rightarrow> string json \<Rightarrow> bool" where
  "val_ok n v = (wf_json v \<and> numbers_ok v \<and> depth v + n \<le> max_nesting)"

fun frame_ok :: "nat \<Rightarrow> frame \<Rightarrow> bool" where
  "frame_ok n (FArr vs) = (\<forall>v \<in> set vs. val_ok n v)"
| "frame_ok n (FObj ms) = (distinct (map fst ms) \<and> (\<forall>m \<in> set ms. valid_utf8 (fst m) \<and> val_ok n (snd m)))"
| "frame_ok n (FKey ms k) =
     (distinct (k # map fst ms) \<and> valid_utf8 k \<and> (\<forall>m \<in> set ms. valid_utf8 (fst m) \<and> val_ok n (snd m)))"

fun stack_ok :: "frame list \<Rightarrow> bool" where
  "stack_ok [] = True"
| "stack_ok (f # st) = (frame_ok (Suc (length st)) f \<and> length st < max_nesting \<and> stack_ok st)"

fun config_ok :: "frame list \<times> mode \<Rightarrow> bool" where
  "config_ok (st, MDone v) = (stack_ok st \<and> val_ok 0 v)"
| "config_ok (st, m) = stack_ok st"

lemma fold_max_bound: "(\<forall>x \<in> set xs. x \<le> k) \<Longrightarrow> n \<le> k \<Longrightarrow> fold max xs n \<le> (k :: nat)"
  by (induction xs arbitrary: n) auto

lemma val_ok_JArr:
  assumes "\<forall>v \<in> set vs. val_ok (Suc n) v" "n < max_nesting"
  shows "val_ok n (JArr vs)"
proof -
  have "fold max (map depth vs) 0 \<le> max_nesting - Suc n"
    using assms by (intro fold_max_bound) (auto simp: val_ok_def)
  then show ?thesis using assms by (auto simp: val_ok_def list_all_iff)
qed

lemma val_ok_JObj:
  assumes "distinct (map fst ms)" "\<forall>m \<in> set ms. valid_utf8 (fst m) \<and> val_ok (Suc n) (snd m)" "n < max_nesting"
  shows "val_ok n (JObj ms)"
proof -
  have "fold max (map (depth \<circ> snd) ms) 0 \<le> max_nesting - Suc n"
    using assms by (intro fold_max_bound) (auto simp: val_ok_def)
  then show ?thesis using assms by (auto simp: val_ok_def list_all_iff)
qed

lemma deliver_ok:
  assumes "stack_ok st" "val_ok (length st) v" "deliver v st = Some c"
  shows "config_ok c"
proof (cases st)
  case (Cons f rest)
  then show ?thesis using assms by (cases f) (auto simp: deliver_def)
qed (use assms in \<open>auto simp: deliver_def\<close>)

lemma close_step_ok:
  assumes "stack_ok st" "close_step st t = Some c"
  shows "config_ok c"
proof (cases st)
  case (Cons f rest)
  show ?thesis
  proof (cases f)
    case (FArr vs)
    then have "val_ok (length rest) (JArr vs)" using assms(1) Cons by (auto intro: val_ok_JArr)
    then show ?thesis
      using assms Cons FArr by (auto simp: close_step_def intro: deliver_ok split: if_splits)
  next
    case (FObj ms)
    then have "val_ok (length rest) (JObj ms)" using assms(1) Cons by (auto intro: val_ok_JObj)
    then show ?thesis
      using assms Cons FObj by (auto simp: close_step_def intro: deliver_ok split: if_splits)
  next
    case (FKey ms k)
    then show ?thesis using assms(2) Cons by (simp add: close_step_def)
  qed
qed (use assms in \<open>auto simp: close_step_def\<close>)

lemma stack_ok_length: "stack_ok st \<Longrightarrow> length st \<le> max_nesting"
  by (cases st) auto

lemma value_step_ok:
  assumes "stack_ok st" "wf_token t" "value_step st t = Some c"
  shows "config_ok c"
proof -
  have scalars: "val_ok (length st) JNull" "val_ok (length st) (JBool b)"
    "t = TNum n \<Longrightarrow> val_ok (length st) (JNum n)" "t = TStr x \<Longrightarrow> val_ok (length st) (JStr x)" for b n x
    using assms(2) stack_ok_length[OF assms(1)] by (auto simp: val_ok_def)
  show ?thesis
    using assms deliver_ok[OF assms(1) scalars(1)] deliver_ok[OF assms(1) scalars(2)]
      deliver_ok[OF assms(1) scalars(3)] deliver_ok[OF assms(1) scalars(4)]
    by (cases t) (auto simp: value_step_def push_frame_def split: if_splits)
qed

lemma name_step_ok:
  assumes "stack_ok st" "valid_utf8 k" "name_step st k = Some c"
  shows "config_ok c"
  using assms by (auto simp: name_step_def split: list.splits frame.splits if_splits)

lemma parse_step_ok:
  assumes "config_ok c" "wf_token t" "parse_step c t = Some c'"
  shows "config_ok c'"
proof -
  obtain st m where c: "c = (st, m)" by (cases c)
  have st: "stack_ok st" using assms(1) c by (cases m) auto
  show ?thesis
  proof (cases m)
    case MNameOrEnd
    then show ?thesis
      using assms c st close_step_ok name_step_ok
      by (auto simp: parse_step_def split: if_splits token.splits)
  next
    case MName
    then show ?thesis
      using assms c st name_step_ok by (auto simp: parse_step_def split: token.splits)
  next
    case MAfter
    then show ?thesis
      using assms c st close_step_ok
      by (auto simp: parse_step_def split: if_splits list.splits frame.splits)
  qed (use assms c st close_step_ok value_step_ok in \<open>auto simp: parse_step_def split: if_splits\<close>)
qed

lemma parse_run_ok:
  "config_ok c \<Longrightarrow> list_all wf_token ts \<Longrightarrow> parse_run c ts = Some c' \<Longrightarrow> config_ok c'"
  by (induction c ts rule: parse_run.induct) (auto intro: parse_step_ok split: option.splits)

lemma valid_encode_any: "valid_utf8 (encode_runes rs)"
proof -
  define fix_rune where "fix_rune r = (if scalar r then r else rune_error)" for r
  have "encode_rune r = encode_rune (fix_rune r)" for r
    by (simp add: encode_rune_def fix_rune_def)
  then have "encode_runes rs = encode_runes (map fix_rune rs)"
    unfolding encode_runes_def by (simp add: comp_def)
  moreover have "\<forall>r \<in> set (map fix_rune rs). scalar r" by (auto simp: fix_rune_def)
  ultimately show ?thesis using valid_encode by metis
qed

lemma lex_token_wf: "lex_token s = Some (t, rest) \<Longrightarrow> wf_token t"
  unfolding lex_token_def
  by (auto simp: valid_encode_any list_all_iff dest: set_takeWhileD
      split: list.splits if_splits option.splits)

lemma lex_wf: "lex_json s = Some ts \<Longrightarrow> list_all wf_token ts"
proof (induction s arbitrary: ts rule: lex_json.induct)
  case (1 s)
  show ?case
  proof (cases s)
    case Nil
    then show ?thesis using "1.prems" by (simp add: lex_json.simps)
  next
    case (Cons c cs)
    show ?thesis
    proof (cases "is_space c")
      case True
      then show ?thesis using "1.IH"(1)[OF Cons True] "1.prems" Cons by (simp add: lex_json.simps)
    next
      case False
      then obtain t rest us where t: "lex_token s = Some (t, rest)" "lex_json rest = Some us" "ts = t # us"
        using "1.prems" Cons by (subst (asm) lex_json.simps) (auto split: option.splits)
      then show ?thesis using "1.IH"(2)[OF Cons False t(1) refl t(2)] lex_token_wf[OF t(1)] by simp
    qed
  qed
qed

theorem read_json_ok:
  assumes "read_json data = Some v"
  shows "wf_json v" "numbers_ok v" "depth v \<le> max_nesting"
proof -
  obtain ts where "lex_json data = Some ts" "parse_run ([], MValue) ts = Some ([], MDone v)"
    using assms by (auto simp: read_json_def split: option.splits list.splits mode.splits prod.splits)
  then have "config_ok ([], MDone v)"
    using parse_run_ok[of "([], MValue)" ts "([], MDone v)"] lex_wf[of data ts] by simp
  then show "wf_json v" "numbers_ok v" "depth v \<le> max_nesting" by (simp_all add: val_ok_def)
qed

end
