(* ===== verification/Sha256.thy ===== *)
theory Sha256
  imports GoText "HOL-Library.Word"
begin

text \<open>
  The SHA-256 function of Go's \<^verbatim>\<open>crypto/sha256\<close> and \<^verbatim>\<open>hex.EncodeToString\<close>, on byte strings, with
  32-bit arithmetic. The program uses digests as identities; the theorems here fix their form.
\<close>

unbundle bit_operations_syntax

type_synonym w32 = "32 word"

section \<open>Constants and message schedule\<close>

text \<open>
  The standard defines its constants as the first 32 bits of the fractional parts of the cube roots of
  the first 64 primes and of the square roots of the first 8.
\<close>

definition first_primes :: "nat list" where
  "first_primes = filter (\<lambda>p. list_all (\<lambda>d. p mod d \<noteq> 0) [2..<p]) [2..<312]"

definition int_root :: "nat \<Rightarrow> nat \<Rightarrow> nat" where
  "int_root k n = foldl (\<lambda>r b. if (r + 2 ^ b) ^ k \<le> n then r + 2 ^ b else r) 0 (rev [0..<37])"

definition root_fraction :: "nat \<Rightarrow> nat \<Rightarrow> w32" where
  "root_fraction k p = word_of_nat (int_root k (p * 2 ^ (32 * k)))"

definition sha_k :: "w32 list" where
  "sha_k = map (root_fraction 3) first_primes"

definition sha_h0 :: "w32 list" where
  "sha_h0 = map (root_fraction 2) [2, 3, 5, 7, 11, 13, 17, 19]"

definition be_bytes :: "nat \<Rightarrow> nat \<Rightarrow> nat list" where
  "be_bytes width n = map (\<lambda>i. n div 256 ^ (width - 1 - i) mod 256) [0..<width]"

text \<open>The padding: one set bit, zeros to 56 modulo 64, and the bit length in eight bytes.\<close>

definition sha_pad :: "nat list \<Rightarrow> nat list" where
  "sha_pad m = m @ 128 # replicate ((119 - length m mod 64) mod 64) 0
     @ be_bytes 8 (8 * length m mod 2 ^ 64)"

fun blocks_of :: "nat \<Rightarrow> nat list \<Rightarrow> nat list list" where
  "blocks_of 0 xs = []"
| "blocks_of (Suc n) xs = take 64 xs # blocks_of n (drop 64 xs)"

definition word_at :: "nat list \<Rightarrow> nat \<Rightarrow> w32" where
  "word_at b i = word_of_nat (b ! (4 * i) * 16777216 + b ! (4 * i + 1) * 65536
     + b ! (4 * i + 2) * 256 + b ! (4 * i + 3))"

definition sigma0 :: "w32 \<Rightarrow> w32" where
  "sigma0 x = word_rotr 7 x XOR word_rotr 18 x XOR drop_bit 3 x"

definition sigma1 :: "w32 \<Rightarrow> w32" where
  "sigma1 x = word_rotr 17 x XOR word_rotr 19 x XOR drop_bit 10 x"

definition extend :: "w32 list \<Rightarrow> nat \<Rightarrow> w32 list" where
  "extend w t = w @ [sigma1 (w ! (t - 2)) + w ! (t - 7) + sigma0 (w ! (t - 15)) + w ! (t - 16)]"

definition sha_schedule :: "nat list \<Rightarrow> w32 list" where
  "sha_schedule b = foldl extend (map (word_at b) [0..<16]) [16..<64]"

section \<open>Compression\<close>

definition sha_round :: "w32 list \<Rightarrow> w32 \<times> w32 \<Rightarrow> w32 list" where
  "sha_round s kw =
     (let a = s ! 0; b = s ! 1; c = s ! 2; d = s ! 3; e = s ! 4; f = s ! 5; g = s ! 6; h = s ! 7;
          t1 = h + (word_rotr 6 e XOR word_rotr 11 e XOR word_rotr 25 e)
                 + ((e AND f) XOR (NOT e AND g)) + fst kw + snd kw;
          t2 = (word_rotr 2 a XOR word_rotr 13 a XOR word_rotr 22 a)
                 + ((a AND b) XOR (a AND c) XOR (b AND c))
      in [t1 + t2, a, b, c, d + t1, e, f, g])"

definition sha_compress :: "w32 list \<Rightarrow> nat list \<Rightarrow> w32 list" where
  "sha_compress h b = map2 (+) h (foldl sha_round h (zip sha_k (sha_schedule b)))"

definition sha256 :: "nat list \<Rightarrow> nat list" where
  "sha256 m =
     (let p = sha_pad m
      in concat (map (be_bytes 4 \<circ> unat) (foldl sha_compress sha_h0 (blocks_of (length p div 64) p))))"

definition lower_hex :: "nat \<Rightarrow> char" where
  "lower_hex d = char_of (if d < 10 then 48 + d else 87 + d)"

definition hex_encode :: "nat list \<Rightarrow> string" where
  "hex_encode bs = concat (map (\<lambda>b. [lower_hex (b div 16), lower_hex (b mod 16)]) bs)"

definition Sum256_hex :: "bytes \<Rightarrow> string" where
  "Sum256_hex data = hex_encode (sha256 (map byte data))"

section \<open>The form of a digest\<close>

definition is_lower_hex :: "char \<Rightarrow> bool" where
  "is_lower_hex c = ((48 \<le> byte c \<and> byte c \<le> 57) \<or> (97 \<le> byte c \<and> byte c \<le> 102))"

lemma length_be_bytes [simp]: "length (be_bytes n x) = n"
  by (simp add: be_bytes_def)

lemma be_bytes_range: "b \<in> set (be_bytes n x) \<Longrightarrow> b < 256"
  by (auto simp: be_bytes_def)

lemma length_sha_round: "length (sha_round s kw) = 8"
  by (simp add: sha_round_def Let_def)

lemma length_sha_rounds: "length h = 8 \<Longrightarrow> length (foldl sha_round h kws) = 8"
  by (induction kws arbitrary: h) (auto simp: length_sha_round)

lemma length_sha_state: "length h = 8 \<Longrightarrow> length (foldl sha_compress h bs) = 8"
  by (induction bs arbitrary: h) (auto simp: sha_compress_def length_sha_rounds)

lemma sha256_form: "length (sha256 m) = 32" "b \<in> set (sha256 m) \<Longrightarrow> b < 256"
proof -
  let ?h = "foldl sha_compress sha_h0 (blocks_of (length (sha_pad m) div 64) (sha_pad m))"
  have "length ?h = 8" by (rule length_sha_state) (simp add: sha_h0_def)
  then have "length (concat (map (be_bytes 4 \<circ> unat) ?h)) = 32"
    by (simp add: length_concat comp_def sum_list_triv)
  then show "length (sha256 m) = 32" by (simp add: sha256_def Let_def)
  show "b \<in> set (sha256 m) \<Longrightarrow> b < 256"
    by (auto simp: sha256_def Let_def dest: be_bytes_range)
qed

lemma lower_hex_is_hex: "d < 16 \<Longrightarrow> is_lower_hex (lower_hex d)"
  by (auto simp: is_lower_hex_def lower_hex_def)

lemma Sum256_hex_form: "length (Sum256_hex data) = 64" "list_all is_lower_hex (Sum256_hex data)"
proof -
  show "length (Sum256_hex data) = 64"
    by (simp add: Sum256_hex_def hex_encode_def length_concat comp_def sum_list_triv sha256_form)
  have "b div 16 < 16 \<and> b mod 16 < 16" if "b < 256" for b :: nat using that by auto
  then show "list_all is_lower_hex (Sum256_hex data)"
    using sha256_form(2) by (auto simp: Sum256_hex_def hex_encode_def list_all_iff lower_hex_is_hex)
qed

end
