(* ===== verification/Canonical.thy ===== *)
theory Canonical
  imports Json Sha256
begin

text \<open>
  \<^verbatim>\<open>internal/canonical/canonical.go\<close>: decoding a strict JSON document to doubles, the canonical
  writer, and the digests built on it. The double printer \<^verbatim>\<open>jsoncanonicalizer.NumberToJSON\<close> is
  third-party code and a parameter; \<^verbatim>\<open>json.Number.Float64\<close> is the correctly rounded conversion below.
  The results: canonicalization is idempotent, blind to member order and white space, and injective
  up to them; a document that embeds its own digest verifies.
\<close>

section \<open>Doubles\<close>

text \<open>
  A finite double is \<open>\<plusminus>mant * 2 ^ expo\<close>, normalised: \<open>2 ^ 52 \<le> mant < 2 ^ 53\<close>, or
  \<open>expo = -1074\<close> for zero and the subnormal numbers.
\<close>

datatype float64 = Float64 (neg: bool) (mant: nat) (expo: int)

fun bit_len :: "nat \<Rightarrow> nat" where
  "bit_len n = (if n = 0 then 0 else Suc (bit_len (n div 2)))"

declare bit_len.simps [simp del]

definition round_even :: "nat \<Rightarrow> nat \<Rightarrow> nat" where
  "round_even p q =
     (let d = p div q; r = p mod q in
      if 2 * r < q then d else if q < 2 * r then d + 1 else if even d then d else d + 1)"

text \<open>The exponent that puts \<open>p / q\<close> into \<open>2 ^ 52 ..< 2 ^ 53\<close>, but not below the subnormal one.\<close>

definition float_expo :: "nat \<Rightarrow> nat \<Rightarrow> int" where
  "float_expo p q =
     (let e = int (bit_len p) - int (bit_len q) - 53;
          e' = (if p * 2 ^ nat (- (e + 53)) < q * 2 ^ nat (e + 53) then e else e + 1)
      in max (-1074) e')"

definition float_of_ratio :: "bool \<Rightarrow> nat \<Rightarrow> nat \<Rightarrow> float64 option" where
  "float_of_ratio s p q =
     (if p = 0 then Some (Float64 s 0 (-1074))
      else
        let e = float_expo p q;
            m = round_even (p * 2 ^ nat (- e)) (q * 2 ^ nat e);
            (m', e') = (if m = 2 ^ 53 then (2 ^ 52, e + 1) else (m, e))
        in if 971 < e' then None else Some (Float64 s m' e'))"

fun exp_digits :: "string \<Rightarrow> int" where
  "exp_digits (c # cs) =
     (if c = CHR ''-'' then - int (undec 0 cs)
      else if c = CHR ''+'' then int (undec 0 cs)
      else int (undec 0 (c # cs)))"
| "exp_digits [] = 0"

text \<open>\<^verbatim>\<open>strconv.ParseFloat(token, 64)\<close> on a JSON number token; \<^const>\<open>None\<close> is a value out of range.\<close>

definition ParseFloat :: "string \<Rightarrow> float64 option" where
  "ParseFloat t =
     (let body = strip_minus t;
          int_part = takeWhile is_digit body;
          after_int = dropWhile is_digit body;
          frac = (if after_int \<noteq> [] \<and> hd after_int = CHR ''.'' then takeWhile is_digit (tl after_int) else []);
          after_frac = (if after_int \<noteq> [] \<and> hd after_int = CHR ''.'' then dropWhile is_digit (tl after_int) else after_int);
          ex = (if after_frac = [] then 0 else exp_digits (tl after_frac)) - int (length frac);
          n = undec 0 (int_part @ frac)
      in float_of_ratio (body \<noteq> t) (n * 10 ^ nat ex) (10 ^ nat (- ex)))"

section \<open>Decoding\<close>

datatype canonical_error =
    JsonSyntax
  | NumberOutOfRange string
  | IntegerTokenChanges string string
  | NumberEncoding
  | RootNotObject

type_synonym number_printer = "float64 \<Rightarrow> string option"

definition integer_token :: "string \<Rightarrow> bool" where
  "integer_token t = (CHR ''.'' \<notin> set t \<and> CHR ''e'' \<notin> set t \<and> CHR ''E'' \<notin> set t \<and> t \<noteq> ''-0'')"

definition decode_number :: "number_printer \<Rightarrow> string \<Rightarrow> (canonical_error, float64) result" where
  "decode_number NumberToJSON t =
     (case ParseFloat t of
        None \<Rightarrow> Inl (NumberOutOfRange t)
      | Some d \<Rightarrow>
          if integer_token t then
            (case NumberToJSON d of
               None \<Rightarrow> Inl NumberEncoding
             | Some encoded \<Rightarrow> if encoded \<noteq> t then Inl (IntegerTokenChanges t encoded) else Inr d)
          else Inr d)"

lemma mapE_cong [fundef_cong]:
  "xs = ys \<Longrightarrow> (\<And>x. x \<in> set ys \<Longrightarrow> f x = g x) \<Longrightarrow> mapE f xs = mapE g ys"
  by (induction xs arbitrary: ys) (auto simp: bindE_def split: sum.splits)

fun decodeNumbers :: "number_printer \<Rightarrow> string json \<Rightarrow> (canonical_error, float64 json) result" where
  "decodeNumbers f JNull = Inr JNull"
| "decodeNumbers f (JBool b) = Inr (JBool b)"
| "decodeNumbers f (JNum t) = bindE (decode_number f t) (\<lambda>d. Inr (JNum d))"
| "decodeNumbers f (JStr s) = Inr (JStr s)"
| "decodeNumbers f (JArr vs) = bindE (mapE (decodeNumbers f) vs) (\<lambda>ws. Inr (JArr ws))"
| "decodeNumbers f (JObj ms) =
     bindE (mapE (\<lambda>m. bindE (decodeNumbers f (snd m)) (\<lambda>v. Inr (fst m, v))) ms) (\<lambda>ws. Inr (JObj ws))"

definition decodeJSON :: "number_printer \<Rightarrow> bytes \<Rightarrow> (canonical_error, float64 json) result" where
  "decodeJSON f data =
     (case read_json data of None \<Rightarrow> Inl JsonSyntax | Some v \<Rightarrow> decodeNumbers f v)"

section \<open>The canonical writer\<close>

definition key_less :: "string \<times> 'a \<Rightarrow> string \<times> 'b \<Rightarrow> bool" where
  "key_less a b = LessUTF16 (fst a) (fst b)"

fun writeCanonicalJSON :: "number_printer \<Rightarrow> float64 json \<Rightarrow> (canonical_error, string) result" where
  "writeCanonicalJSON f JNull = Inr ''null''"
| "writeCanonicalJSON f (JBool b) = Inr (if b then ''true'' else ''false'')"
| "writeCanonicalJSON f (JNum d) = (case f d of None \<Rightarrow> Inl NumberEncoding | Some t \<Rightarrow> Inr t)"
| "writeCanonicalJSON f (JStr s) = Inr (jsonQuote s)"
| "writeCanonicalJSON f (JArr vs) =
     bindE (mapE (writeCanonicalJSON f) vs)
       (\<lambda>ts. Inr ([CHR 0x5B] @ join_with [CHR 0x2C] ts @ [CHR 0x5D]))"
| "writeCanonicalJSON f (JObj ms) =
     bindE (mapE (\<lambda>m. bindE (writeCanonicalJSON f (snd m)) (\<lambda>t. Inr (fst m, t))) ms)
       (\<lambda>ps. Inr ([CHR 0x7B]
          @ join_with [CHR 0x2C] (map (\<lambda>p. jsonQuote (fst p) @ [CHR 0x3A] @ snd p) (sort_by key_less ps))
          @ [CHR 0x7D]))"

definition CanonicalizeJSON :: "number_printer \<Rightarrow> bytes \<Rightarrow> (canonical_error, bytes) result" where
  "CanonicalizeJSON f data = bindE (decodeJSON f data) (writeCanonicalJSON f)"

section \<open>Digests\<close>

definition DigestBytes :: "bytes \<Rightarrow> string" where
  "DigestBytes data = ''sha256:'' @ Sum256_hex data"

definition DigestJSON :: "number_printer \<Rightarrow> bytes \<Rightarrow> (canonical_error, string) result" where
  "DigestJSON f data = bindE (CanonicalizeJSON f data) (\<lambda>c. Inr (DigestBytes c))"

text \<open>The regular expression \<^verbatim>\<open>^sha256:[0-9a-f]{64}$\<close>.\<close>

definition IsSHA256Ref :: "string \<Rightarrow> bool" where
  "IsSHA256Ref v = (has_prefix v ''sha256:'' \<and> length v = 71 \<and> list_all is_lower_hex (drop 7 v))"

definition without_member :: "string \<Rightarrow> (string \<times> 'v) list \<Rightarrow> (string \<times> 'v) list" where
  "without_member member ms = filter (\<lambda>m. fst m \<noteq> member) ms"

definition DigestJSONWithRootMemberExcluded ::
    "number_printer \<Rightarrow> bytes \<Rightarrow> string \<Rightarrow> (canonical_error, string) result" where
  "DigestJSONWithRootMemberExcluded f data member =
     bindE (decodeJSON f data)
       (\<lambda>value. case value of
          JObj ms \<Rightarrow> bindE (writeCanonicalJSON f (JObj (without_member member ms)))
                       (\<lambda>c. Inr (DigestBytes c))
        | _ \<Rightarrow> Inl RootNotObject)"

section \<open>Number tokens\<close>

lemma digits_num: "list_all num_char (takeWhile is_digit s)"
  by (auto simp: list_all_iff num_char_def dest: set_takeWhileD)

lemma num_int_prefix: "num_int s = Some r \<Longrightarrow> \<exists>p. s = p @ r \<and> list_all num_char p \<and> p \<noteq> []"
proof (cases s)
  case (Cons c cs)
  assume "num_int s = Some r"
  then consider "c = CHR ''0''" "r = cs" | "is_digit c" "r = dropWhile is_digit cs"
    using Cons by (auto simp: num_int_def split: if_splits)
  then show ?thesis
  proof cases
    case 1
    then have "s = [c] @ r" "list_all num_char [c]"
      using Cons by (auto simp: num_char_def is_digit_def)
    then show ?thesis by blast
  next
    case 2
    have "s = (c # takeWhile is_digit cs) @ r" using Cons 2 by simp
    moreover have "list_all num_char (c # takeWhile is_digit cs)"
      using 2 digits_num[of cs] by (simp add: num_char_def)
    ultimately show ?thesis by blast
  qed
qed (simp add: num_int_def)

lemma num_frac_prefix: "num_frac s = Some r \<Longrightarrow> \<exists>p. s = p @ r \<and> list_all num_char p"
proof (cases s)
  case (Cons c cs)
  assume "num_frac s = Some r"
  then consider "r = s" | "c = CHR ''.''" "r = dropWhile is_digit cs"
    using Cons by (auto simp: num_frac_def split: if_splits)
  then show ?thesis
  proof cases
    case 2
    have "s = (c # takeWhile is_digit cs) @ r" using Cons 2 by simp
    moreover have "list_all num_char (c # takeWhile is_digit cs)"
      using 2 digits_num[of cs] by (simp add: num_char_def)
    ultimately show ?thesis by blast
  qed (intro exI[of _ "[]"], simp)
qed (simp add: num_frac_def)

lemma num_exp_all: "num_exp s = Some [] \<Longrightarrow> list_all num_char s"
proof (cases s)
  case (Cons c cs)
  assume a: "num_exp s = Some []"
  then have c: "c = CHR ''e'' \<or> c = CHR ''E''" using Cons by (auto simp: num_exp_def split: if_splits)
  have digits: "list_all num_char ds" if "dropWhile is_digit ds = []" for ds
    using that digits_num[of ds] by (metis append_Nil2 takeWhile_dropWhile_id)
  show ?thesis
  proof (cases cs)
    case Nil
    then show ?thesis using a c Cons by (auto simp: num_exp_def starts_digit_def)
  next
    case (Cons d ds)
    then have "dropWhile is_digit (if d = CHR ''+'' \<or> d = CHR ''-'' then ds else cs) = []"
      using a c \<open>s = c # cs\<close> by (auto simp: num_exp_def Let_def split: if_splits)
    then have "list_all num_char cs"
      using digits Cons by (auto simp: num_char_def split: if_splits)
    then show ?thesis using c \<open>s = c # cs\<close> by (auto simp: num_char_def)
  qed
qed simp

lemma json_number_chars: "json_number t \<Longrightarrow> t \<noteq> [] \<and> list_all num_char t"
proof -
  assume "json_number t"
  then obtain r r' where "num_int (strip_minus t) = Some r" "num_frac r = Some r'" "num_exp r' = Some []"
    by (auto simp: json_number_def split: option.splits)
  then obtain p q where "strip_minus t = p @ q @ r'" "list_all num_char p" "p \<noteq> []" "list_all num_char q"
    "list_all num_char r'"
    using num_int_prefix num_frac_prefix num_exp_all by metis
  then have "list_all num_char (strip_minus t)" "strip_minus t \<noteq> []" by auto
  then show ?thesis
    by (auto simp: strip_minus_def num_char_def split: list.splits if_splits)
qed

lemma numbers_ok_JNum [simp]: "numbers_ok (JNum t) = json_number t"
  using json_number_chars by auto

declare numbers_ok.simps(3) [simp del]

section \<open>Sorting members\<close>

lemma insert_by_map: "insert_by lt (h x) (map h xs) = map h (insert_by (\<lambda>a b. lt (h a) (h b)) x xs)"
  by (induction xs) auto

lemma sort_by_map: "sort_by lt (map h xs) = map h (sort_by (\<lambda>a b. lt (h a) (h b)) xs)"
  by (induction xs) (auto simp: insert_by_map)

lemma map_fst_sort: "map fst (sort_by key_less ps) = sort_keys (map fst ps)"
  by (simp add: sort_keys_def sort_by_map key_less_def[abs_def])

lemma keyed_unique:
  assumes "distinct (map fst ps)" "set ps = set qs" "map fst ps = map fst qs"
  shows "ps = qs"
proof (rule nth_equalityI)
  show len: "length ps = length qs" using assms(3) by (metis length_map)
  fix i
  assume i: "i < length ps"
  have k: "fst (ps ! i) = fst (qs ! i)" using assms(3) i len by (metis nth_map)
  have "ps ! i \<in> set ps" using i by (rule nth_mem)
  then have "(fst (ps ! i), snd (ps ! i)) \<in> set ps" by simp
  moreover have "qs ! i \<in> set ps" using i len assms(2) by simp
  then have "(fst (ps ! i), snd (qs ! i)) \<in> set ps" unfolding k by simp
  ultimately have "snd (ps ! i) = snd (qs ! i)" using eq_key_imp_eq_value[OF assms(1)] by blast
  with k show "ps ! i = qs ! i" by (simp add: prod_eq_iff)
qed

lemma sort_members_cong:
  assumes "mset ps = mset qs" "distinct (map fst ps)" "\<forall>p \<in> set ps. valid_utf8 (fst p)"
  shows "sort_by key_less ps = sort_by key_less qs"
proof (rule keyed_unique)
  show "distinct (map fst (sort_by key_less ps))"
    using assms(2) by (simp add: map_fst_sort sort_keys_def)
  show "set (sort_by key_less ps) = set (sort_by key_less qs)"
    using mset_eq_setD[OF assms(1)] by simp
  have "mset (map fst ps) = mset (map fst qs)" using assms(1) by simp
  then show "map fst (sort_by key_less ps) = map fst (sort_by key_less qs)"
    unfolding map_fst_sort sort_keys_def
    by (rule utf16.sort_by_cong_mset) (use assms(3) in auto)
qed

lemma sort_members_idem:
  assumes "distinct (map fst ps)" "\<forall>p \<in> set ps. valid_utf8 (fst p)"
  shows "sort_by key_less (sort_by key_less ps) = sort_by key_less ps"
  using sort_members_cong[of ps "sort_by key_less ps"] assms by simp

section \<open>The canonical tree\<close>

text \<open>The document the writer prints: members sorted, numbers as their printed tokens.\<close>

fun canon :: "number_printer \<Rightarrow> float64 json \<Rightarrow> (canonical_error, string json) result" where
  "canon f JNull = Inr JNull"
| "canon f (JBool b) = Inr (JBool b)"
| "canon f (JNum d) = (case f d of None \<Rightarrow> Inl NumberEncoding | Some t \<Rightarrow> Inr (JNum t))"
| "canon f (JStr s) = Inr (JStr s)"
| "canon f (JArr vs) = bindE (mapE (canon f) vs) (\<lambda>ts. Inr (JArr ts))"
| "canon f (JObj ms) =
     bindE (mapE (\<lambda>m. bindE (canon f (snd m)) (\<lambda>t. Inr (fst m, t))) ms)
       (\<lambda>ps. Inr (JObj (sort_by key_less ps)))"

lemma concat_comma_sep:
  "concat (map tok_text (comma_sep xs)) = join_with [CHR 0x2C] (map (\<lambda>x. concat (map tok_text x)) xs)"
  by (induction xs rule: comma_sep.induct) auto

lemma text_of_simps:
  "text_of JNull = ''null''" "text_of (JBool b) = (if b then ''true'' else ''false'')"
  "text_of (JNum t) = t" "text_of (JStr s) = jsonQuote s"
  "text_of (JArr vs) = [CHR 0x5B] @ join_with [CHR 0x2C] (map text_of vs) @ [CHR 0x5D]"
  "text_of (JObj ms) = [CHR 0x7B] @ join_with [CHR 0x2C]
     (map (\<lambda>m. jsonQuote (fst m) @ [CHR 0x3A] @ text_of (snd m)) ms) @ [CHR 0x7D]"
  by (auto simp: text_of_def[abs_def] concat_comma_sep comp_def)

lemma mapE_bind:
  assumes "\<And>x. x \<in> set xs \<Longrightarrow> g x = bindE (f x) (\<lambda>y. Inr (h y))"
  shows "mapE g xs = bindE (mapE f xs) (\<lambda>ys. Inr (map h ys))"
  using assms by (induction xs) (auto simp: bindE_def split: sum.splits)

lemma write_canon: "writeCanonicalJSON f v = bindE (canon f v) (\<lambda>t. Inr (text_of t))"
proof (induction v)
  case (JNum d)
  then show ?case by (simp add: text_of_simps split: option.splits)
next
  case (JArr vs)
  have "mapE (writeCanonicalJSON f) vs = bindE (mapE (canon f) vs) (\<lambda>ys. Inr (map text_of ys))"
    by (rule mapE_bind) (use JArr in simp)
  then show ?case by (auto simp: text_of_simps bindE_def split: sum.splits)
next
  case (JObj ms)
  let ?h = "\<lambda>p. (fst p, text_of (snd p))"
  have "mapE (\<lambda>m. bindE (writeCanonicalJSON f (snd m)) (\<lambda>t. Inr (fst m, t))) ms
    = bindE (mapE (\<lambda>m. bindE (canon f (snd m)) (\<lambda>t. Inr (fst m, t))) ms) (\<lambda>ys. Inr (map ?h ys))"
  proof (rule mapE_bind)
    fix m
    assume "m \<in> set ms"
    then have "writeCanonicalJSON f (snd m) = bindE (canon f (snd m)) (\<lambda>t. Inr (text_of t))"
      using JObj[of m "snd m"] by (simp add: snds.intros)
    then show "bindE (writeCanonicalJSON f (snd m)) (\<lambda>t. Inr (fst m, t))
      = bindE (bindE (canon f (snd m)) (\<lambda>t. Inr (fst m, t))) (\<lambda>y. Inr (?h y))"
      by (auto simp: bindE_def split: sum.splits)
  qed
  moreover have "sort_by key_less (map ?h ps) = map ?h (sort_by key_less ps)" for ps :: "(string \<times> string json) list"
    unfolding sort_by_map by (simp add: key_less_def[abs_def])
  ultimately show ?case by (auto simp: text_of_simps bindE_def comp_def split: sum.splits)
qed (simp_all add: text_of_simps)

section \<open>Reading canonical bytes\<close>

text \<open>
  What the program relies on of \<^verbatim>\<open>NumberToJSON\<close> (RFC 8785, section 3.2.2.3): it prints JSON number
  tokens, and the double a printed token denotes prints as that token again.
\<close>

definition number_codec :: "number_printer \<Rightarrow> bool" where
  "number_codec f =
     (\<forall>d t. f d = Some t \<longrightarrow> json_number t \<and> (\<exists>d'. ParseFloat t = Some d' \<and> f d' = Some t))"

lemma codec_decode:
  assumes "number_codec f" "f d = Some t"
  shows "\<exists>d'. decode_number f t = Inr d' \<and> f d' = Some t"
proof -
  obtain d' where "ParseFloat t = Some d'" "f d' = Some t"
    using assms unfolding number_codec_def by blast
  then have "decode_number f t = Inr d'" by (simp add: decode_number_def)
  then show ?thesis using \<open>f d' = Some t\<close> by blast
qed

lemma mapE_Inr_conv: "mapE f xs = Inr ys \<longleftrightarrow> list_all2 (\<lambda>x y. f x = Inr y) xs ys"
proof (induction xs arbitrary: ys)
  case Nil
  then show ?case by auto
next
  case (Cons x xs)
  then show ?case by (cases ys) (auto simp: bindE_eq_Inr)
qed

lemma wf_json_JObj:
  "wf_json (JObj ms) \<longleftrightarrow> distinct (map fst ms) \<and> (\<forall>m \<in> set ms. valid_utf8 (fst m) \<and> wf_json (snd m))"
  by (simp add: list_all_iff)

lemma fold_max_mset: "mset xs = mset ys \<Longrightarrow> fold max xs n = fold max ys (n :: nat)"
proof -
  assume "mset xs = mset ys"
  then have "set (n # xs) = set (n # ys)" using mset_eq_setD[of xs ys] by simp
  then show ?thesis by (metis Max.set_eq_fold)
qed

definition recanonical :: "number_printer \<Rightarrow> float64 json \<Rightarrow> string json \<Rightarrow> bool" where
  "recanonical f v t =
     (wf_json t \<and> numbers_ok t \<and> depth t = depth v \<and> (\<exists>v'. decodeNumbers f t = Inr v' \<and> canon f v' = Inr t))"

lemma recanonical_list:
  assumes "list_all2 (recanonical f) vs ts"
  shows "\<exists>ws. mapE (decodeNumbers f) ts = Inr ws \<and> mapE (canon f) ws = Inr ts"
  using assms by (induction rule: list_all2_induct) (auto simp: recanonical_def)

lemma recanonical_members:
  assumes "\<forall>p \<in> set ps. \<exists>v. recanonical f v (snd p)"
  shows "\<exists>ws. mapE (\<lambda>m. bindE (decodeNumbers f (snd m)) (\<lambda>v. Inr (fst m, v))) ps = Inr ws
    \<and> mapE (\<lambda>m. bindE (canon f (snd m)) (\<lambda>t. Inr (fst m, t))) ws = Inr ps"
  using assms by (induction ps) (auto simp: recanonical_def)

lemma canon_recanonical:
  assumes "number_codec f" "wf_json v" "canon f v = Inr t"
  shows "recanonical f v t"
  using assms(2,3)
proof (induction v arbitrary: t)
  case (JNum d)
  then show ?case
    using codec_decode[OF assms(1), of d] assms(1)
    by (auto simp: recanonical_def number_codec_def split: option.splits)
next
  case (JArr vs)
  then obtain ts where ts: "list_all2 (\<lambda>v t. canon f v = Inr t) vs ts" "t = JArr ts"
    by (auto simp: bindE_eq_Inr mapE_Inr_conv)
  have all: "list_all2 (recanonical f) vs ts"
    using ts(1) by (rule list.rel_mono_strong) (use JArr in \<open>auto simp: list_all_iff\<close>)
  then have "map depth ts = map depth vs" "list_all wf_json ts" "list_all numbers_ok ts"
    by (induction rule: list_all2_induct) (auto simp: recanonical_def)
  then show ?case
    using recanonical_list[OF all] ts(2) unfolding recanonical_def by auto
next
  case (JObj ms)
  then obtain ps where ps: "list_all2 (\<lambda>m p. bindE (canon f (snd m)) (\<lambda>t. Inr (fst m, t)) = Inr p) ms ps"
    "t = JObj (sort_by key_less ps)"
    by (auto simp: bindE_eq_Inr mapE_Inr_conv)
  have all: "list_all2 (\<lambda>m p. fst m = fst p \<and> recanonical f (snd m) (snd p)) ms ps"
    using ps(1)
  proof (rule list.rel_mono_strong)
    fix m p
    assume m: "m \<in> set ms" and "bindE (canon f (snd m)) (\<lambda>t. Inr (fst m, t)) = Inr p"
    then obtain t where "canon f (snd m) = Inr t" "p = (fst m, t)" by (auto simp: bindE_eq_Inr)
    moreover have "wf_json (snd m)" using JObj.prems(1) m unfolding wf_json_JObj by blast
    ultimately show "fst m = fst p \<and> recanonical f (snd m) (snd p)"
      using JObj.IH[OF m, of "snd m" t] by (simp add: snds.intros)
  qed
  have keys: "map fst ps = map fst ms" and deps: "map (depth \<circ> snd) ps = map (depth \<circ> snd) ms"
    and each: "\<forall>p \<in> set ps. \<exists>v. recanonical f v (snd p)"
    using all by (induction rule: list_all2_induct) (auto simp: recanonical_def)
  have kvalid: "\<forall>p \<in> set ps. valid_utf8 (fst p)"
    using keys JObj.prems(1) by (metis (no_types, lifting) image_eqI list.set_map wf_json_JObj imageE)
  let ?qs = "sort_by key_less ps"
  have "\<forall>p \<in> set ?qs. \<exists>v. recanonical f v (snd p)" using each by simp
  from recanonical_members[OF this] obtain ws where
    ws: "mapE (\<lambda>m. bindE (decodeNumbers f (snd m)) (\<lambda>v. Inr (fst m, v))) ?qs = Inr ws"
      "mapE (\<lambda>m. bindE (canon f (snd m)) (\<lambda>t. Inr (fst m, t))) ws = Inr ?qs" by blast
  have idem: "sort_by key_less ?qs = ?qs"
    using sort_members_idem[of ps] kvalid keys JObj.prems(1) by simp
  have "mset (map (depth \<circ> snd) ?qs) = mset (map (depth \<circ> snd) ps)" by simp
  then have "depth (JObj ?qs) = depth (JObj ms)"
    using fold_max_mset[of "map (depth \<circ> snd) ?qs" "map (depth \<circ> snd) ps" 0] deps by simp
  moreover have "wf_json (JObj ?qs)" "numbers_ok (JObj ?qs)"
    using each kvalid keys JObj.prems(1)
    by (auto simp: wf_json_JObj map_fst_sort sort_keys_def recanonical_def list_all_iff)
  ultimately show ?case using ws idem ps(2) unfolding recanonical_def by simp
qed (auto simp: recanonical_def)

lemma decodeNumbers_wf:
  assumes "decodeNumbers f t = Inr v" "wf_json t"
  shows "wf_json v \<and> depth v = depth t"
  using assms
proof (induction t arbitrary: v)
  case (JArr ts)
  then obtain vs where vs: "list_all2 (\<lambda>t v. decodeNumbers f t = Inr v) ts vs" "v = JArr vs"
    by (auto simp: bindE_eq_Inr mapE_Inr_conv)
  have "list_all2 (\<lambda>t v. wf_json v \<and> depth v = depth t) ts vs"
    using vs(1) by (rule list.rel_mono_strong) (use JArr in \<open>auto simp: list_all_iff\<close>)
  then have "list_all wf_json vs \<and> map depth vs = map depth ts"
    by (induction rule: list_all2_induct) auto
  then show ?case using vs(2) by simp
next
  case (JObj ms)
  then obtain ps where ps: "list_all2 (\<lambda>m p. bindE (decodeNumbers f (snd m)) (\<lambda>v. Inr (fst m, v)) = Inr p) ms ps"
    "v = JObj ps"
    by (auto simp: bindE_eq_Inr mapE_Inr_conv)
  have "list_all2 (\<lambda>m p. fst p = fst m \<and> wf_json (snd p) \<and> depth (snd p) = depth (snd m)) ms ps"
    using ps(1)
  proof (rule list.rel_mono_strong)
    fix m p
    assume m: "m \<in> set ms" and "bindE (decodeNumbers f (snd m)) (\<lambda>v. Inr (fst m, v)) = Inr p"
    then obtain w where "decodeNumbers f (snd m) = Inr w" "p = (fst m, w)" by (auto simp: bindE_eq_Inr)
    moreover have "wf_json (snd m)" using JObj.prems(2) m unfolding wf_json_JObj by blast
    ultimately show "fst p = fst m \<and> wf_json (snd p) \<and> depth (snd p) = depth (snd m)"
      using JObj.IH[OF m, of "snd m" w] by (simp add: snds.intros)
  qed
  then have "map fst ps = map fst ms \<and> (\<forall>p \<in> set ps. wf_json (snd p)) \<and> map (depth \<circ> snd) ps = map (depth \<circ> snd) ms"
    by (induction rule: list_all2_induct) auto
  moreover from this have "\<forall>p \<in> set ps. valid_utf8 (fst p)"
    using JObj.prems(2) by (metis (no_types, lifting) image_eqI list.set_map wf_json_JObj imageE)
  ultimately show ?case using ps(2) JObj.prems(2) by (simp add: wf_json_JObj list_all_iff)
qed (auto simp: bindE_eq_Inr)

section \<open>Canonical bytes determine the canonical tree\<close>

lemma decodeJSON_wf:
  assumes "decodeJSON f data = Inr v"
  shows "wf_json v \<and> depth v \<le> max_nesting"
proof -
  obtain t where t: "read_json data = Some t" "decodeNumbers f t = Inr v"
    using assms by (auto simp: decodeJSON_def split: option.splits)
  show ?thesis using decodeNumbers_wf[OF t(2)] read_json_ok[OF t(1)] by simp
qed

lemma CanonicalizeJSON_Inr:
  "CanonicalizeJSON f data = Inr c \<longleftrightarrow>
     (\<exists>v t. decodeJSON f data = Inr v \<and> canon f v = Inr t \<and> c = text_of t)"
  by (auto simp: CanonicalizeJSON_def bindE_eq_Inr write_canon)

lemma canonical_read:
  assumes "number_codec f" "decodeJSON f data = Inr v" "canon f v = Inr t"
  shows "read_json (text_of t) = Some t"
    and "\<exists>v'. decodeJSON f (text_of t) = Inr v' \<and> canon f v' = Inr t"
proof -
  have r: "recanonical f v t" using canon_recanonical assms decodeJSON_wf by blast
  show read: "read_json (text_of t) = Some t"
    using r decodeJSON_wf[OF assms(2)] by (intro read_text_of) (auto simp: recanonical_def)
  show "\<exists>v'. decodeJSON f (text_of t) = Inr v' \<and> canon f v' = Inr t"
    using r read by (auto simp: recanonical_def decodeJSON_def)
qed

text \<open>Trees that differ in the order of object members only.\<close>

inductive same_tree :: "'n json \<Rightarrow> 'n json \<Rightarrow> bool" where
  null: "same_tree JNull JNull"
| bool: "same_tree (JBool b) (JBool b)"
| num: "same_tree (JNum d) (JNum d)"
| str: "same_tree (JStr s) (JStr s)"
| arr: "list_all2 same_tree vs ws \<Longrightarrow> same_tree (JArr vs) (JArr ws)"
| obj: "list_all2 (\<lambda>a b. fst a = fst b \<and> same_tree (snd a) (snd b)) ms ns' \<Longrightarrow> mset ns' = mset ns \<Longrightarrow>
    same_tree (JObj ms) (JObj ns)"

lemma same_tree_refl: "same_tree v v"
proof (induction v)
  case (JArr vs)
  then show ?case by (auto intro!: same_tree.arr simp: list_all2_conv_all_nth)
next
  case (JObj ms)
  then have "list_all2 (\<lambda>a b. fst a = fst b \<and> same_tree (snd a) (snd b)) ms ms"
    by (auto simp: list_all2_conv_all_nth) (metis nth_mem prod.collapse snds.intros)
  then show ?case by (rule same_tree.obj) simp
qed (auto intro: same_tree.intros)

lemma mapE_mset:
  assumes "mset xs = mset ys" "mapE f xs = Inr us"
  shows "\<exists>vs. mapE f ys = Inr vs \<and> mset vs = mset us"
proof -
  have "\<forall>x \<in> set xs. f x = Inr (projr (f x))" "us = map (\<lambda>x. projr (f x)) xs"
    using assms(2) by (induction xs arbitrary: us) (auto simp: bindE_eq_Inr)
  then have "mapE f ys = Inr (map (\<lambda>x. projr (f x)) ys)" "mset us = mset (map (\<lambda>x. projr (f x)) ys)"
    using assms(1) mset_eq_setD[OF assms(1)] by (auto intro: mapE_Inr_map)
  then show ?thesis by auto
qed

lemma same_tree_canon:
  assumes "same_tree v w" "wf_json v" "canon f v = Inr t"
  shows "canon f w = Inr t"
  using assms
proof (induction arbitrary: t rule: same_tree.induct)
  case (arr vs ws)
  then obtain ts where ts: "mapE (canon f) vs = Inr ts" "t = JArr ts" by (auto simp: bindE_eq_Inr)
  have "mapE (canon f) ws = Inr ts"
    using arr.IH ts(1) arr.prems(1)
  proof (induction arbitrary: ts rule: list_all2_induct)
    case (Cons x xs y ys)
    then show ?case by (auto simp: bindE_eq_Inr)
  qed simp
  then show ?case using ts(2) by simp
next
  case (obj ms ns' ns)
  let ?g = "\<lambda>m. bindE (canon f (snd m)) (\<lambda>t. Inr (fst m, t))"
  obtain ps where ps: "mapE ?g ms = Inr ps" "t = JObj (sort_by key_less ps)"
    using obj.prems by (auto simp: bindE_eq_Inr)
  have keys: "map fst ps = map fst ms"
    using ps(1) by (induction ms arbitrary: ps) (auto simp: bindE_eq_Inr)
  have "\<forall>m \<in> set ms. wf_json (snd m)" using obj.prems(1) unfolding wf_json_JObj by blast
  with obj.IH have "mapE ?g ns' = Inr ps"
    using ps(1)
  proof (induction ms ns' arbitrary: ps rule: list_all2_induct)
    case (Cons x xs y ys)
    then show ?case by (auto simp: bindE_eq_Inr)
  qed simp
  then obtain qs where qs: "mapE ?g ns = Inr qs" "mset qs = mset ps"
    using mapE_mset[OF obj.hyps] by blast
  have "distinct (map fst ms)" "\<forall>k \<in> set (map fst ms). valid_utf8 k"
    using obj.prems(1) unfolding wf_json_JObj by auto
  then have "distinct (map fst ps)" "\<forall>p \<in> set ps. valid_utf8 (fst p)"
    using keys by (metis, metis image_eqI list.set_map)
  then have "sort_by key_less ps = sort_by key_less qs"
    by (intro sort_members_cong) (auto simp: qs)
  then show ?case using qs(1) ps(2) by simp
qed auto

lemma list_all2_flip_mono:
  "list_all2 R xs ys \<Longrightarrow> (\<And>x y. x \<in> set xs \<Longrightarrow> y \<in> set ys \<Longrightarrow> R x y \<Longrightarrow> S y x) \<Longrightarrow> list_all2 S ys xs"
  by (auto simp: list_all2_conv_all_nth)

abbreviation same_member :: "string \<times> 'n json \<Rightarrow> string \<times> 'n json \<Rightarrow> bool" where
  "same_member a b \<equiv> fst a = fst b \<and> same_tree (snd a) (snd b)"

lemma same_tree_sym: "same_tree v w \<Longrightarrow> same_tree w v"
proof (induction rule: same_tree.induct)
  case (arr vs ws)
  have "list_all2 same_tree ws vs" by (rule list_all2_flip_mono[OF arr.IH]) blast
  then show ?case by (rule same_tree.arr)
next
  case (obj ms ns' ns)
  have "list_all2 same_member ns' ms" by (rule list_all2_flip_mono[OF obj.IH]) auto
  then obtain ms' where "list_all2 same_member ns ms'" "mset ms' = mset ms"
    using list_all2_reorder_left_invariance[OF _ obj.hyps[symmetric]] by blast
  then show ?case by (rule same_tree.obj)
qed (rule same_tree.intros)+

inductive_cases same_tree_arrE: "same_tree (JArr vs) w"
inductive_cases same_tree_objE: "same_tree (JObj ms) w"
inductive_cases same_tree_leafE: "same_tree JNull w" "same_tree (JBool b) w" "same_tree (JNum d) w" "same_tree (JStr s) w"

lemma same_tree_trans: "same_tree u v \<Longrightarrow> same_tree v w \<Longrightarrow> same_tree u w"
proof (induction arbitrary: w rule: same_tree.induct)
  case (arr vs ws)
  from arr.prems obtain xs where xs: "w = JArr xs" "list_all2 same_tree ws xs" by (elim same_tree_arrE)
  then have "list_all2 same_tree vs xs" using list_all2_trans[OF _ arr.IH xs(2)] by blast
  then show ?case using xs(1) same_tree.arr by blast
next
  case (obj ms ns' ns)
  from obj.prems obtain ps' ps where ps: "w = JObj ps" "mset ps' = mset ps"
    "list_all2 (\<lambda>a b. fst a = fst b \<and> same_tree (snd a) (snd b)) ns ps'" by (elim same_tree_objE)
  obtain qs where qs: "list_all2 (\<lambda>a b. fst a = fst b \<and> same_tree (snd a) (snd b)) ns' qs" "mset qs = mset ps'"
    using list_all2_reorder_left_invariance[OF ps(3) obj.hyps] by blast
  have "list_all2 same_member ms qs"
    by (rule list_all2_trans[OF _ obj.IH qs(1)]) auto
  moreover have "mset qs = mset ps" using qs(2) ps(2) by simp
  ultimately show ?case unfolding ps(1) by (rule same_tree.obj)
qed (auto elim!: same_tree_leafE intro: same_tree.intros)

definition printed :: "number_printer \<Rightarrow> float64 json \<Rightarrow> string json" where
  "printed f v = map_json (\<lambda>d. case f d of None \<Rightarrow> [] | Some t \<Rightarrow> t) v"

lemma canon_same_tree: "canon f v = Inr t \<Longrightarrow> same_tree (printed f v) t"
proof (induction v arbitrary: t)
  case (JArr vs)
  then obtain ts where ts: "list_all2 (\<lambda>v t. canon f v = Inr t) vs ts" "t = JArr ts"
    by (auto simp: bindE_eq_Inr mapE_Inr_conv)
  have "list_all2 (\<lambda>v t. same_tree (printed f v) t) vs ts"
    using ts(1) by (rule list.rel_mono_strong) (use JArr in auto)
  then have "list_all2 same_tree (map (printed f) vs) ts" by (simp add: list_all2_map1)
  then show ?case using ts(2) same_tree.arr by (simp add: printed_def[abs_def])
next
  case (JObj ms)
  then obtain ps where ps: "list_all2 (\<lambda>m p. bindE (canon f (snd m)) (\<lambda>t. Inr (fst m, t)) = Inr p) ms ps"
    "t = JObj (sort_by key_less ps)"
    by (auto simp: bindE_eq_Inr mapE_Inr_conv)
  have "list_all2 (\<lambda>m p. fst m = fst p \<and> same_tree (printed f (snd m)) (snd p)) ms ps"
    using ps(1)
  proof (rule list.rel_mono_strong)
    fix m p
    assume m: "m \<in> set ms" and "bindE (canon f (snd m)) (\<lambda>t. Inr (fst m, t)) = Inr p"
    then obtain u where "canon f (snd m) = Inr u" "p = (fst m, u)" by (auto simp: bindE_eq_Inr)
    then show "fst m = fst p \<and> same_tree (printed f (snd m)) (snd p)"
      using JObj.IH[OF m, of "snd m" u] by (simp add: snds.intros)
  qed
  then have "list_all2 (\<lambda>a b. fst a = fst b \<and> same_tree (snd a) (snd b))
      (map (\<lambda>m. (fst m, printed f (snd m))) ms) ps"
    by (simp add: list_all2_map1)
  moreover have "printed f (JObj ms) = JObj (map (\<lambda>m. (fst m, printed f (snd m))) ms)"
    by (simp add: printed_def map_prod_def split_def)
  ultimately show ?case using ps(2) same_tree.obj[of _ ps "sort_by key_less ps"] by simp
qed (auto simp: printed_def intro: same_tree.intros split: option.splits)

section \<open>A number printer\<close>

text \<open>
  A concrete printer with the assumed behaviour, for integers below \<open>2 ^ 53\<close>: these print in plain
  decimal, and zero of either sign prints as \<^verbatim>\<open>0\<close>.
\<close>

definition print_integer :: number_printer where
  "print_integer d =
     (if mant d = 0 then Some ''0''
      else if expo d \<le> 0 \<and> 2 ^ nat (- expo d) dvd mant d \<and> mant d div 2 ^ nat (- expo d) < 2 ^ 53
      then Some ((if neg d then ''-'' else []) @ dec_nat (mant d div 2 ^ nat (- expo d)))
      else None)"

lemma bit_len_bounds: "0 < n \<Longrightarrow> 2 ^ (bit_len n - 1) \<le> n \<and> n < 2 ^ bit_len n \<and> 0 < bit_len n"
proof (induction n rule: bit_len.induct)
  case (1 n)
  show ?case
  proof (cases "n div 2 = 0")
    case True
    then have "n = 1" using "1.prems" by auto
    then show ?thesis by (simp add: bit_len.simps)
  next
    case False
    then have IH: "2 ^ (bit_len (n div 2) - 1) \<le> n div 2" "n div 2 < 2 ^ bit_len (n div 2)" "0 < bit_len (n div 2)"
      using "1.IH" "1.prems" by auto
    have "bit_len n = Suc (bit_len (n div 2))" using "1.prems" by (subst bit_len.simps) simp
    moreover have "(2::nat) ^ bit_len (n div 2) = 2 * 2 ^ (bit_len (n div 2) - 1)"
      using IH(3) by (metis Suc_diff_1 power_Suc)
    moreover have "2 * A \<le> n \<and> n < 4 * A" if "A \<le> n div 2" "n div 2 < 2 * A" for A
      using that by presburger
    ultimately show ?thesis using IH by simp
  qed
qed

lemma bit_len_le: "n < 2 ^ k \<Longrightarrow> bit_len n \<le> k"
proof (cases "n = 0")
  case True
  then show ?thesis by (simp add: bit_len.simps)
next
  case False
  assume "n < 2 ^ k"
  then have "2 ^ (bit_len n - 1) < (2::nat) ^ k"
    using bit_len_bounds[of n] False by (meson le_less_trans neq0_conv)
  then have "bit_len n - 1 < k" by (rule power_less_imp_less_exp[rotated]) simp
  then show ?thesis by simp
qed

lemma float_of_integer:
  assumes "0 < n" "n < 2 ^ 53"
  shows "float_of_ratio s n 1 = Some (Float64 s (n * 2 ^ (53 - bit_len n)) (int (bit_len n) - 53))"
proof -
  let ?l = "bit_len n"
  note b = bit_len_bounds[OF assms(1)]
  have l: "0 < ?l" "?l \<le> 53" using b bit_len_le[OF assms(2)] by auto
  have one: "bit_len 1 = 1" by (simp add: bit_len.simps)
  have "nat (int ?l - 1) = ?l - 1" by simp
  then have e: "float_expo n 1 = int ?l - 53"
    using b l unfolding float_expo_def one by (simp add: Let_def not_less)
  have "n * 2 ^ (53 - ?l) < 2 ^ ?l * 2 ^ (53 - ?l)" using b by simp
  also have "\<dots> = 2 ^ 53" using l by (simp flip: power_add)
  finally have "n * 2 ^ (53 - ?l) \<noteq> 2 ^ 53" by simp
  moreover have "nat (53 - int ?l) = 53 - ?l" by simp
  moreover have "round_even k 1 = k" for k by (simp add: round_even_def)
  ultimately show ?thesis
    using assms(1) l by (simp add: float_of_ratio_def e[unfolded One_nat_def] Let_def)
qed

lemma dec_nat_all_digits: "list_all is_digit (dec_nat n)"
  using dec_nat_digits by (auto simp: list_all_iff is_digit_def)

lemma dec_nat_first: "dec_nat n = c # cs \<Longrightarrow> c = CHR ''0'' \<Longrightarrow> cs = []"
proof (induction n arbitrary: c cs rule: dec_nat.induct)
  case (1 n)
  show ?case
  proof (cases "n < 10")
    case True
    then show ?thesis using "1.prems" by (subst (asm) dec_nat.simps) simp
  next
    case False
    obtain d ds where ds: "dec_nat (n div 10) = d # ds" by (cases "dec_nat (n div 10)") auto
    then have "d = CHR ''0''" using "1.prems" False by (subst (asm) dec_nat.simps) simp
    then have "dec_nat (n div 10) = ''0''" using "1.IH"[OF False ds] ds by simp
    then have "undec 0 (dec_nat (n div 10)) = undec 0 ''0''" by (rule arg_cong)
    then have "n div 10 = 0" by (simp only: undec_dec_nat) simp
    then show ?thesis using False by simp
  qed
qed

lemma dec_nat_json_number: "json_number (dec_nat n)" "json_number (CHR ''-'' # dec_nat n)"
proof -
  obtain c cs where c: "dec_nat n = c # cs" by (cases "dec_nat n") auto
  have d: "is_digit c" "list_all is_digit cs" using dec_nat_all_digits[of n] c by auto
  then have drop: "dropWhile is_digit cs = []" by (auto simp: list_all_iff)
  have "c \<noteq> CHR ''-''" using d(1) by (auto simp: is_digit_def)
  moreover have "num_int (c # cs) = Some []"
    using d drop dec_nat_first[OF c] by (auto simp: num_int_def)
  ultimately show "json_number (dec_nat n)" "json_number (CHR ''-'' # dec_nat n)"
    by (simp_all add: json_number_def strip_minus_def num_frac_def num_exp_def c)
qed

lemma ParseFloat_dec:
  "ParseFloat (dec_nat n) = float_of_ratio False n 1"
  "ParseFloat (CHR ''-'' # dec_nat n) = float_of_ratio True n 1"
proof -
  have tw: "takeWhile is_digit (dec_nat n) = dec_nat n" "dropWhile is_digit (dec_nat n) = []"
    using dec_nat_all_digits[of n] by (auto simp: list_all_iff)
  obtain c cs where c: "dec_nat n = c # cs" by (cases "dec_nat n") auto
  have "c \<noteq> CHR ''-''" using dec_nat_all_digits[of n] c by (auto simp: is_digit_def)
  then have "strip_minus (dec_nat n) = dec_nat n" by (simp add: strip_minus_def c)
  then show "ParseFloat (dec_nat n) = float_of_ratio False n 1"
    by (simp add: ParseFloat_def Let_def tw)
  show "ParseFloat (CHR ''-'' # dec_nat n) = float_of_ratio True n 1"
    by (simp add: ParseFloat_def Let_def tw strip_minus_def)
qed

lemma print_integer_of:
  assumes "0 < n" "n < 2 ^ 53" "float_of_ratio s n 1 = Some d"
  shows "print_integer d = Some ((if s then ''-'' else []) @ dec_nat n)"
proof -
  have d: "d = Float64 s (n * 2 ^ (53 - bit_len n)) (int (bit_len n) - 53)"
    using float_of_integer[OF assms(1,2)] assms(3) by simp
  have "bit_len n \<le> 53" by (rule bit_len_le[OF assms(2)])
  then have "nat (53 - int (bit_len n)) = 53 - bit_len n" by simp
  then show ?thesis using assms(1,2) \<open>bit_len n \<le> 53\<close> by (simp add: print_integer_def d)
qed

lemma print_integer_codec: "number_codec print_integer"
  unfolding number_codec_def
proof (intro allI impI)
  fix d t
  assume p: "print_integer d = Some t"
  show "json_number t \<and> (\<exists>d'. ParseFloat t = Some d' \<and> print_integer d' = Some t)"
  proof (cases "mant d = 0")
    case True
    have z: "dec_nat 0 = ''0''" by (simp add: dec_nat.simps digit_char_def char_of_def bit_0)
    have "t = ''0''" using p True by (simp add: print_integer_def)
    moreover have "ParseFloat ''0'' = Some (Float64 False 0 (-1074))"
      using ParseFloat_dec(1)[of 0] z by (simp add: float_of_ratio_def)
    moreover have "json_number ''0''" using dec_nat_json_number(1)[of 0] z by simp
    ultimately show ?thesis by (simp add: print_integer_def)
  next
    case False
    define n where "n = mant d div 2 ^ nat (- expo d)"
    have n: "t = (if neg d then ''-'' else []) @ dec_nat n" "n < 2 ^ 53" "2 ^ nat (- expo d) dvd mant d"
      using p False by (auto simp: print_integer_def n_def split: if_splits)
    then have pos: "0 < n" using False by (auto simp: n_def elim: dvdE)
    obtain d' where d': "float_of_ratio (neg d) n 1 = Some d'"
      using float_of_integer[OF pos n(2)] by blast
    then have "ParseFloat t = Some d'" using n(1) ParseFloat_dec[of n] by (cases "neg d") auto
    moreover have "json_number t" using n(1) dec_nat_json_number[of n] by (cases "neg d") auto
    ultimately show ?thesis using print_integer_of[OF pos n(2) d'] n(1) by blast
  qed
qed

section \<open>Two documents\<close>

text \<open>One field tree written in two ways, and a document that also stores a digest.\<close>

definition doc1 :: bytes where \<open>doc1 = ''{"b":1, "a":true}''\<close>
definition doc2 :: bytes where \<open>doc2 = ''{"a":true,"b":1}''\<close>
definition doc3 :: bytes where \<open>doc3 = ''{"h":"x","a":true,"b":1}''\<close>

definition double_one :: float64 where
  "double_one = Float64 False (2 ^ 52) (-52)"

lemmas read_eval = read_json_def lex_json.simps lex_token_def is_space_def is_digit_def num_char_def
  json_number_def num_int_def num_frac_def num_exp_def strip_minus_def has_prefix_def
  lex_string.simps lex_escape_def encode_runes_def encode_rune_def scalar_def parse_step_def
  value_step_def name_step_def close_step_def deliver_def push_frame_def max_nesting_def
  rune_error_def char_of_def bit_0

lemmas number_eval = decode_number_def ParseFloat_def float_of_ratio_def print_integer_def
  float_expo_def bit_len.simps round_even_def Let_def integer_token_def dec_nat.simps digit_char_def

lemma decode_one: "decode_number print_integer ''1'' = Inr double_one"
  by (simp add: number_eval strip_minus_def is_digit_def char_of_def bit_0 double_one_def)

lemma print_one: "print_integer double_one = Some ''1''"
  by (simp add: print_integer_def double_one_def dec_nat.simps digit_char_def char_of_def bit_0)

lemma decode_docs:
  "decodeJSON print_integer doc1 = Inr (JObj [(''b'', JNum double_one), (''a'', JBool True)])"
  "decodeJSON print_integer doc2 = Inr (JObj [(''a'', JBool True), (''b'', JNum double_one)])"
  "decodeJSON print_integer doc3
     = Inr (JObj [(''h'', JStr ''x''), (''a'', JBool True), (''b'', JNum double_one)])"
proof -
  have "read_json doc1 = Some (JObj [(''b'', JNum ''1''), (''a'', JBool True)])"
    by (simp add: doc1_def read_eval)
  then show "decodeJSON print_integer doc1 = Inr (JObj [(''b'', JNum double_one), (''a'', JBool True)])"
    by (simp add: decodeJSON_def decode_one)
  have "read_json doc2 = Some (JObj [(''a'', JBool True), (''b'', JNum ''1'')])"
    by (simp add: doc2_def read_eval)
  then show "decodeJSON print_integer doc2 = Inr (JObj [(''a'', JBool True), (''b'', JNum double_one)])"
    by (simp add: decodeJSON_def decode_one)
  have "read_json doc3 = Some (JObj [(''h'', JStr ''x''), (''a'', JBool True), (''b'', JNum ''1'')])"
    by (simp add: doc3_def read_eval)
  then show "decodeJSON print_integer doc3
     = Inr (JObj [(''h'', JStr ''x''), (''a'', JBool True), (''b'', JNum double_one)])"
    by (simp add: decodeJSON_def decode_one)
qed

lemma canonical_docs:
  "CanonicalizeJSON print_integer doc1 = Inr doc2" "CanonicalizeJSON print_integer doc2 = Inr doc2"
proof -
  have "writeCanonicalJSON print_integer (JObj [(''b'', JNum double_one), (''a'', JBool True)]) = Inr doc2"
    "writeCanonicalJSON print_integer (JObj [(''a'', JBool True), (''b'', JNum double_one)]) = Inr doc2"
    by (simp_all add: key_less_def utf16_eval print_one jsonQuote_def quote_rune_def encode_rune_def
        scalar_def char_of_def bit_0 doc2_def)
  then show "CanonicalizeJSON print_integer doc1 = Inr doc2" "CanonicalizeJSON print_integer doc2 = Inr doc2"
    by (simp_all add: CanonicalizeJSON_def decode_docs del: writeCanonicalJSON.simps)
qed

lemma same_ab: "same_tree (JObj [(''b'', x), (''a'', y)]) (JObj [(''a'', y), (''b'', x)])"
  by (rule same_tree.obj[of _ "[(''b'', x), (''a'', y)]"]) (auto simp: same_tree_refl)

section \<open>Properties\<close>

text \<open>
  C16. Canonicalization is idempotent: canonical bytes are a valid document whose canonical bytes are
  themselves. Persisted plans and identities are checked by exactly this comparison.
\<close>

theorem CanonicalizeJSON_idempotent:
  assumes "number_codec NumberToJSON" "CanonicalizeJSON NumberToJSON data = Inr c"
  shows "CanonicalizeJSON NumberToJSON c = Inr c"
  using assms canonical_read(2)[OF assms(1)] unfolding CanonicalizeJSON_Inr by metis

theorem CanonicalizeJSON_idempotent_witness:
  "CanonicalizeJSON print_integer doc1 = Inr doc2 \<and> CanonicalizeJSON print_integer doc2 = Inr doc2"
  using CanonicalizeJSON_idempotent[OF print_integer_codec canonical_docs(1)] canonical_docs(1) by simp

text \<open>
  C17. Canonical bytes depend on the field tree alone: documents whose trees differ only in the order
  of object members, whatever their white space and escapes, have the same canonical bytes.
\<close>

theorem CanonicalizeJSON_member_order:
  assumes "decodeJSON f d1 = Inr v" "decodeJSON f d2 = Inr w" "same_tree v w"
  shows "CanonicalizeJSON f d1 = Inr c \<longleftrightarrow> CanonicalizeJSON f d2 = Inr c"
proof -
  have "canon f v = Inr t \<longleftrightarrow> canon f w = Inr t" for t
    using same_tree_canon same_tree_sym assms decodeJSON_wf by blast
  then show ?thesis using assms(1,2) unfolding CanonicalizeJSON_Inr by auto
qed

theorem CanonicalizeJSON_member_order_witness:
  "CanonicalizeJSON print_integer doc1 = Inr doc2 \<longleftrightarrow> CanonicalizeJSON print_integer doc2 = Inr doc2"
  by (rule CanonicalizeJSON_member_order[OF decode_docs(1,2) same_ab])

text \<open>
  C18. Canonical bytes identify the field tree: two documents with the same canonical bytes have
  trees that agree, with numbers as printed, up to the order of object members.
\<close>

theorem CanonicalizeJSON_injective:
  assumes "number_codec NumberToJSON"
    and "decodeJSON NumberToJSON d1 = Inr v" "decodeJSON NumberToJSON d2 = Inr w"
    and "CanonicalizeJSON NumberToJSON d1 = Inr c" "CanonicalizeJSON NumberToJSON d2 = Inr c"
  shows "same_tree (printed NumberToJSON v) (printed NumberToJSON w)"
proof -
  obtain t u where t: "canon NumberToJSON v = Inr t" "c = text_of t"
    and u: "canon NumberToJSON w = Inr u" "c = text_of u"
    using assms(2-5) unfolding CanonicalizeJSON_Inr by auto
  have "t = u"
    using canonical_read(1)[OF assms(1,2) t(1)] canonical_read(1)[OF assms(1,3) u(1)] t(2) u(2) by simp
  then show ?thesis
    using canon_same_tree[OF t(1)] canon_same_tree[OF u(1)] same_tree_sym same_tree_trans by blast
qed

theorem CanonicalizeJSON_injective_witness:
  "same_tree (JObj [(''b'', JNum ''1''), (''a'', JBool True)]) (JObj [(''a'', JBool True), (''b'', JNum ''1'')])"
  using CanonicalizeJSON_injective[OF print_integer_codec decode_docs(1,2) canonical_docs]
  by (simp add: printed_def print_one)

text \<open>
  Every digest has the reference form that \<^verbatim>\<open>IsSHA256Ref\<close> accepts: \<^verbatim>\<open>sha256:\<close> and 64 lower-case
  hexadecimal digits.
\<close>

theorem DigestBytes_form: "IsSHA256Ref (DigestBytes data)"
  by (simp add: IsSHA256Ref_def DigestBytes_def has_prefix_def Sum256_hex_form)

text \<open>
  Self-hashing is sound: the digest with a root member excluded does not depend on that member,
  its presence or its place, so a document that stores its digest under the member verifies.
\<close>

theorem self_exclusion:
  assumes "decodeJSON f d1 = Inr (JObj ms)" "decodeJSON f d2 = Inr (JObj ns)"
    and "same_tree (JObj (without_member member ms)) (JObj (without_member member ns))"
    and "DigestJSONWithRootMemberExcluded f d1 member = Inr h"
  shows "DigestJSONWithRootMemberExcluded f d2 member = Inr h"
proof -
  have "wf_json (JObj (without_member member ms))"
    using decodeJSON_wf[OF assms(1)] unfolding wf_json_JObj without_member_def
    by (auto simp: distinct_map_filter)
  moreover obtain t where "canon f (JObj (without_member member ms)) = Inr t" "h = DigestBytes (text_of t)"
    using assms(1,4)
    by (auto simp: DigestJSONWithRootMemberExcluded_def write_canon bindE_eq_Inr simp del: canon.simps)
  ultimately have "canon f (JObj (without_member member ns)) = Inr t" "h = DigestBytes (text_of t)"
    using same_tree_canon[OF assms(3)] by blast+
  then show ?thesis
    using assms(2) by (simp add: DigestJSONWithRootMemberExcluded_def write_canon del: canon.simps)
qed

theorem self_exclusion_witness:
  "DigestJSONWithRootMemberExcluded print_integer doc3 ''h'' = Inr (DigestBytes doc2)"
proof (rule self_exclusion[OF decode_docs(2,3)])
  show "same_tree (JObj (without_member ''h'' [(''a'', JBool True), (''b'', JNum double_one)]))
    (JObj (without_member ''h'' [(''h'', JStr ''x''), (''a'', JBool True), (''b'', JNum double_one)]))"
    by (simp add: without_member_def same_tree_refl)
  show "DigestJSONWithRootMemberExcluded print_integer doc2 ''h'' = Inr (DigestBytes doc2)"
    using canonical_docs(2)
    by (simp add: DigestJSONWithRootMemberExcluded_def CanonicalizeJSON_def decode_docs
        without_member_def del: writeCanonicalJSON.simps)
qed

end
