(* ===== verification/MapExec.thy ===== *)
theory MapExec
  imports Canonical
begin

text \<open>
  \<^verbatim>\<open>internal/mapexec/values.go\<close>: the values of a map scope. A canonical array is expanded into indexed
  items and the completed items are assembled in source order. \<^verbatim>\<open>json.Marshal\<close> of raw messages is
  the compact text of the values they parse to; a nil raw message is written as \<^verbatim>\<open>null\<close>.
\<close>

section \<open>Items and results\<close>

record Item =
  item_index :: nat
  item_body :: bytes

record Result =
  res_index :: int
  res_body :: bytes

datatype map_error =
    InputNotCanonical
  | InputNotArray
  | ItemInvalid nat
  | ResultCount nat int
  | IndexOutside int
  | IndexDuplicated int
  | OutputNotCanonical int
  | EncodeFailed canonical_error
  | ValueAndFailure int
  | FailureNotCanonical
  | FailureInvalid
  | AttemptsOutside int int

definition is_canonical :: "number_printer \<Rightarrow> bytes \<Rightarrow> bool" where
  "is_canonical f body = (CanonicalizeJSON f body = Inr body)"

definition marshal_tree :: "number_printer \<Rightarrow> string json \<Rightarrow> (canonical_error, bytes) result" where
  "marshal_tree f v = CanonicalizeJSON f (text_of v)"

definition marshal_raws :: "number_printer \<Rightarrow> bytes list \<Rightarrow> (canonical_error, bytes) result" where
  "marshal_raws f raws =
     (case those (map read_json raws) of
        None \<Rightarrow> Inl JsonSyntax
      | Some vs \<Rightarrow> marshal_tree f (JArr vs))"

definition Expand :: "number_printer \<Rightarrow> bytes \<Rightarrow> (map_error, Item list) result" where
  "Expand f body =
     (if \<not> is_canonical f body then Inl InputNotCanonical
      else if body = [] \<or> hd body \<noteq> CHR 0x5B then Inl InputNotArray
      else case read_json body of
        Some (JArr vs) \<Rightarrow>
          mapE (\<lambda>(i, v). case CanonicalizeJSON f (text_of v) of
              Inl e \<Rightarrow> Inl (ItemInvalid i)
            | Inr b \<Rightarrow> Inr \<lparr>item_index = i, item_body = b\<rparr>) (enumerate 0 vs)
      | _ \<Rightarrow> Inl InputNotArray)"

definition collect_step ::
    "number_printer \<Rightarrow> int \<Rightarrow> bytes list \<times> bool list \<Rightarrow> Result \<Rightarrow> (map_error, bytes list \<times> bool list) result" where
  "collect_step f n st r =
     (case st of (ordered, seen) \<Rightarrow>
      if res_index r < 0 \<or> n \<le> res_index r then Inl (IndexOutside (res_index r))
      else if seen ! nat (res_index r) then Inl (IndexDuplicated (res_index r))
      else if \<not> is_canonical f (res_body r) then Inl (OutputNotCanonical (res_index r))
      else Inr (ordered[nat (res_index r) := res_body r], seen[nat (res_index r) := True]))"

definition Collect_map :: "number_printer \<Rightarrow> int \<Rightarrow> Result list \<Rightarrow> (map_error, bytes) result" where
  "Collect_map f n rs =
     (if n < 0 \<or> int (length rs) \<noteq> n then Inl (ResultCount (length rs) n)
      else bindE (foldE (collect_step f n) (replicate (nat n) ''null'', replicate (nat n) False) rs)
        (\<lambda>(ordered, _). case marshal_raws f ordered of Inl e \<Rightarrow> Inl (EncodeFailed e) | Inr b \<Rightarrow> Inr b))"

section \<open>Item failures\<close>

datatype FailureKind = FailureError | FailureKilled | FailureNonRetryable | FailureTimeout

fun kind_string :: "FailureKind \<Rightarrow> string" where
  "kind_string FailureError = ''error''"
| "kind_string FailureKilled = ''killed''"
| "kind_string FailureNonRetryable = ''non-retryable''"
| "kind_string FailureTimeout = ''timeout''"

definition DiagnosticLimit :: nat where
  "DiagnosticLimit = 1024"

record Failure =
  fl_attempts :: int
  fl_diagnostic :: string
  fl_kind :: FailureKind

text \<open>\<^verbatim>\<open>strings.ToValidUTF8(s, "\uFFFD")\<close>: a run of invalid bytes becomes one replacement.\<close>

function valid_runes :: "bool \<Rightarrow> string \<Rightarrow> nat list" where
  "valid_runes invalid s =
     (if s = [] then []
      else if decode_rune s = (rune_error, 1)
      then (if invalid then [] else [rune_error]) @ valid_runes True (drop 1 s)
      else fst (decode_rune s) # valid_runes False (drop (snd (decode_rune s)) s))"
  by pat_completeness auto
termination
  using decode_rune_size by (relation "measure (\<lambda>(_, s). length s)") auto

declare valid_runes.simps [simp del]

definition ToValidUTF8 :: "string \<Rightarrow> string" where
  "ToValidUTF8 s = encode_runes (valid_runes False s)"

definition NewFailure :: "FailureKind \<Rightarrow> int \<Rightarrow> string \<Rightarrow> Failure" where
  "NewFailure kind attempts diagnostic =
     (let d = ToValidUTF8 diagnostic; rs = runes d
      in \<lparr>fl_attempts = attempts,
          fl_diagnostic = (if DiagnosticLimit < length rs then encode_runes (take DiagnosticLimit rs) else d),
          fl_kind = kind\<rparr>)"

record Outcome =
  oc_index :: int
  oc_value :: "bytes option"
  oc_failure :: "Failure option"

definition failure_json :: "Failure \<Rightarrow> string json" where
  "failure_json x = JObj [(''attempts'', JNum (dec_int (fl_attempts x))), (''diagnostic'', JStr (fl_diagnostic x)),
     (''kind'', JStr (kind_string (fl_kind x)))]"

definition failed_entry :: "Failure \<Rightarrow> string json" where
  "failed_entry x = JObj [(''failure'', failure_json x), (''status'', JStr ''failed'')]"

definition value_entry :: "string json \<Rightarrow> string json" where
  "value_entry v = JObj [(''status'', JStr ''succeeded''), (''value'', v)]"

definition outcome_result :: "number_printer \<Rightarrow> Outcome \<Rightarrow> (map_error, Result) result" where
  "outcome_result f oc =
     (let encode = (\<lambda>v. case marshal_tree f v of
            Inl e \<Rightarrow> Inl (EncodeFailed e)
          | Inr b \<Rightarrow> Inr \<lparr>res_index = oc_index oc, res_body = b\<rparr>);
          value = (case oc_value oc of None \<Rightarrow> [] | Some b \<Rightarrow> b)
      in case oc_failure oc of
           None \<Rightarrow>
             if \<not> is_canonical f value then Inl (OutputNotCanonical (oc_index oc))
             else (case read_json value of
                 None \<Rightarrow> Inl (EncodeFailed JsonSyntax)
               | Some v \<Rightarrow> encode (value_entry v))
         | Some x \<Rightarrow>
             (case oc_value oc of
                None \<Rightarrow> encode (failed_entry x)
              | Some _ \<Rightarrow> Inl (ValueAndFailure (oc_index oc))))"

definition CollectOutcomes :: "number_printer \<Rightarrow> int \<Rightarrow> Outcome list \<Rightarrow> (map_error, bytes) result" where
  "CollectOutcomes f n outcomes = bindE (mapE (outcome_result f) outcomes) (Collect_map f n)"

text \<open>
  \<^verbatim>\<open>ParseFailure\<close>. The schema check and the decoding of a record that satisfies it are third-party
  and library code: \<open>parse\<close> is both, \<^const>\<open>None\<close> when either refuses the body.
\<close>

definition ParseFailure ::
    "number_printer \<Rightarrow> (bytes \<Rightarrow> Failure option) \<Rightarrow> bytes \<Rightarrow> int \<Rightarrow> (map_error, Failure) result" where
  "ParseFailure f parse body maxAttempts =
     (if \<not> is_canonical f body then Inl FailureNotCanonical
      else case parse body of
        None \<Rightarrow> Inl FailureInvalid
      | Some x \<Rightarrow>
          if fl_attempts x < 1 \<or> maxAttempts < fl_attempts x then Inl (AttemptsOutside (fl_attempts x) maxAttempts)
          else Inr x)"

section \<open>Canonical parts of a canonical document\<close>

lemma canonical_tree:
  assumes "number_codec f" "is_canonical f b"
  obtains t v where "read_json b = Some t" "decodeNumbers f t = Inr v" "canon f v = Inr t" "b = text_of t"
proof -
  obtain v t where t: "decodeJSON f b = Inr v" "canon f v = Inr t" "b = text_of t"
    using assms(2) unfolding is_canonical_def CanonicalizeJSON_Inr by blast
  then have "read_json b = Some t" using canonical_read(1)[OF assms(1) t(1,2)] by simp
  then show ?thesis using that t by (simp add: decodeJSON_def)
qed

lemma text_of_canonical:
  assumes "read_json (text_of t) = Some t" "decodeNumbers f t = Inr v" "canon f v = Inr t"
  shows "CanonicalizeJSON f (text_of t) = Inr (text_of t)"
  using assms unfolding CanonicalizeJSON_Inr by (auto simp: decodeJSON_def)

lemma fold_max_eq: "fold max xs (n :: nat) = Max (set (n # xs))"
  by (metis Max.set_eq_fold)

lemma array_elements:
  assumes "read_json b = Some (JArr ts)" "t \<in> set ts"
  shows "read_json (text_of t) = Some t"
proof (rule read_text_of)
  have "depth t \<le> fold max (map depth ts) 0" using assms(2) by (intro fold_max_le) simp
  then show "depth t \<le> max_nesting" using read_json_ok(3)[OF assms(1)] by simp
  show "wf_json t" "numbers_ok t" using read_json_ok(1,2)[OF assms(1)] assms(2) by (auto simp: list_all_iff)
qed

lemma canonical_array_elements:
  assumes "decodeNumbers f (JArr ts) = Inr v" "canon f v = Inr (JArr ts)" "t \<in> set ts"
  shows "\<exists>w. decodeNumbers f t = Inr w \<and> canon f w = Inr t"
proof -
  obtain vs where vs: "list_all2 (\<lambda>t w. decodeNumbers f t = Inr w) ts vs" "v = JArr vs"
    using assms(1) by (auto simp: bindE_eq_Inr mapE_Inr_conv)
  then have "list_all2 (\<lambda>w t. canon f w = Inr t) vs ts"
    using assms(2) by (auto simp: bindE_eq_Inr mapE_Inr_conv)
  then show ?thesis using vs(1) assms(3) by (auto simp: list_all2_conv_all_nth in_set_conv_nth)
qed

lemma those_Some: "those xs = Some ys \<longleftrightarrow> xs = map Some ys"
  by (induction xs arbitrary: ys) (auto simp: map_eq_Cons_conv split: option.splits)

definition shallow :: "bytes \<Rightarrow> bool" where
  "shallow b = (\<exists>t. read_json b = Some t \<and> depth t < max_nesting)"

lemma marshal_canonical:
  assumes "number_codec f" "\<forall>r \<in> set raws. is_canonical f r \<and> shallow r"
  shows "marshal_raws f raws = Inr ([CHR 0x5B] @ join_with [CHR 0x2C] raws @ [CHR 0x5D])"
proof -
  have "\<exists>t v. read_json r = Some t \<and> decodeNumbers f t = Inr v \<and> canon f v = Inr t \<and> r = text_of t
      \<and> depth t < max_nesting \<and> wf_json t \<and> numbers_ok t" if "r \<in> set raws" for r
  proof -
    have r: "is_canonical f r" "shallow r" using assms(2) that by auto
    then show ?thesis
      using canonical_tree[OF assms(1) r(1)] read_json_ok unfolding shallow_def by (metis option.inject)
  qed
  then obtain tr vr where tr: "\<And>r. r \<in> set raws \<Longrightarrow> read_json r = Some (tr r)"
    and can: "\<And>r. r \<in> set raws \<Longrightarrow> decodeNumbers f (tr r) = Inr (vr r) \<and> canon f (vr r) = Inr (tr r)"
    and tx: "\<And>r. r \<in> set raws \<Longrightarrow> text_of (tr r) = r"
    and ok: "\<And>r. r \<in> set raws \<Longrightarrow> depth (tr r) < max_nesting \<and> wf_json (tr r) \<and> numbers_ok (tr r)"
    by metis
  let ?t = "JArr (map tr raws)"
  have "\<forall>d \<in> set (map depth (map tr raws)). d < max_nesting" using ok by auto
  then have "depth ?t \<le> max_nesting" by (auto simp: fold_max_eq max_nesting_def)
  then have "read_json (text_of ?t) = Some ?t"
    using ok by (intro read_text_of) (auto simp: list_all_iff)
  moreover have "decodeNumbers f ?t = Inr (JArr (map vr raws))" "canon f (JArr (map vr raws)) = Inr ?t"
    using can by (auto simp: bindE_eq_Inr mapE_Inr_conv list_all2_conv_all_nth)
  ultimately have "CanonicalizeJSON f (text_of ?t) = Inr (text_of ?t)" by (rule text_of_canonical)
  moreover have "those (map read_json raws) = Some (map tr raws)" using tr by (simp add: those_Some)
  moreover have "map (\<lambda>x. text_of (tr x)) raws = raws" using tx by (simp add: map_idI)
  then have "text_of ?t = [CHR 0x5B] @ join_with [CHR 0x2C] raws @ [CHR 0x5D]"
    by (simp add: text_of_simps comp_def)
  ultimately show ?thesis by (simp add: marshal_raws_def marshal_tree_def)
qed

section \<open>Assembly in index order\<close>

definition valid_results :: "number_printer \<Rightarrow> int \<Rightarrow> Result list \<Rightarrow> bool" where
  "valid_results f n rs =
     (int (length rs) = n \<and> distinct (map res_index rs)
      \<and> (\<forall>r \<in> set rs. 0 \<le> res_index r \<and> res_index r < n \<and> is_canonical f (res_body r)))"

definition body_at :: "Result list \<Rightarrow> int \<Rightarrow> bytes option" where
  "body_at rs i = map_of (map (\<lambda>r. (res_index r, res_body r)) rs) i"

definition in_order :: "Result list \<Rightarrow> bytes list" where
  "in_order rs = map (\<lambda>i. the (body_at rs (int i))) [0..<length rs]"

lemma collect_fold:
  assumes "length ordered = nat n" "length seen = nat n" "0 \<le> n"
  shows "foldE (collect_step f n) (ordered, seen) rs = Inr st \<longleftrightarrow>
     distinct (map res_index rs)
     \<and> (\<forall>r \<in> set rs. 0 \<le> res_index r \<and> res_index r < n \<and> is_canonical f (res_body r) \<and> \<not> seen ! nat (res_index r))
     \<and> st = (fold (\<lambda>r os. os[nat (res_index r) := res_body r]) rs ordered,
             fold (\<lambda>r os. os[nat (res_index r) := True]) rs seen)"
  using assms
proof (induction rs arbitrary: ordered seen)
  case (Cons r rs)
  show ?case
  proof (cases "0 \<le> res_index r \<and> res_index r < n \<and> \<not> seen ! nat (res_index r) \<and> is_canonical f (res_body r)")
    case True
    let ?o = "ordered[nat (res_index r) := res_body r]" and ?s = "seen[nat (res_index r) := True]"
    have "nat (res_index r) < length seen" using True Cons.prems by linarith
    then have "(0 \<le> res_index q \<and> res_index q < n \<and> is_canonical f (res_body q) \<and> \<not> ?s ! nat (res_index q))
      \<longleftrightarrow> (0 \<le> res_index q \<and> res_index q < n \<and> is_canonical f (res_body q) \<and> \<not> seen ! nat (res_index q))
          \<and> res_index r \<noteq> res_index q" for q
      using True by (auto simp: nth_list_update)
    then have "(\<forall>q \<in> set rs. 0 \<le> res_index q \<and> res_index q < n \<and> is_canonical f (res_body q) \<and> \<not> ?s ! nat (res_index q))
      \<longleftrightarrow> (\<forall>q \<in> set rs. 0 \<le> res_index q \<and> res_index q < n \<and> is_canonical f (res_body q)
          \<and> \<not> seen ! nat (res_index q)) \<and> res_index r \<notin> res_index ` set rs"
      by (auto simp only: image_iff)
    then show ?thesis
      using Cons.IH[of ?o ?s] Cons.prems True by (auto simp: collect_step_def)
  qed (auto simp: collect_step_def)
qed auto

lemma fold_slots:
  assumes "distinct (map res_index rs)" "\<forall>r \<in> set rs. 0 \<le> res_index r \<and> nat (res_index r) < length xs" "i < length xs"
  shows "fold (\<lambda>r os. os[nat (res_index r) := res_body r]) rs xs ! i
    = (case body_at rs (int i) of None \<Rightarrow> xs ! i | Some b \<Rightarrow> b)"
  using assms
proof (induction rs arbitrary: xs)
  case (Cons r rs)
  have "body_at rs (res_index r) = None"
    using Cons.prems(1) by (auto simp: body_at_def map_of_eq_None_iff image_image)
  then show ?case
    using Cons by (auto simp: body_at_def nth_list_update split: option.splits)
qed (simp add: body_at_def)

lemma length_fold_slots [simp]: "length (fold (\<lambda>r os. os[g r := h r]) rs xs) = length xs"
  by (induction rs arbitrary: xs) auto

lemma dense_indices:
  assumes "valid_results f n rs"
  shows "res_index ` set rs = {0..<n}"
proof (rule card_subset_eq)
  show "res_index ` set rs \<subseteq> {0..<n}" using assms by (auto simp: valid_results_def)
  have "card (res_index ` set rs) = length rs"
    using assms distinct_card[of "map res_index rs"] by (simp add: valid_results_def)
  then show "card (res_index ` set rs) = card {0..<n}" using assms by (auto simp: valid_results_def)
qed simp

lemma body_at_mem:
  assumes "distinct (map res_index rs)"
  shows "body_at rs i = Some b \<longleftrightarrow> (\<exists>r \<in> set rs. res_index r = i \<and> res_body r = b)"
proof -
  have "distinct (map fst (map (\<lambda>r. (res_index r, res_body r)) rs))" using assms by (simp add: comp_def)
  then show ?thesis unfolding body_at_def by (subst map_of_eq_Some_iff) (auto simp: image_iff)
qed

lemma Collect_map_Inr:
  "Collect_map f n rs = Inr b \<longleftrightarrow> valid_results f n rs \<and> marshal_raws f (in_order rs) = Inr b"
proof (cases "0 \<le> n \<and> int (length rs) = n")
  case True
  let ?o = "fold (\<lambda>r os. os[nat (res_index r) := res_body r]) rs (replicate (nat n) ''null'')"
  have slots: "?o = in_order rs" if v: "valid_results f n rs"
  proof (rule nth_equalityI)
    show "length ?o = length (in_order rs)" using True by (auto simp: in_order_def)
    fix i assume "i < length ?o"
    then have i: "i < nat n" by simp
    then have "int i \<in> res_index ` set rs" using dense_indices[OF v] True by auto
    then obtain b where "body_at rs (int i) = Some b"
      using v body_at_mem[of rs "int i"] unfolding valid_results_def by (metis imageE)
    moreover have "\<forall>r \<in> set rs. 0 \<le> res_index r \<and> nat (res_index r) < nat n"
      using v by (auto simp: valid_results_def)
    ultimately show "?o ! i = in_order rs ! i"
      using v i True fold_slots[of rs "replicate (nat n) ''null''" i]
      by (auto simp: valid_results_def in_order_def)
  qed
  have "foldE (collect_step f n) (replicate (nat n) ''null'', replicate (nat n) False) rs = Inr st \<longleftrightarrow>
      valid_results f n rs \<and> st = (?o, fold (\<lambda>r os. os[nat (res_index r) := True]) rs (replicate (nat n) False))" for st
    using True collect_fold[of "replicate (nat n) ''null''" n "replicate (nat n) False" f rs st]
    by (auto simp: valid_results_def)
  then show ?thesis
    using True slots by (auto simp: Collect_map_def bindE_eq_Inr split: sum.splits)
qed (auto simp: Collect_map_def valid_results_def)

lemma in_order_mset:
  assumes "distinct (map res_index rs)" "mset rs = mset rs'"
  shows "in_order rs = in_order rs'"
proof -
  have "distinct (map res_index rs')"
    using assms by (metis mset_eq_imp_distinct_iff mset_map)
  then have "body_at rs i = body_at rs' i" for i
    using body_at_mem[OF assms(1), of i] body_at_mem[of rs' i] mset_eq_setD[OF assms(2)]
    by (metis option.exhaust)
  then show ?thesis using mset_eq_length[OF assms(2)] by (simp add: in_order_def)
qed

lemma valid_results_mset: "mset rs = mset rs' \<Longrightarrow> valid_results f n rs = valid_results f n rs'"
  unfolding valid_results_def
  using mset_eq_setD[of rs rs'] mset_eq_length[of rs rs'] by (metis mset_eq_imp_distinct_iff mset_map)

section \<open>Expanding and collecting\<close>

definition as_result :: "Item \<Rightarrow> Result" where
  "as_result it = \<lparr>res_index = int (item_index it), res_body = item_body it\<rparr>"

lemma Expand_items:
  assumes "number_codec f" "Expand f body = Inr items"
  obtains ts where "read_json body = Some (JArr ts)" "body = text_of (JArr ts)" "is_canonical f body"
    "items = map (\<lambda>(i, t). \<lparr>item_index = i, item_body = text_of t\<rparr>) (enumerate 0 ts)"
    "\<And>t. t \<in> set ts \<Longrightarrow> is_canonical f (text_of t) \<and> read_json (text_of t) = Some t"
proof -
  have can: "is_canonical f body" using assms(2) by (auto simp: Expand_def split: if_splits)
  obtain u v where u: "read_json body = Some u" "decodeNumbers f u = Inr v" "canon f v = Inr u" "body = text_of u"
    using canonical_tree[OF assms(1) can] .
  obtain ts where ts: "u = JArr ts"
    and items: "mapE (\<lambda>(i, v). case CanonicalizeJSON f (text_of v) of Inl e \<Rightarrow> Inl (ItemInvalid i)
      | Inr b \<Rightarrow> Inr \<lparr>item_index = i, item_body = b\<rparr>) (enumerate 0 ts) = Inr items"
    using assms(2) can u(1) by (auto simp: Expand_def split: if_splits json.splits)
  have el: "CanonicalizeJSON f (text_of t) = Inr (text_of t) \<and> read_json (text_of t) = Some t" if "t \<in> set ts" for t
    using canonical_array_elements[of f ts v t] array_elements[of body ts t] text_of_canonical[of t f] u ts that by auto
  have "items = map (\<lambda>(i, t). \<lparr>item_index = i, item_body = text_of t\<rparr>) (enumerate 0 ts)"
    using items mapE_Inr_map[of "enumerate 0 ts" "\<lambda>(i, v). case CanonicalizeJSON f (text_of v) of
        Inl e \<Rightarrow> Inl (ItemInvalid i) | Inr b \<Rightarrow> Inr \<lparr>item_index = i, item_body = b\<rparr>"
        "\<lambda>(i, t). \<lparr>item_index = i, item_body = text_of t\<rparr>"] el
    by (auto simp: in_set_enumerate_eq)
  then show ?thesis using that[OF _ _ can] u(1,4) ts el by (auto simp: is_canonical_def)
qed

lemma in_order_indexed:
  assumes "map res_index rs = map int [0..<length rs]"
  shows "in_order rs = map res_body rs"
proof (rule nth_equalityI)
  fix i assume "i < length (in_order rs)"
  then have i: "i < length rs" by (simp add: in_order_def)
  have d: "distinct (map res_index rs)" unfolding assms by (simp add: distinct_map inj_on_def)
  have "res_index (rs ! i) = int i"
  proof -
    have "map res_index rs ! i = map int [0..<length rs] ! i" using assms by simp
    then show ?thesis using i by simp
  qed
  then have "body_at rs (int i) = Some (res_body (rs ! i))" using body_at_mem[OF d] i nth_mem by blast
  then show "in_order rs ! i = map res_body rs ! i" using i by (simp add: in_order_def)
qed (simp add: in_order_def)

lemma Collect_indexed:
  assumes "number_codec f" "read_json (text_of (JArr ts)) = Some (JArr ts)" "is_canonical f (text_of (JArr ts))"
    and "\<And>t. t \<in> set ts \<Longrightarrow> is_canonical f (text_of t) \<and> read_json (text_of t) = Some t"
  shows "Collect_map f (int (length ts)) (map (\<lambda>(i, t). \<lparr>res_index = int i, res_body = text_of t\<rparr>) (enumerate 0 ts))
    = Inr (text_of (JArr ts))"
proof -
  let ?rs = "map (\<lambda>(i, t). \<lparr>res_index = int i, res_body = text_of t\<rparr>) (enumerate 0 ts)"
  have idx: "map res_index ?rs = map int [0..<length ?rs]"
    by (rule nth_equalityI) (auto simp: nth_enumerate_eq)
  have bodies: "map res_body ?rs = map text_of ts"
    by (rule nth_equalityI) (auto simp: nth_enumerate_eq)
  have "distinct (map res_index ?rs)" unfolding idx by (simp add: distinct_map inj_on_def)
  then have "valid_results f (int (length ts)) ?rs"
    using assms(4) by (auto simp: valid_results_def in_set_enumerate_eq)
  moreover have "those (map read_json (map text_of ts)) = Some ts"
    using assms(4) by (auto simp: those_Some)
  then have "marshal_raws f (in_order ?rs) = Inr (text_of (JArr ts))"
    using assms(3) in_order_indexed[OF idx] bodies
    by (simp add: marshal_raws_def marshal_tree_def is_canonical_def)
  ultimately show ?thesis unfolding Collect_map_Inr by simp
qed

lemma Collect_map_mset:
  assumes "mset rs = mset rs'"
  shows "Collect_map f n rs = Inr b \<longleftrightarrow> Collect_map f n rs' = Inr b"
proof -
  have "in_order rs = in_order rs'" if "valid_results f n rs"
    using that in_order_mset[OF _ assms] by (simp add: valid_results_def)
  then show ?thesis using valid_results_mset[OF assms, of f n] unfolding Collect_map_Inr by auto
qed

lemma CollectOutcomes_mset:
  assumes "mset ocs = mset ocs'" "CollectOutcomes f n ocs = Inr b"
  shows "CollectOutcomes f n ocs' = Inr b"
proof -
  obtain rs where rs: "mapE (outcome_result f) ocs = Inr rs" "Collect_map f n rs = Inr b"
    using assms(2) by (auto simp: CollectOutcomes_def bindE_eq_Inr)
  obtain rs' where "mapE (outcome_result f) ocs' = Inr rs'" "mset rs' = mset rs"
    using mapE_mset[OF assms(1) rs(1)] by blast
  then show ?thesis using rs(2) Collect_map_mset[of rs' rs] by (simp add: CollectOutcomes_def)
qed

lemma valid_runes_scalar: "r \<in> set (valid_runes iv s) \<Longrightarrow> scalar r"
proof (induction iv s rule: valid_runes.induct)
  case (1 iv s)
  then show ?case
    using decode_rune_scalar[of s] by (subst (asm) valid_runes.simps) (auto split: if_splits)
qed

lemma runes_ToValidUTF8: "runes (ToValidUTF8 s) = valid_runes False s"
  unfolding ToValidUTF8_def using valid_runes_scalar by (intro runes_encode) blast

section \<open>Examples\<close>

definition pair_body :: bytes where "pair_body = ''[1,true]''"

definition pair_items :: "Item list" where
  "pair_items = [\<lparr>item_index = 0, item_body = ''1''\<rparr>, \<lparr>item_index = 1, item_body = ''true''\<rparr>]"

lemma pair_texts: "text_of (JArr [JNum ''1'', JBool True]) = pair_body"
  by (simp add: text_of_simps pair_body_def)

lemma pair_reads:
  "read_json pair_body = Some (JArr [JNum ''1'', JBool True])"
  "read_json ''1'' = Some (JNum ''1'')" "read_json ''true'' = Some (JBool True)"
  by (simp_all add: pair_body_def read_eval)

lemma pair_canonical:
  "CanonicalizeJSON print_integer pair_body = Inr pair_body"
  "CanonicalizeJSON print_integer ''1'' = Inr ''1''" "CanonicalizeJSON print_integer ''true'' = Inr ''true''"
  by (simp_all add: CanonicalizeJSON_def decodeJSON_def pair_reads decode_one print_one) (simp add: pair_body_def)

lemma Expand_pair: "Expand print_integer pair_body = Inr pair_items"
proof -
  have "pair_body \<noteq> []" "hd pair_body = CHR 0x5B" by (simp_all add: pair_body_def)
  then show ?thesis
    by (simp add: Expand_def is_canonical_def pair_canonical pair_reads text_of_simps pair_items_def)
qed

section \<open>Properties\<close>

text \<open>
  C19. A map scope is lossless and independent of completion order: whatever order the items of an
  expanded array complete in, collecting them unchanged gives the array's own bytes.
\<close>

theorem Expand_Collect:
  assumes "number_codec f" "Expand f body = Inr items" "mset rs = mset (map as_result items)"
  shows "Collect_map f (int (length items)) rs = Inr body"
proof -
  obtain ts where ts: "read_json body = Some (JArr ts)" "body = text_of (JArr ts)" "is_canonical f body"
    "items = map (\<lambda>(i, t). \<lparr>item_index = i, item_body = text_of t\<rparr>) (enumerate 0 ts)"
    "\<And>t. t \<in> set ts \<Longrightarrow> is_canonical f (text_of t) \<and> read_json (text_of t) = Some t"
    using Expand_items[OF assms(1,2)] by blast
  have eq: "map as_result items = map (\<lambda>(i, t). \<lparr>res_index = int i, res_body = text_of t\<rparr>) (enumerate 0 ts)"
    using ts(4) by (auto simp: as_result_def)
  have "Collect_map f (int (length ts)) (map as_result items) = Inr body"
    unfolding eq ts(2) by (rule Collect_indexed[OF assms(1)]) (use ts in auto)
  moreover have "length items = length ts" using ts(4) by simp
  ultimately show ?thesis unfolding Collect_map_mset[OF assms(3)] by simp
qed

theorem Expand_Collect_witness:
  "Collect_map print_integer 2 [\<lparr>res_index = 1, res_body = ''true''\<rparr>, \<lparr>res_index = 0, res_body = ''1''\<rparr>] = Inr pair_body"
proof -
  have "mset [\<lparr>res_index = 1, res_body = ''true''\<rparr>, \<lparr>res_index = 0, res_body = ''1''\<rparr>] = mset (map as_result pair_items)"
    by (simp add: as_result_def pair_items_def)
  from Expand_Collect[OF print_integer_codec Expand_pair this] show ?thesis by (simp add: pair_items_def)
qed



text \<open>
  The outcomes of a collecting map do not depend on the order they are handed over in, which the
  iteration order of a Go map decides: any arrangement of the outcomes gives the same bytes.
\<close>

theorem CollectOutcomes_order:
  assumes "mset ocs = mset ocs'"
  shows "CollectOutcomes f n ocs = Inr b \<longleftrightarrow> CollectOutcomes f n ocs' = Inr b"
  using CollectOutcomes_mset[OF assms] CollectOutcomes_mset[OF assms[symmetric]] by blast

theorem CollectOutcomes_order_witness:
  "\<forall>b. CollectOutcomes print_integer 2 [\<lparr>oc_index = 0, oc_value = Some ''1'', oc_failure = None\<rparr>,
      \<lparr>oc_index = 1, oc_value = None, oc_failure = Some (NewFailure FailureTimeout 1 ''late'')\<rparr>] = Inr b
   \<longleftrightarrow> CollectOutcomes print_integer 2 [\<lparr>oc_index = 1, oc_value = None,
      oc_failure = Some (NewFailure FailureTimeout 1 ''late'')\<rparr>,
      \<lparr>oc_index = 0, oc_value = Some ''1'', oc_failure = None\<rparr>] = Inr b"
  by (rule allI, rule CollectOutcomes_order) simp

text \<open>
  An item failure's diagnostic is bounded: whatever bytes the runner reported, the record holds
  well-formed UTF-8 of at most 1024 code points, a prefix of the repaired text.
\<close>

theorem NewFailure_bounded:
  "valid_utf8 (fl_diagnostic (NewFailure kind n d)) \<and> length (runes (fl_diagnostic (NewFailure kind n d))) \<le> 1024
   \<and> runes (fl_diagnostic (NewFailure kind n d)) = take 1024 (runes (ToValidUTF8 d))
   \<and> fl_attempts (NewFailure kind n d) = n \<and> fl_kind (NewFailure kind n d) = kind"
proof -
  let ?rs = "valid_runes False d"
  have sc: "\<forall>r \<in> set (take 1024 ?rs). scalar r" "\<forall>r \<in> set ?rs. scalar r"
    by (auto intro: valid_runes_scalar dest: in_set_takeD)
  then have "valid_utf8 (encode_runes (take 1024 ?rs))" "valid_utf8 (ToValidUTF8 d)"
    "runes (encode_runes (take 1024 ?rs)) = take 1024 ?rs"
    by (auto simp: ToValidUTF8_def intro: valid_encode runes_encode)
  then show ?thesis
    by (auto simp: NewFailure_def Let_def runes_ToValidUTF8 DiagnosticLimit_def)
qed

end
