(* ===== verification/Keys.thy ===== *)
theory Keys
  imports Canonical
begin

text \<open>
  Datastore keys (\<^verbatim>\<open>internal/datastore/datastore.go\<close>) and the key builders of
  \<^verbatim>\<open>internal/orchestrator/orchestrator.go\<close>. Identifiers that pass the orchestrator's segment check
  make every builder total, and distinct identities get distinct keys.
\<close>

section \<open>Keys\<close>

abbreviation slash :: char where "slash \<equiv> CHR 0x2F"
abbreviation backslash :: char where "backslash \<equiv> CHR 0x5C"

datatype key_error =
    KeyEmpty
  | KeyLeadingSlash
  | KeyAbsolute
  | KeyBackslash
  | KeySegment string
  | KeyNotNormalized
  | BlobDigest string
  | DigestRef string
  | SegmentUnsafe string

definition is_letter :: "char \<Rightarrow> bool" where
  "is_letter c = ((65 \<le> byte c \<and> byte c \<le> 90) \<or> (97 \<le> byte c \<and> byte c \<le> 122))"

text \<open>The check for a Windows path on the Unix builds; there \<^verbatim>\<open>filepath.IsAbs\<close> is a leading slash.\<close>

definition isWindowsAbs :: "string \<Rightarrow> bool" where
  "isWindowsAbs v =
     (3 \<le> length v \<and> is_letter (v ! 0) \<and> v ! 1 = CHR 0x3A \<and> (v ! 2 = slash \<or> v ! 2 = backslash))"

text \<open>\<^verbatim>\<open>path.Clean\<close>: the lexical normal form, built from the segments with a stack.\<close>

fun clean_segments :: "bool \<Rightarrow> string list \<Rightarrow> string list \<Rightarrow> string list" where
  "clean_segments rooted out [] = rev out"
| "clean_segments rooted out (s # ss) =
     (if s = [] \<or> s = ''.'' then clean_segments rooted out ss
      else if s = ''..'' then
        (if out \<noteq> [] \<and> hd out \<noteq> ''..'' then clean_segments rooted (tl out) ss
         else if rooted then clean_segments rooted out ss
         else clean_segments rooted (s # out) ss)
      else clean_segments rooted (s # out) ss)"

definition path_Clean :: "string \<Rightarrow> string" where
  "path_Clean p =
     (if p = [] then ''.''
      else
        let rooted = (hd p = slash);
            body = join_with [slash] (clean_segments rooted [] (split_on slash p))
        in if rooted then slash # body else if body = [] then ''.'' else body)"

definition bad_segment :: "string \<Rightarrow> bool" where
  "bad_segment s = (s = [] \<or> s = ''.'' \<or> s = ''..'')"

definition ParseKey :: "string \<Rightarrow> (key_error, string) result" where
  "ParseKey v =
     (if v = [] then Inl KeyEmpty
      else if has_prefix v [slash] then Inl KeyLeadingSlash
      else if isWindowsAbs v then Inl KeyAbsolute
      else if backslash \<in> set v then Inl KeyBackslash
      else case find bad_segment (split_on slash v) of
        Some s \<Rightarrow> Inl (KeySegment s)
      | None \<Rightarrow> if path_Clean v \<noteq> v then Inl KeyNotNormalized else Inr v)"

text \<open>\<^verbatim>\<open>MustKey\<close> panics on an invalid key: \<^const>\<open>None\<close>.\<close>

definition MustKey :: "string \<Rightarrow> string option" where
  "MustKey v = (case ParseKey v of Inl _ \<Rightarrow> None | Inr k \<Rightarrow> Some k)"

definition hex64 :: "string \<Rightarrow> bool" where
  "hex64 d = (length d = 64 \<and> list_all is_lower_hex d)"

definition BlobKeySHA256Hex :: "string \<Rightarrow> (key_error, string) result" where
  "BlobKeySHA256Hex d = (if \<not> hex64 d then Inl (BlobDigest d) else ParseKey (''blobs/sha256/'' @ d))"

definition BlobKeyForBytes :: "bytes \<Rightarrow> string option" where
  "BlobKeyForBytes body = (case BlobKeySHA256Hex (Sum256_hex body) of Inl _ \<Rightarrow> None | Inr k \<Rightarrow> Some k)"

section \<open>The orchestrator's identifiers and keys\<close>

definition segment_char :: "char \<Rightarrow> bool" where
  "segment_char c = (is_letter c \<or> (48 \<le> byte c \<and> byte c \<le> 57) \<or> c \<in> set ''_.@:#-'')"

definition ValidSafePathSegment :: "string \<Rightarrow> bool" where
  "ValidSafePathSegment v =
     (if 128 < length v \<or> v = ''.'' \<or> v = ''..'' \<or> \<not> (v \<noteq> [] \<and> list_all segment_char v) then False
      else case ParseKey v of Inl _ \<Rightarrow> False | Inr _ \<Rightarrow> True)"

definition trim_space :: "string \<Rightarrow> string" where
  "trim_space s =
     (let sp = (\<lambda>c. c \<in> set [CHR 0x20, CHR 0x09, CHR 0x0D, CHR 0x0A])
      in rev (dropWhile sp (rev (dropWhile sp s))))"

definition ascii_lower :: "char \<Rightarrow> char" where
  "ascii_lower c = (if 65 \<le> byte c \<and> byte c \<le> 90 then char_of (byte c + 32) else c)"

text \<open>
  \<^verbatim>\<open>NormalizeProjectKey\<close>. \<^verbatim>\<open>strings.Map\<close> rewrites the code points; an invalid byte becomes the
  replacement character.
\<close>

definition NormalizeProjectKey :: "string \<Rightarrow> string" where
  "NormalizeProjectKey projectID =
     (let lower = (\<lambda>r. if 65 \<le> r \<and> r \<le> 90 then r + 32 else r)
      in ''sha256-'' @ Sum256_hex (encode_runes (map lower (runes (trim_space projectID)))))"

record MapItemScopeFrame =
  sf_kind :: string
  sf_map :: string
  sf_index :: int

type_synonym ExecutionScope = "MapItemScopeFrame list"

definition scope_path :: "ExecutionScope option \<Rightarrow> string" where
  "scope_path scope =
     (case scope of
        None \<Rightarrow> []
      | Some fs \<Rightarrow> ''/scopes'' @ concat (map (\<lambda>f. ''/maps/'' @ sf_map f @ ''/items/'' @ dec_int (sf_index f)) fs))"

definition runManifestKey :: "string \<Rightarrow> string \<Rightarrow> string option" where
  "runManifestKey p r = MustKey (''projects/'' @ p @ ''/runs/'' @ r @ ''/run-manifest.json'')"

definition runInputKey :: "string \<Rightarrow> string \<Rightarrow> string \<Rightarrow> ExecutionScope option \<Rightarrow> string option" where
  "runInputKey p r s scope =
     MustKey (''projects/'' @ p @ ''/runs/'' @ r @ ''/inputs/'' @ s @ scope_path scope @ ''.json'')"

definition runOutputManifestKey ::
    "string \<Rightarrow> string \<Rightarrow> string \<Rightarrow> ExecutionScope option \<Rightarrow> int \<Rightarrow> string option" where
  "runOutputManifestKey p r s scope attempt =
     MustKey (''projects/'' @ p @ ''/runs/'' @ r @ ''/steps/'' @ s @ scope_path scope @ ''/'' @ dec_int attempt
       @ ''/output-manifest.json'')"

definition runResultKey :: "string \<Rightarrow> string \<Rightarrow> string option" where
  "runResultKey p r = MustKey (''projects/'' @ p @ ''/runs/'' @ r @ ''/result.json'')"

definition FatalRunKey :: "string \<Rightarrow> string \<Rightarrow> (key_error, string) result" where
  "FatalRunKey project r =
     (if \<not> ValidSafePathSegment r then Inl (SegmentUnsafe r)
      else ParseKey (''projects/'' @ NormalizeProjectKey project @ ''/runs/'' @ r @ ''/fatal.json''))"

text \<open>\<^verbatim>\<open>strings.Replace(ref, "sha256:", "sha256-", 1)\<close>: the first occurrence.\<close>

fun dash_ref :: "string \<Rightarrow> string" where
  "dash_ref [] = []"
| "dash_ref (c # cs) = (if has_prefix (c # cs) ''sha256:'' then ''sha256-'' @ drop 7 (c # cs) else c # dash_ref cs)"

definition sourceArchiveKey :: "string \<Rightarrow> string \<Rightarrow> string" where
  "sourceArchiveKey packageHash archiveHash =
     ''packages/'' @ dash_ref packageHash @ ''/archives/'' @ dash_ref archiveHash @ ''.tar''"

definition digestHex :: "string \<Rightarrow> (key_error, string) result" where
  "digestHex h =
     (if has_prefix h ''sha256:'' \<and> length (drop 7 h) = 64 then Inr (drop 7 h) else Inl (DigestRef h))"

definition blobKeyForHash :: "string \<Rightarrow> (key_error, string) result" where
  "blobKeyForHash h = bindE (digestHex h) BlobKeySHA256Hex"

definition verifyDigest :: "string \<Rightarrow> bytes \<Rightarrow> bool" where
  "verifyDigest expected body = (DigestBytes body = expected)"

definition SourceArchiveBundleName :: "string \<Rightarrow> (key_error, string) result" where
  "SourceArchiveBundleName packageHash =
     (if \<not> IsSHA256Ref packageHash then Inl (DigestRef packageHash)
      else Inr (''source-sha256-'' @ drop 7 packageHash @ ''.tar''))"

definition safeArchivePath :: "string \<Rightarrow> bool" where
  "safeArchivePath p =
     (p \<noteq> [] \<and> \<not> has_prefix p [slash] \<and> backslash \<notin> set p \<and> \<not> list_ex bad_segment (split_on slash p))"

section \<open>What a valid key is\<close>

lemma clean_good: "\<forall>s \<in> set ss. \<not> bad_segment s \<Longrightarrow> clean_segments rooted out ss = rev out @ ss"
  by (induction ss arbitrary: out) (auto simp: bad_segment_def)

lemma path_Clean_good:
  assumes "v \<noteq> []" "\<not> has_prefix v [slash]" "\<forall>s \<in> set (split_on slash v). \<not> bad_segment s"
  shows "path_Clean v = v"
proof -
  have "hd v \<noteq> slash" using assms(1,2) by (cases v) (auto simp: has_prefix_def)
  then show ?thesis
    using assms(1) by (simp add: path_Clean_def clean_good[OF assms(3)] join_split Let_def)
qed

text \<open>The final comparison with the cleaned path never fails: the segment check implies it.\<close>

lemma ParseKey_Inr:
  "ParseKey v = Inr k \<longleftrightarrow>
     k = v \<and> v \<noteq> [] \<and> \<not> has_prefix v [slash] \<and> \<not> isWindowsAbs v \<and> backslash \<notin> set v
     \<and> (\<forall>s \<in> set (split_on slash v). \<not> bad_segment s)"
proof -
  have "(case find bad_segment ss of Some s \<Rightarrow> Inl (KeySegment s)
      | None \<Rightarrow> if path_Clean v \<noteq> v then Inl KeyNotNormalized else Inr v) = Inr k
    \<longleftrightarrow> (\<forall>s \<in> set ss. \<not> bad_segment s) \<and> path_Clean v = v \<and> k = v" for ss
    using find_None_iff[of bad_segment ss] by (cases "find bad_segment ss") auto
  then show ?thesis using path_Clean_good[of v] by (auto simp: ParseKey_def)
qed

definition plain :: "string \<Rightarrow> bool" where
  "plain s = (slash \<notin> set s \<and> backslash \<notin> set s \<and> \<not> bad_segment s)"

lemma set_join: "set (join_with sep ps) \<subseteq> set sep \<union> \<Union> (set ` set ps)"
  by (induction sep ps rule: join_with.induct) auto

lemma key_of_segments:
  assumes "\<forall>s \<in> set ss. plain s"
  shows "MustKey (join_with [slash] (''projects'' # ss)) = Some (join_with [slash] (''projects'' # ss))"
proof -
  let ?v = "join_with [slash] (''projects'' # ss)"
  have seg: "\<forall>s \<in> set (''projects'' # ss). plain s" using assms by (simp add: plain_def bad_segment_def)
  have split: "split_on slash ?v = ''projects'' # ss"
    using seg by (intro split_join) (auto simp: plain_def)
  have "backslash \<notin> set ?v"
    using set_join[of "[slash]" "''projects'' # ss"] seg by (auto simp: plain_def)
  moreover have "\<exists>rest. ?v = CHR ''p'' # CHR ''r'' # rest" by (cases ss) auto
  ultimately have "ParseKey ?v = Inr ?v"
    unfolding ParseKey_Inr split using seg by (auto simp: has_prefix_def isWindowsAbs_def plain_def)
  then show ?thesis by (simp add: MustKey_def)
qed

lemma segments_inject:
  assumes "\<forall>s \<in> set ss. plain s" "\<forall>s \<in> set ts. plain s" "ss \<noteq> []" "ts \<noteq> []"
    and "join_with [slash] ss = join_with [slash] ts"
  shows "ss = ts"
proof -
  have ok: "slash \<notin> set s" if "s \<in> set ss \<union> set ts" for s using assms(1,2) that by (auto simp: plain_def)
  have "split_on slash (join_with [slash] ss) = ss" using split_join[OF assms(3)] ok by blast
  moreover have "split_on slash (join_with [slash] ts) = ts" using split_join[OF assms(4)] ok by blast
  ultimately show ?thesis using assms(5) by metis
qed

section \<open>Safe segments\<close>

lemma segment_char_plain: "segment_char c \<Longrightarrow> c \<noteq> slash \<and> c \<noteq> backslash"
  by (auto simp: segment_char_def is_letter_def)

lemma safe_plain:
  assumes "ValidSafePathSegment v"
  shows "plain v \<and> length v \<le> 128"
proof -
  have v: "length v \<le> 128" "v \<noteq> ''.''" "v \<noteq> ''..''" "v \<noteq> []" "list_all segment_char v"
    using assms unfolding ValidSafePathSegment_def by (metis not_le)+
  have "c \<notin> set v" if "\<not> segment_char c" for c using v(5) that by (auto simp: list_all_iff)
  then have "slash \<notin> set v" "backslash \<notin> set v" using segment_char_plain by blast+
  then show ?thesis using v by (simp add: plain_def bad_segment_def)
qed

lemma lower_hex_plain: "is_lower_hex c \<Longrightarrow> c \<noteq> slash \<and> c \<noteq> backslash"
  by (auto simp: is_lower_hex_def)

lemma project_plain: "plain (NormalizeProjectKey p)"
  using Sum256_hex_form(2) lower_hex_plain
  by (auto simp: NormalizeProjectKey_def Let_def plain_def bad_segment_def list_all_iff)

lemma dec_nat_chars: "c \<in> set (dec_nat n) \<Longrightarrow> is_digit c"
  using dec_nat_all_digits[of n] by (simp add: list_all_iff)

lemma dec_nat_fresh: "\<not> is_digit c \<Longrightarrow> c \<notin> set (dec_nat n)"
  using dec_nat_chars by blast

lemma dec_int_plain: "plain (dec_int i)" "plain (dec_int i @ ''.json'')"
proof -
  have "slash \<notin> set (dec_int i)" "backslash \<notin> set (dec_int i)" "CHR ''.'' \<notin> set (dec_int i)" "dec_int i \<noteq> []"
    by (simp_all add: dec_int_def dec_nat_fresh is_digit_def)
  then show "plain (dec_int i)" "plain (dec_int i @ ''.json'')"
    by (auto simp: plain_def bad_segment_def append_eq_Cons_conv)
qed

lemma dec_int_inject [simp]: "dec_int i = dec_int j \<longleftrightarrow> i = j"
proof -
  have "CHR ''-'' \<notin> set (dec_nat n)" for n by (simp add: dec_nat_fresh is_digit_def)
  then have "dec_nat n \<noteq> CHR ''-'' # cs" for n cs by (metis list.set_intros(1))
  then have "CHR ''-'' # cs \<noteq> dec_nat n" "dec_nat n \<noteq> CHR ''-'' # cs" for n cs by metis+
  moreover have "nat (- i) = nat (- j) \<longleftrightarrow> i = j" if "i < 0" "j < 0" using that by linarith
  moreover have "nat i = nat j \<longleftrightarrow> i = j" if "\<not> i < 0" "\<not> j < 0" using that by linarith
  ultimately show ?thesis by (simp add: dec_int_def)
qed

lemma json_plain: "plain s \<Longrightarrow> plain (s @ ''.json'')"
  by (auto simp: plain_def bad_segment_def append_eq_Cons_conv)

section \<open>The segments of the orchestrator's keys\<close>

text \<open>The executor addresses a node, or one item of a map.\<close>

definition item_scope :: "ExecutionScope option \<Rightarrow> bool" where
  "item_scope scope =
     (scope = None \<or> (\<exists>f. scope = Some [f] \<and> sf_kind f = ''map-item'' \<and> ValidSafePathSegment (sf_map f)))"

definition scope_segments :: "ExecutionScope option \<Rightarrow> string list" where
  "scope_segments scope =
     (case scope of None \<Rightarrow> []
      | Some fs \<Rightarrow> ''scopes'' # concat (map (\<lambda>f. [''maps'', sf_map f, ''items'', dec_int (sf_index f)]) fs))"

definition run_segments :: "string \<Rightarrow> string \<Rightarrow> string list" where
  "run_segments p r = [''projects'', p, ''runs'', r]"

definition input_segments :: "string \<Rightarrow> ExecutionScope option \<Rightarrow> string list" where
  "input_segments s scope =
     (let ss = s # scope_segments scope in ''inputs'' # butlast ss @ [last ss @ ''.json''])"

definition output_segments :: "string \<Rightarrow> ExecutionScope option \<Rightarrow> int \<Rightarrow> string list" where
  "output_segments s scope attempt =
     ''steps'' # s # scope_segments scope @ [dec_int attempt, ''output-manifest.json'']"

lemmas segments_defs = run_segments_def input_segments_def output_segments_def scope_segments_def scope_path_def Let_def

lemma input_key_text:
  assumes "item_scope scope"
  shows "''projects/'' @ p @ ''/runs/'' @ r @ ''/inputs/'' @ s @ scope_path scope @ ''.json''
    = join_with [slash] (run_segments p r @ input_segments s scope)"
  using assms by (auto simp: item_scope_def segments_defs)

lemma output_key_text:
  assumes "item_scope scope"
  shows "''projects/'' @ p @ ''/runs/'' @ r @ ''/steps/'' @ s @ scope_path scope @ ''/'' @ dec_int n
      @ ''/output-manifest.json''
    = join_with [slash] (run_segments p r @ output_segments s scope n)"
  using assms by (auto simp: item_scope_def segments_defs)

lemma literal_plain:
  "plain ''projects''" "plain ''runs''" "plain ''inputs''" "plain ''steps''" "plain ''scopes''" "plain ''maps''"
  "plain ''items''" "plain ''output-manifest.json''" "plain ''run-manifest.json''" "plain ''result.json''" "plain ''fatal.json''"
  by (simp_all add: plain_def bad_segment_def)

lemma run_plain:
  assumes "ValidSafePathSegment r" "ValidSafePathSegment s" "item_scope scope"
  shows "\<forall>x \<in> set (run_segments (NormalizeProjectKey p) r @ input_segments s scope). plain x"
    and "\<forall>x \<in> set (run_segments (NormalizeProjectKey p) r @ output_segments s scope n). plain x"
  using assms safe_plain json_plain dec_int_plain project_plain literal_plain
  by (auto simp: item_scope_def segments_defs)

lemma key_text:
  assumes "\<forall>x \<in> set (run_segments p r @ ss). plain x"
  shows "MustKey (join_with [slash] (run_segments p r @ ss)) = Some (join_with [slash] (run_segments p r @ ss))"
  using assms key_of_segments[of "[p, ''runs'', r] @ ss"] by (simp add: run_segments_def)

lemma runInputKey_text:
  assumes "ValidSafePathSegment r" "ValidSafePathSegment s" "item_scope scope"
  shows "runInputKey (NormalizeProjectKey p) r s scope
    = Some (join_with [slash] (run_segments (NormalizeProjectKey p) r @ input_segments s scope))"
  unfolding runInputKey_def input_key_text[OF assms(3)] by (rule key_text) (rule run_plain(1)[OF assms])

lemma runOutputManifestKey_text:
  assumes "ValidSafePathSegment r" "ValidSafePathSegment s" "item_scope scope"
  shows "runOutputManifestKey (NormalizeProjectKey p) r s scope n
    = Some (join_with [slash] (run_segments (NormalizeProjectKey p) r @ output_segments s scope n))"
  unfolding runOutputManifestKey_def output_key_text[OF assms(3)] by (rule key_text) (rule run_plain(2)[OF assms])

lemma input_segments_inject:
  assumes "item_scope c" "item_scope d" "input_segments s c = input_segments t d"
  shows "s = t \<and> c = d"
  using assms by (auto simp: item_scope_def input_segments_def scope_segments_def Let_def)

lemma output_segments_inject:
  assumes "item_scope c" "item_scope d" "output_segments s c m = output_segments t d n"
  shows "s = t \<and> c = d \<and> m = n"
  using assms by (auto simp: item_scope_def output_segments_def scope_segments_def)

lemma clean_rooted:
  assumes "\<forall>s \<in> set ss. \<not> bad_segment s"
  shows "clean_segments True [] ([] # ss) = ss"
  using clean_good[OF assms, of True "[]"] by simp

lemma hex_plain: "hex64 d \<Longrightarrow> plain d"
proof -
  assume d: "hex64 d"
  then have "c \<notin> set d" if "\<not> is_lower_hex c" for c using that by (auto simp: hex64_def list_all_iff)
  then have "slash \<notin> set d" "backslash \<notin> set d" "CHR ''.'' \<notin> set d" by (simp_all add: is_lower_hex_def)
  then show ?thesis using d by (auto simp: plain_def bad_segment_def hex64_def)
qed

lemma blob_key:
  assumes "hex64 d"
  shows "ParseKey (''blobs/sha256/'' @ d) = Inr (''blobs/sha256/'' @ d)"
proof -
  have p: "slash \<notin> set d" "backslash \<notin> set d" "\<not> bad_segment d" using hex_plain[OF assms] by (simp_all add: plain_def)
  then show ?thesis
    unfolding ParseKey_Inr
    by (simp add: has_prefix_def isWindowsAbs_def split_on_no_sep bad_segment_def)
qed

lemma digest_parts: "has_prefix (DigestBytes b) ''sha256:''" "drop 7 (DigestBytes b) = Sum256_hex b" "hex64 (Sum256_hex b)"
  by (simp_all add: DigestBytes_def has_prefix_def hex64_def Sum256_hex_form)

section \<open>Examples\<close>

definition example_run :: string where "example_run = ''run-1''"

lemma example_segments:
  "ValidSafePathSegment example_run" "ValidSafePathSegment ''x''" "ValidSafePathSegment ''x.json''"
  by (simp_all add: ValidSafePathSegment_def example_run_def segment_char_def is_letter_def ParseKey_def has_prefix_def
      isWindowsAbs_def bad_segment_def path_Clean_def Let_def)

section \<open>Properties\<close>

text \<open>
  C21. The keys of a run are total and identify what they name: for a run id and node ids that pass
  the segment check, no key builder panics, and two input keys, or two output manifest keys, of a run
  are equal only for the same node, map item and attempt.
\<close>

theorem run_keys_identify:
  assumes "ValidSafePathSegment r" "ValidSafePathSegment s" "ValidSafePathSegment t" "item_scope c" "item_scope d"
  shows "\<exists>i j k l. runInputKey (NormalizeProjectKey p) r s c = Some i
    \<and> runInputKey (NormalizeProjectKey p) r t d = Some j \<and> (i = j \<longleftrightarrow> s = t \<and> c = d)
    \<and> runOutputManifestKey (NormalizeProjectKey p) r s c m = Some k
    \<and> runOutputManifestKey (NormalizeProjectKey p) r t d n = Some l \<and> (k = l \<longleftrightarrow> s = t \<and> c = d \<and> m = n)"
proof -
  let ?run = "run_segments (NormalizeProjectKey p) r"
  have ne: "?run @ ss \<noteq> []" for ss by (simp add: run_segments_def)
  have "join_with [slash] (?run @ input_segments s c) = join_with [slash] (?run @ input_segments t d) \<longleftrightarrow> s = t \<and> c = d"
    using segments_inject[OF run_plain(1)[OF assms(1,2,4)] run_plain(1)[OF assms(1,3,5)] ne ne]
      input_segments_inject[OF assms(4,5)] by (metis same_append_eq)
  moreover have "join_with [slash] (?run @ output_segments s c m) = join_with [slash] (?run @ output_segments t d n)
      \<longleftrightarrow> s = t \<and> c = d \<and> m = n"
    using segments_inject[OF run_plain(2)[OF assms(1,2,4)] run_plain(2)[OF assms(1,3,5)] ne ne]
      output_segments_inject[OF assms(4,5)] by (metis same_append_eq)
  ultimately show ?thesis
    using runInputKey_text[OF assms(1,2,4), of p] runInputKey_text[OF assms(1,3,5), of p]
      runOutputManifestKey_text[OF assms(1,2,4), of p m] runOutputManifestKey_text[OF assms(1,3,5), of p n] by auto
qed

theorem run_keys_identify_witness:
  "\<exists>i j. runInputKey (NormalizeProjectKey ''p'') example_run ''x'' None = Some i
    \<and> runInputKey (NormalizeProjectKey ''p'') example_run ''x'' (Some [\<lparr>sf_kind = ''map-item'', sf_map = ''x'', sf_index = 0\<rparr>]) = Some j \<and> i \<noteq> j"
proof -
  have "item_scope None" "item_scope (Some [\<lparr>sf_kind = ''map-item'', sf_map = ''x'', sf_index = 0\<rparr>])"
    using example_segments(2) by (simp_all add: item_scope_def)
  from run_keys_identify[OF example_segments(1,2,2) this, of "''p''" 1 1] show ?thesis by auto
qed

text \<open>
  C22. A datastore key cannot leave the store: joined below any root directory it is already
  normalized, so no segment of it climbs out or is resolved away.
\<close>

theorem ParseKey_confined:
  assumes "ParseKey v = Inr k" "\<forall>x \<in> set root. plain x" "root \<noteq> []"
  shows "k = v \<and> path_Clean (slash # join_with [slash] root @ slash # k) = slash # join_with [slash] root @ slash # k"
proof -
  have k: "k = v" "\<forall>x \<in> set (split_on slash v). \<not> bad_segment x" using assms(1) unfolding ParseKey_Inr by auto
  have split: "split_on slash (join_with [slash] ps @ slash # w) = ps @ split_on slash w"
    if "\<forall>x \<in> set ps. plain x" "ps \<noteq> []" for ps w
    using that by (induction ps rule: induct_list012) (auto simp: plain_def split_on_append)
  let ?ss = "root @ split_on slash v"
  have good: "\<forall>x \<in> set ?ss. \<not> bad_segment x" using assms(2) k(2) by (auto simp: plain_def)
  have "join_with [slash] (ps @ qs) = join_with [slash] ps @ slash # join_with [slash] qs"
    if "ps \<noteq> []" "qs \<noteq> []" for ps qs
    using that by (induction ps rule: induct_list012) (auto simp: neq_Nil_conv)
  then have "join_with [slash] ?ss = join_with [slash] root @ slash # v"
    using assms(3) by (simp add: join_split)
  then show ?thesis
    using k(1) clean_rooted[OF good] split[OF assms(2,3), of v] by (simp add: path_Clean_def Let_def)
qed

theorem ParseKey_confined_witness:
  "path_Clean ''/var/store/blobs/x'' = ''/var/store/blobs/x''"
proof -
  have "ParseKey ''blobs/x'' = Inr ''blobs/x''"
    by (simp add: ParseKey_def has_prefix_def isWindowsAbs_def bad_segment_def path_Clean_def Let_def)
  from ParseKey_confined[OF this, of "[''var'', ''store'']"] show ?thesis
    by (simp add: plain_def bad_segment_def)
qed

text \<open>
  The two ways to a content-addressed blob agree: the key derived from a body's bytes is the key
  derived from its digest reference, and neither fails.
\<close>

theorem blob_keys_agree:
  "BlobKeyForBytes body = Some (''blobs/sha256/'' @ Sum256_hex body)
   \<and> blobKeyForHash (DigestBytes body) = Inr (''blobs/sha256/'' @ Sum256_hex body)"
  using blob_key[OF digest_parts(3), of body]
  by (simp add: BlobKeyForBytes_def blobKeyForHash_def digestHex_def BlobKeySHA256Hex_def digest_parts Sum256_hex_form)

section \<open>Observations\<close>

text \<open>A leading-dot segment is a valid key, so the snapshot directory lies inside the key space.\<close>

lemma snapshot_directory_is_a_key:
  "ParseKey ''.snapshots/sha256-0'' = Inr ''.snapshots/sha256-0'' \<and> ValidSafePathSegment ''.snapshots''"
  by (simp add: ParseKey_def has_prefix_def isWindowsAbs_def bad_segment_def path_Clean_def Let_def
      ValidSafePathSegment_def segment_char_def is_letter_def)

text \<open>
  The input of step \<open>x\<close> is stored at a path that the inputs of the items of a map \<open>x.json\<close> need as a
  directory.
\<close>

lemma input_key_below_input_key:
  "\<exists>i j rest. runInputKey (NormalizeProjectKey p) example_run ''x'' None = Some i
    \<and> runInputKey (NormalizeProjectKey p) example_run ''x.json'' (Some [\<lparr>sf_kind = ''map-item'', sf_map = ''x.json'', sf_index = 0\<rparr>]) = Some j
    \<and> j = i @ slash # rest"
  using runInputKey_text[OF example_segments(1,2), of None p]
    runInputKey_text[OF example_segments(1,3), of "Some [\<lparr>sf_kind = ''map-item'', sf_map = ''x.json'', sf_index = 0\<rparr>]" p] example_segments(3)
  by (simp add: item_scope_def segments_defs)

end
