(* ===== verification/Retry.thy ===== *)
theory Retry
  imports MapExec Keys Journal "HOL-Library.Word"
begin

text \<open>
  \<^verbatim>\<open>internal/orchestrator/retry.go\<close>, the outcome record of \<^verbatim>\<open>types.go\<close> and the failure diagnostics of
  \<^verbatim>\<open>orchestrator.go\<close>. Durations are 64-bit signed nanosecond counts with the wrap-around written out.
\<close>

section \<open>Durations\<close>

definition wrap64 :: "int \<Rightarrow> int" where
  "wrap64 x = (x + 2 ^ 63) mod 2 ^ 64 - 2 ^ 63"

definition Second :: int where
  "Second = 1000000000"

text \<open>\<^verbatim>\<open>time.Duration.String\<close>.\<close>

fun strip_zeros :: "string \<Rightarrow> string" where
  "strip_zeros s = rev (dropWhile (\<lambda>c. c = CHR ''0'') (rev s))"

definition fmt_frac :: "nat \<Rightarrow> nat \<Rightarrow> string" where
  "fmt_frac v prec =
     (let ds = dec_nat (v mod 10 ^ prec);
          frac = strip_zeros (replicate (prec - length ds) (CHR ''0'') @ ds)
      in if v mod 10 ^ prec = 0 then [] else CHR ''.'' # frac)"

definition duration_nat :: "nat \<Rightarrow> string" where
  "duration_nat u =
     (if u = 0 then ''0s''
      else if u < 1000 then dec_nat u @ ''ns''
      else if u < 1000000 then dec_nat (u div 1000) @ fmt_frac u 3 @ [CHR 0xC2, CHR 0xB5, CHR ''s'']
      else if u < 1000000000 then dec_nat (u div 1000000) @ fmt_frac u 6 @ ''ms''
      else
        let secs = u div 1000000000;
            s = dec_nat (secs mod 60) @ fmt_frac u 9 @ ''s'';
            mins = secs div 60
        in if mins = 0 then s
           else if mins div 60 = 0 then dec_nat (mins mod 60) @ ''m'' @ s
           else dec_nat (mins div 60) @ ''h'' @ dec_nat (mins mod 60) @ ''m'' @ s)"

definition Duration_String :: "int \<Rightarrow> string" where
  "Duration_String d = (if d < 0 then CHR ''-'' # duration_nat (nat (- d)) else duration_nat (nat d))"

section \<open>Policies\<close>

record RetryPolicy =
  rp_maxAttempts :: "32 word"
  rp_delaySeconds :: "32 word"
  rp_backoffFactor :: "32 word"
  rp_maxDelaySeconds :: "32 word"

record ExecutionContract =
  ec_contractRef :: string
  ec_environmentRef :: string
  ec_retry :: "RetryPolicy option"
  ec_timeoutSeconds :: "32 word"

record executionPolicy =
  xp_maxAttempts :: int
  xp_delay :: int
  xp_backoffFactor :: int
  xp_maxDelay :: int
  xp_timeout :: int

text \<open>The generated accessors read a nil contract or retry as zero values.\<close>

definition policyForContract :: "ExecutionContract option \<Rightarrow> executionPolicy" where
  "policyForContract c =
     (let timeout = (case c of None \<Rightarrow> 0 | Some k \<Rightarrow> wrap64 (uint (ec_timeoutSeconds k) * Second));
          once = \<lparr>xp_maxAttempts = 1, xp_delay = 0, xp_backoffFactor = 1, xp_maxDelay = 0, xp_timeout = timeout\<rparr>
      in case c of
           None \<Rightarrow> once
         | Some k \<Rightarrow>
           (case ec_retry k of
              None \<Rightarrow> once
            | Some r \<Rightarrow>
                if rp_maxAttempts r = 0 then once
                else \<lparr>xp_maxAttempts = uint (rp_maxAttempts r),
                      xp_delay = wrap64 (uint (rp_delaySeconds r) * Second),
                      xp_backoffFactor = max (uint (rp_backoffFactor r)) 1,
                      xp_maxDelay = wrap64 (uint (rp_maxDelaySeconds r) * Second),
                      xp_timeout = timeout\<rparr>))"

fun delay_loop :: "nat \<Rightarrow> executionPolicy \<Rightarrow> int \<Rightarrow> int" where
  "delay_loop 0 policy delay = delay"
| "delay_loop (Suc n) policy delay =
     (if xp_maxDelay policy \<le> delay then delay
      else delay_loop n policy (wrap64 (delay * xp_backoffFactor policy)))"

definition delayBefore :: "executionPolicy \<Rightarrow> int \<Rightarrow> int" where
  "delayBefore policy attempt = min (delay_loop (nat (attempt - 2)) policy (xp_delay policy)) (xp_maxDelay policy)"

definition attemptSuffix :: "int \<Rightarrow> executionPolicy \<Rightarrow> string" where
  "attemptSuffix attempt policy =
     (if xp_maxAttempts policy \<le> 1 then []
      else '' (attempt '' @ dec_int attempt @ '' of '' @ dec_int (xp_maxAttempts policy) @ '')'')"

section \<open>Outcomes\<close>

abbreviation runnerExitDescriptorResolution :: int where "runnerExitDescriptorResolution \<equiv> 64"
abbreviation runnerExitSchemaValidation :: int where "runnerExitSchemaValidation \<equiv> 65"
abbreviation runnerExitStepExecution :: int where "runnerExitStepExecution \<equiv> 66"
abbreviation runnerExitNonRetryable :: int where "runnerExitNonRetryable \<equiv> 67"
abbreviation FatalRunExitCode :: int where "FatalRunExitCode \<equiv> 69"
abbreviation runnerExitInfrastructure :: int where "runnerExitInfrastructure \<equiv> 70"

definition StatusInfraFailed :: string where "StatusInfraFailed = ''infrastructure-failed''"

record StepInvocationOutcome =
  so_nodeID :: string
  so_attempt :: int
  so_scope :: "ExecutionScope option"
  so_status :: string
  so_exitCode :: int
  so_diagnostic :: string
  so_fatal :: "FatalFailure option"
  so_runnerMessage :: string
  so_timedOutAfter :: int

definition retryableOutcome :: "StepInvocationOutcome \<Rightarrow> bool" where
  "retryableOutcome oc =
     (so_status oc = StatusFailed
      \<and> so_exitCode oc \<notin> {runnerExitDescriptorResolution, runnerExitSchemaValidation, runnerExitNonRetryable,
           FatalRunExitCode, runnerExitInfrastructure})"

definition runnerFailureSummary :: "StepInvocationOutcome \<Rightarrow> string \<Rightarrow> string" where
  "runnerFailureSummary oc fallback =
     (if 0 < so_timedOutAfter oc
      then ''step-timeout (timed out after '' @ Duration_String (so_timedOutAfter oc) @ '')''
      else if so_exitCode oc < 0 then ''runner-killed (signal)''
      else
        let label = (if so_exitCode oc = runnerExitDescriptorResolution then ''descriptor-resolution-failure''
                     else if so_exitCode oc = runnerExitSchemaValidation then ''schema-validation-failure''
                     else if so_exitCode oc = runnerExitStepExecution then ''step-execution-failure''
                     else if so_exitCode oc = FatalRunExitCode then ''fatal-run-failure''
                     else if so_exitCode oc = runnerExitNonRetryable then ''non-retryable-step-failure''
                     else fallback)
        in label @ '' (exit '' @ dec_int (so_exitCode oc) @ '')'')"

definition runnerDiagnostic :: "StepInvocationOutcome \<Rightarrow> string" where
  "runnerDiagnostic oc =
     (let summary = runnerFailureSummary oc ''runner failed''
      in if so_diagnostic oc = [] then summary else summary @ '': '' @ so_diagnostic oc)"

definition durableRunnerDiagnostic :: "StepInvocationOutcome \<Rightarrow> string" where
  "durableRunnerDiagnostic oc = runnerFailureSummary oc ''runner-failure''"

definition withRunnerMessage :: "string \<Rightarrow> string \<Rightarrow> string" where
  "withRunnerMessage summary message = (if message = [] then summary else summary @ '': '' @ message)"

definition mapItemFailure :: "StepInvocationOutcome \<Rightarrow> int \<Rightarrow> Failure option" where
  "mapItemFailure oc attempt =
     (let summary = runnerFailureSummary oc ''runner-failure'' in
      if 0 < so_timedOutAfter oc then Some (NewFailure FailureTimeout attempt summary)
      else if so_exitCode oc \<in> {runnerExitDescriptorResolution, runnerExitSchemaValidation,
             runnerExitInfrastructure, FatalRunExitCode} then None
      else if so_exitCode oc = runnerExitNonRetryable
      then Some (NewFailure FailureNonRetryable attempt (withRunnerMessage summary (so_runnerMessage oc)))
      else if so_exitCode oc = runnerExitStepExecution
      then Some (NewFailure FailureError attempt (withRunnerMessage summary (so_runnerMessage oc)))
      else if so_exitCode oc < 0 then Some (NewFailure FailureKilled attempt summary)
      else Some (NewFailure FailureError attempt summary))"

section \<open>Backoff\<close>

lemma wrap64_id: "- (2 ^ 63) \<le> x \<Longrightarrow> x < 2 ^ 63 \<Longrightarrow> wrap64 x = x"
  by (simp add: wrap64_def)

lemma delay_loop_exact:
  assumes "0 \<le> delay" "1 \<le> xp_backoffFactor policy" "xp_maxDelay policy * xp_backoffFactor policy < 2 ^ 63"
  shows "min (delay_loop n policy delay) (xp_maxDelay policy)
    = min (delay * xp_backoffFactor policy ^ n) (xp_maxDelay policy)"
  using assms
proof (induction n arbitrary: delay)
  case (Suc n)
  let ?b = "xp_backoffFactor policy" and ?m = "xp_maxDelay policy"
  show ?case
  proof (cases "?m \<le> delay")
    case True
    have "delay * 1 \<le> delay * ?b ^ Suc n"
      using Suc.prems(1,2) by (intro mult_left_mono one_le_power) auto
    then have "?m \<le> delay * ?b ^ Suc n" using True by simp
    then show ?thesis using True by (simp add: min_def)
  next
    case False
    have "delay * ?b \<le> ?m * ?b" using False Suc.prems(2) by (intro mult_right_mono) auto
    moreover have "0 \<le> delay * ?b" using Suc.prems(1,2) by simp
    ultimately have "wrap64 (delay * ?b) = delay * ?b" using Suc.prems(3) by (intro wrap64_id) linarith+
    then show ?thesis using Suc.IH[of "delay * ?b"] Suc.prems False by (simp add: mult.assoc)
  qed
qed simp

lemma seconds_exact: "wrap64 (uint (w :: 32 word) * Second) = uint w * Second"
proof (rule wrap64_id)
  have "uint w < 2 ^ 32" using uint_lt2p[of w] by simp
  then show "uint w * Second < 2 ^ 63" by (simp add: Second_def)
  show "- (2 ^ 63) \<le> uint w * Second" by (rule order_trans[of _ 0]) (auto simp: Second_def)
qed

lemma policy_of_retry:
  assumes "ec_retry c = Some r" "rp_maxAttempts r \<noteq> 0"
  shows "policyForContract (Some c) = \<lparr>xp_maxAttempts = uint (rp_maxAttempts r), xp_delay = uint (rp_delaySeconds r) * Second,
    xp_backoffFactor = max (uint (rp_backoffFactor r)) 1, xp_maxDelay = uint (rp_maxDelaySeconds r) * Second,
    xp_timeout = uint (ec_timeoutSeconds c) * Second\<rparr>"
  using assms by (simp add: policyForContract_def seconds_exact)

definition patient :: ExecutionContract where
  "patient = \<lparr>ec_contractRef = ''c'', ec_environmentRef = ''e'',
     ec_retry = Some \<lparr>rp_maxAttempts = 5, rp_delaySeconds = 2, rp_backoffFactor = 3, rp_maxDelaySeconds = 60\<rparr>,
     ec_timeoutSeconds = 0\<rparr>"

section \<open>Properties\<close>

text \<open>
  C31. The wait before a retry is the documented one, computed without overflow: for every contract
  within the published limits (factor 1 to 10, at most a day of delay) and every attempt from the second,
  it is the delay times the factor to the number of earlier retries, capped by the maximum.
\<close>

theorem delayBefore_exact:
  assumes "ec_retry c = Some r" "rp_maxAttempts r \<noteq> 0" "2 \<le> attempt"
    and "1 \<le> uint (rp_backoffFactor r)" "uint (rp_backoffFactor r) \<le> 10" "uint (rp_maxDelaySeconds r) \<le> 86400"
  shows "delayBefore (policyForContract (Some c)) attempt =
    min (uint (rp_delaySeconds r) * Second * uint (rp_backoffFactor r) ^ nat (attempt - 2))
        (uint (rp_maxDelaySeconds r) * Second)"
proof -
  have "uint (rp_maxDelaySeconds r) * Second * uint (rp_backoffFactor r) \<le> (86400 * Second) * 10"
    using assms(4-6) by (intro mult_mono) (auto simp: Second_def)
  then have "uint (rp_maxDelaySeconds r) * Second * uint (rp_backoffFactor r) < 2 ^ 63"
    by (simp add: Second_def)
  then show ?thesis
    unfolding delayBefore_def policy_of_retry[OF assms(1,2)]
    by (subst delay_loop_exact) (use assms(4) in \<open>auto simp: Second_def max_def\<close>)
qed

theorem delayBefore_exact_witness:
  "delayBefore (policyForContract (Some patient)) 4 = 18 * Second"
proof -
  have "ec_retry patient = Some \<lparr>rp_maxAttempts = 5, rp_delaySeconds = 2, rp_backoffFactor = 3, rp_maxDelaySeconds = 60\<rparr>"
    by (simp add: patient_def)
  from delayBefore_exact[OF this, of 4] show ?thesis by (simp add: Second_def)
qed

text \<open>
  A failure is refused as an item outcome exactly when the attempt did not time out and its exit
  code reports a broken contract, a fatal run or failed infrastructure; in particular every failure that
  a retry may fix is collected once its attempts are spent.
\<close>

theorem collected_failures:
  "(mapItemFailure oc n = None \<longleftrightarrow>
      so_timedOutAfter oc \<le> 0 \<and> so_exitCode oc \<in> {runnerExitDescriptorResolution, runnerExitSchemaValidation,
        FatalRunExitCode, runnerExitInfrastructure})
   \<and> \<not> (retryableOutcome oc \<and> mapItemFailure oc n = None)"
  by (auto simp: mapItemFailure_def retryableOutcome_def Let_def)

section \<open>Observations\<close>

text \<open>
  Outside the published limits the product wraps: a plan that is handed over directly, with a delay of
  4000000000 seconds and a factor of 3, waits a negative time, that is not at all, before its third
  attempt.
\<close>

lemma delayBefore_wraps:
  "delayBefore (policyForContract (Some (patient\<lparr>ec_retry := Some \<lparr>rp_maxAttempts = 5, rp_delaySeconds = 4000000000,
     rp_backoffFactor = 3, rp_maxDelaySeconds = 4294967295\<rparr>\<rparr>))) 3 < 0"
proof -
  let ?r = "\<lparr>rp_maxAttempts = 5, rp_delaySeconds = 4000000000, rp_backoffFactor = 3, rp_maxDelaySeconds = 4294967295\<rparr> :: RetryPolicy"
  have "ec_retry (patient\<lparr>ec_retry := Some ?r\<rparr>) = Some ?r" "rp_maxAttempts ?r \<noteq> 0" by simp_all
  from policy_of_retry[OF this] show ?thesis
    by (simp add: delayBefore_def Second_def wrap64_def)
qed

end
