(* ===== verification/SpecDocument.thy ===== *)
theory SpecDocument
  imports WorkflowSpec Retry
begin

text \<open>
  The rest of the authored document of \<^verbatim>\<open>internal/spec/spec.go\<close> and the exit hook's rules, which the
  plan reader (\<^verbatim>\<open>internal/plan/execution.go\<close>) applies again to compiled plans. Go maps are association
  lists with distinct keys; a loop over a map visits them in the order of the list, whatever it is.
\<close>

section \<open>Document\<close>

record HashingSpec =
  hs_algorithm :: string
  hs_canonicalization :: string
  hs_recipe :: string
  hs_recipeVersion :: "32 word"

record Workflow =
  wf_name :: string
  wf_inputSchema :: string
  wf_outputSchema :: string
  wf_deadlineSeconds :: "32 word"

record Symbol =
  sym_packageId :: string
  sym_language :: string
  sym_module :: string
  sym_export :: string

record SourcePackageFile =
  sf_path :: string
  sf_hash :: string

record SourcePackage =
  pkg_id :: string
  pkg_language :: string
  pkg_hash :: string
  pkg_hashing :: HashingSpec
  pkg_files :: "SourcePackageFile list"

record EnvironmentSpec =
  es_kind :: string
  es_image :: string
  es_platform :: string
  es_command :: "string list"
  es_workingDirectory :: string
  es_version :: string
  es_packageManager :: string
  es_lockfile :: string

record ContractSpec =
  ct_environmentRef :: string
  ct_retry :: "RetryPolicy option"
  ct_timeoutSeconds :: "32 word"

record SpecDoc =
  sd_kind :: string
  sd_schemaVersion :: "32 word"
  sd_encoding :: string
  sd_hashing :: HashingSpec
  sd_specHash :: string
  sd_workflow :: Workflow
  sd_graph :: Graph
  sd_schemas :: "(string \<times> bytes) list"
  sd_symbols :: "(string \<times> Symbol) list"
  sd_sourcePackages :: "(string \<times> SourcePackage) list"
  sd_environments :: "(string \<times> EnvironmentSpec) list"
  sd_contracts :: "(string \<times> ContractSpec) list"

section \<open>The exit hook\<close>

text \<open>\<open>runOutcome\<close> is the embedded \<^verbatim>\<open>run-outcome.schema.json\<close>.\<close>

definition null_schema :: bytes where
  \<open>null_schema = ''{"type":"null"}''\<close>

definition fixed_schema_diag ::
    "number_printer \<Rightarrow> (string \<times> bytes) list \<Rightarrow> string \<Rightarrow> string \<Rightarrow> bytes \<Rightarrow> Diagnostic list" where
  "fixed_schema_diag f schemas field reference fixed =
     (case map_of schemas reference of
        None \<Rightarrow> [Diag (''$.graph.exitHook.'' @ field) reference ''schema reference does not exist'']
      | Some schema \<Rightarrow>
          (case (CanonicalizeJSON f schema, CanonicalizeJSON f fixed) of
             (Inr actual, Inr expected) \<Rightarrow>
               if actual = expected then []
               else [Diag (''$.graph.exitHook.'' @ field) reference
                 ''exit hooks take the run-outcome schema (conformance/schema/run-outcome.schema.json) and return null'']
           | _ \<Rightarrow> [Diag (''$.graph.exitHook.'' @ field) reference
                 ''exit hooks take the run-outcome schema (conformance/schema/run-outcome.schema.json) and return null'']))"

definition ValidateExitHook :: "number_printer \<Rightarrow> bytes \<Rightarrow> SpecDoc \<Rightarrow> (string \<Rightarrow> bool) \<Rightarrow> Diagnostic list" where
  "ValidateExitHook f runOutcome doc isNode =
     (case graph_exitHook (sd_graph doc) of
        None \<Rightarrow> []
      | Some hook \<Rightarrow>
          (if isNode (node_id hook)
           then [Diag ''$.graph.exitHook.id'' (node_id hook) ''exit hook id must differ from every graph node id''] else [])
          @ fixed_schema_diag f (sd_schemas doc) ''inputSchema'' (node_inputSchema hook) runOutcome
          @ fixed_schema_diag f (sd_schemas doc) ''outputSchema'' (node_outputSchema hook) null_schema
          @ (if map_of (sd_symbols doc) (node_symbolRef hook) = None
             then [Diag ''$.graph.exitHook.symbolRef'' (node_symbolRef hook) ''symbol reference does not exist''] else [])
          @ (case map_of (sd_contracts doc) (node_contractRef hook) of
               None \<Rightarrow> [Diag ''$.graph.exitHook.contractRef'' (node_contractRef hook) ''contract reference does not exist'']
             | Some contract \<Rightarrow>
                 (case ct_retry contract of
                    Some r \<Rightarrow> if 1 < rp_maxAttempts r
                      then [Diag ''$.graph.exitHook.contractRef'' (node_contractRef hook)
                        ''exit hooks run once; their contract must not retry''] else []
                  | None \<Rightarrow> [])
                 @ (if ct_timeoutSeconds contract = 0
                    then [Diag ''$.graph.exitHook.contractRef'' (node_contractRef hook)
                      ''exit hooks require a finite timeoutSeconds; rebuild the workflow''] else [])))"

lemma fixed_schema_diag_Nil:
  "fixed_schema_diag f schemas field reference fixed = [] \<longleftrightarrow>
     (\<exists>schema c. map_of schemas reference = Some schema \<and> CanonicalizeJSON f schema = Inr c \<and> CanonicalizeJSON f fixed = Inr c)"
  by (auto simp: fixed_schema_diag_def split: option.splits sum.splits)

end
