(* ===== verification/PlanIndex.thy ===== *)
theory PlanIndex
  imports SpecDocument Schedule
begin

text \<open>
  Compiled plans as the orchestrator reads them: the plan messages, \<^verbatim>\<open>plan.ValidateExecution\<close>, the
  execution index and the invocation descriptors of \<^verbatim>\<open>internal/orchestrator/orchestrator.go\<close>.
\<close>

section \<open>Plans\<close>

record SchemaEntry =
  sch_hash :: string
  sch_json :: string

record SymbolEntry =
  se_symbolRef :: string
  se_packageId :: string
  se_language :: string
  se_module :: string
  se_export :: string

record PlanPackage =
  pp_packageId :: string
  pp_language :: string
  pp_packageHash :: string

record PlanGraph = Graph +
  pg_inputSchema :: string
  pg_deadlineSeconds :: "32 word option"

record WorkflowPlan =
  wp_planHash :: string
  wp_graph :: "PlanGraph option"
  wp_schemas :: "SchemaEntry list"
  wp_symbols :: "SymbolEntry list"
  wp_contracts :: "ExecutionContract list"
  wp_sourcePackages :: "PlanPackage list"
  wp_environments :: "string list"

text \<open>A Go map filled from a list keeps the last entry of a key.\<close>

definition table :: "('a \<Rightarrow> string) \<Rightarrow> 'a list \<Rightarrow> string \<Rightarrow> 'a option" where
  "table key xs k = find (\<lambda>x. key x = k) (rev xs)"

section \<open>Execution requirements\<close>

datatype run_input_error = InvalidRunInput string string

datatype plan_error =
    MissingGraph
  | DeadlineSchema
  | HookSchema
  | HookTimeout
  | HookDiagnostics "Diagnostic list"
  | HookPackage
  | HookEnvironment
  | OrderError plan_order_error
  | HookIdIsNode string
  | EdgeFromMissing string
  | EdgeToMissing string

text \<open>
  The published JSON schemas and the third-party validator decide three questions: whether a deadline,
  an exit hook node and a hook timeout are well formed.
\<close>

record schema_checks =
  chk_deadline :: "32 word \<Rightarrow> bool"
  chk_hook :: "GraphNode \<Rightarrow> bool"
  chk_timeout :: "32 word \<Rightarrow> bool"

definition hook_document :: "WorkflowPlan \<Rightarrow> GraphNode \<Rightarrow> SpecDoc" where
  "hook_document p hook =
     \<lparr>sd_kind = [], sd_schemaVersion = 0, sd_encoding = [],
      sd_hashing = \<lparr>hs_algorithm = [], hs_canonicalization = [], hs_recipe = [], hs_recipeVersion = 0\<rparr>,
      sd_specHash = [],
      sd_workflow = \<lparr>wf_name = [], wf_inputSchema = [], wf_outputSchema = [], wf_deadlineSeconds = 0\<rparr>,
      sd_graph = \<lparr>graph_irVersion = [], graph_start = [], graph_end = [], graph_nodes = [], graph_edges = [],
        graph_exitHook = Some hook\<rparr>,
      sd_schemas = rev (map (\<lambda>s. (sch_hash s, sch_json s)) (wp_schemas p)),
      sd_symbols = rev (map (\<lambda>s. (se_symbolRef s, \<lparr>sym_packageId = se_packageId s, sym_language = se_language s,
        sym_module = se_module s, sym_export = se_export s\<rparr>)) (wp_symbols p)),
      sd_sourcePackages = [], sd_environments = [],
      sd_contracts = rev (map (\<lambda>c. (ec_contractRef c, \<lparr>ct_environmentRef = ec_environmentRef c,
        ct_retry = map_option (\<lambda>r. \<lparr>rp_maxAttempts = rp_maxAttempts r, rp_delaySeconds = 0, rp_backoffFactor = 0,
          rp_maxDelaySeconds = 0\<rparr>) (ec_retry c),
        ct_timeoutSeconds = ec_timeoutSeconds c\<rparr>)) (wp_contracts p))\<rparr>"

definition ValidateExecution :: "number_printer \<Rightarrow> bytes \<Rightarrow> schema_checks \<Rightarrow> WorkflowPlan \<Rightarrow> plan_error option" where
  "ValidateExecution f runOutcome chk p =
     (case wp_graph p of
        None \<Rightarrow> Some MissingGraph
      | Some g \<Rightarrow>
          if pg_deadlineSeconds g = None \<and> graph_exitHook g = None then None
          else if (\<exists>d. pg_deadlineSeconds g = Some d \<and> \<not> chk_deadline chk d) then Some DeadlineSchema
          else case graph_exitHook g of
            None \<Rightarrow> None
          | Some hook \<Rightarrow>
              if \<not> chk_hook chk hook then Some HookSchema
              else if (\<exists>c \<in> set (wp_contracts p). ec_contractRef c = node_contractRef hook
                \<and> \<not> chk_timeout chk (ec_timeoutSeconds c)) then Some HookTimeout
              else
                let doc = hook_document p hook;
                    ds = ValidateExitHook f runOutcome doc (\<lambda>i. i \<in> node_id ` set (graph_nodes g))
                in if ds \<noteq> [] then Some (HookDiagnostics ds)
                   else
                     let zero = \<lparr>sym_packageId = [], sym_language = [], sym_module = [], sym_export = []\<rparr>;
                         symbol = (case map_of (sd_symbols doc) (node_symbolRef hook) of None \<Rightarrow> zero | Some s \<Rightarrow> s);
                         env = (case map_of (sd_contracts doc) (node_contractRef hook) of None \<Rightarrow> [] | Some c \<Rightarrow> ct_environmentRef c)
                     in if \<not> (\<exists>e \<in> set (wp_sourcePackages p). pp_packageId e = sym_packageId symbol
                          \<and> pp_language e = sym_language symbol) then Some HookPackage
                        else if env \<notin> set (wp_environments p) then Some HookEnvironment
                        else None)"

section \<open>The execution index\<close>

record sourcePackageArtifact =
  pa_packageID :: string
  pa_language :: string
  pa_packageHash :: string
  pa_key :: string
  pa_archiveHash :: string
  pa_contentType :: string

record executionIndex =
  ix_nodes :: "string \<Rightarrow> GraphNode option"
  ix_symbols :: "string \<Rightarrow> SymbolEntry option"
  ix_contracts :: "string \<Rightarrow> ExecutionContract option"
  ix_packages :: "(string \<Rightarrow> sourcePackageArtifact option) option"
  ix_inbound :: "string \<Rightarrow> GraphEdge list"
  ix_nodeOrder :: "string list"
  ix_stepOrder :: "string list"
  ix_schemaRefs :: "string \<Rightarrow> bool"
  ix_schemaJSON :: "string \<Rightarrow> string option"

definition kind_of :: "(string \<Rightarrow> GraphNode option) \<Rightarrow> string \<Rightarrow> string" where
  "kind_of nodes i = (case nodes i of None \<Rightarrow> [] | Some n \<Rightarrow> node_kind n)"

fun check_index_edges :: "(string \<Rightarrow> GraphNode option) \<Rightarrow> GraphEdge list \<Rightarrow> plan_error option" where
  "check_index_edges nodes [] = None"
| "check_index_edges nodes (e # es) =
     (if nodes (edge_from e) = None then Some (EdgeFromMissing (edge_from e))
      else if nodes (edge_to e) = None then Some (EdgeToMissing (edge_to e))
      else check_index_edges nodes es)"

definition buildExecutionIndex ::
    "number_printer \<Rightarrow> bytes \<Rightarrow> schema_checks \<Rightarrow> WorkflowPlan \<Rightarrow> (plan_error, executionIndex) result" where
  "buildExecutionIndex f runOutcome chk p =
     (case ValidateExecution f runOutcome chk p of
        Some e \<Rightarrow> Inl e
      | None \<Rightarrow>
        (case wp_graph p of
           None \<Rightarrow> Inl MissingGraph
         | Some g \<Rightarrow>
           (case topologicalPlanOrder (graph_nodes g) (graph_edges g) of
              Inl e \<Rightarrow> Inl (OrderError e)
            | Inr order \<Rightarrow>
                let nodes = table node_id (graph_nodes g);
                    withHook = (case graph_exitHook g of None \<Rightarrow> nodes | Some h \<Rightarrow> nodes(node_id h \<mapsto> h))
                in if (\<exists>h. graph_exitHook g = Some h \<and> nodes (node_id h) \<noteq> None)
                   then Inl (HookIdIsNode (node_id (the (graph_exitHook g))))
                   else case check_index_edges withHook (graph_edges g) of
                     Some e \<Rightarrow> Inl e
                   | None \<Rightarrow> Inr
                       \<lparr>ix_nodes = withHook,
                        ix_symbols = table se_symbolRef (wp_symbols p),
                        ix_contracts = table ec_contractRef (wp_contracts p),
                        ix_packages = None,
                        ix_inbound = inbound (graph_edges g),
                        ix_nodeOrder = filter (\<lambda>i. kind_of withHook i \<noteq> ''start'' \<and> kind_of withHook i \<noteq> ''end'') order,
                        ix_stepOrder = filter (\<lambda>i. kind_of withHook i = ''step'' \<or> kind_of withHook i = ''map'') order,
                        ix_schemaRefs = (\<lambda>h. h \<in> sch_hash ` set (wp_schemas p)),
                        ix_schemaJSON = (\<lambda>h. map_option sch_json (table sch_hash (wp_schemas p) h))\<rparr>)))"

section \<open>Identity segments\<close>

fun first_bad :: "(string \<times> string) list \<Rightarrow> run_input_error option" where
  "first_bad [] = None"
| "first_bad ((field, v) # rest) = (if \<not> ValidSafePathSegment v then Some (InvalidRunInput field v) else first_bad rest)"

definition identity_segments :: "PlanGraph \<Rightarrow> (string \<times> string) list" where
  "identity_segments g =
     (''plan graph start node'', graph_start g) # (''plan graph end node'', graph_end g)
     # concat (map (\<lambda>n. (''plan graph node id'', node_id n)
         # map (\<lambda>m. (''plan graph node merge input'', m)) (node_mergeInputs n)) (graph_nodes g))
     @ concat (map (\<lambda>e. [(''plan graph edge from'', edge_from e), (''plan graph edge to'', edge_to e)]) (graph_edges g))"

definition validatePlanIdentitySegments :: "WorkflowPlan \<Rightarrow> run_input_error option" where
  "validatePlanIdentitySegments p =
     (case wp_graph p of
        None \<Rightarrow> Some (InvalidRunInput ''plan graph'' [])
      | Some g \<Rightarrow> first_bad (identity_segments g))"

section \<open>Invocation descriptors\<close>

record StepInvocationDescriptor =
  ds_planHash :: string
  ds_projectKey :: string
  ds_runID :: string
  ds_nodeID :: string
  ds_attempt :: int
  ds_maxAttempts :: int
  ds_scope :: "ExecutionScope option"
  ds_symbol :: SymbolEntry
  ds_sourcePackage :: sourcePackageArtifact
  ds_environmentRef :: string
  ds_input :: DataArtifact
  ds_outputManifestKey :: string
  ds_outputSchema :: string

datatype descriptor_error = MissingSymbol string | MissingPackage string | MissingContract string | DescriptorPanic

definition descriptorForStep ::
    "string \<Rightarrow> string \<Rightarrow> string \<Rightarrow> GraphNode \<Rightarrow> DataArtifact \<Rightarrow> executionIndex \<Rightarrow> int
      \<Rightarrow> (descriptor_error, StepInvocationDescriptor) result" where
  "descriptorForStep planHash projectKey runID node input ix attempt =
     (case ix_symbols ix (node_symbolRef node) of
        None \<Rightarrow> Inl (MissingSymbol (node_symbolRef node))
      | Some symbol \<Rightarrow>
        (case Option.bind (ix_packages ix) (\<lambda>ps. ps (se_packageId symbol)) of
           None \<Rightarrow> Inl (MissingPackage (se_packageId symbol))
         | Some pkg \<Rightarrow>
           (case ix_contracts ix (node_contractRef node) of
              None \<Rightarrow> Inl (MissingContract (node_contractRef node))
            | Some contract \<Rightarrow>
              (case runOutputManifestKey projectKey runID (node_id node) None attempt of
                 None \<Rightarrow> Inl DescriptorPanic
               | Some key \<Rightarrow> Inr
                   \<lparr>ds_planHash = planHash, ds_projectKey = projectKey, ds_runID = runID, ds_nodeID = node_id node,
                    ds_attempt = attempt, ds_maxAttempts = xp_maxAttempts (policyForContract (Some contract)),
                    ds_scope = None, ds_symbol = symbol, ds_sourcePackage = pkg,
                    ds_environmentRef = ec_environmentRef contract, ds_input = input,
                    ds_outputManifestKey = key, ds_outputSchema = node_outputSchema node\<rparr>))))"

definition item_frame :: "string \<Rightarrow> int \<Rightarrow> MapItemScopeFrame" where
  "item_frame node i = \<lparr>sf_kind = ''map-item'', sf_map = node, sf_index = i\<rparr>"

definition descriptorForMapItem ::
    "string \<Rightarrow> string \<Rightarrow> string \<Rightarrow> GraphNode \<Rightarrow> DataArtifact \<Rightarrow> executionIndex \<Rightarrow> int \<Rightarrow> int
      \<Rightarrow> (descriptor_error, StepInvocationDescriptor) result" where
  "descriptorForMapItem planHash projectKey runID node input ix item attempt =
     bindE (descriptorForStep planHash projectKey runID node input ix attempt) (\<lambda>d.
       let scope = Some [item_frame (node_id node) item] in
       case runOutputManifestKey projectKey runID (node_id node) scope attempt of
         None \<Rightarrow> Inl DescriptorPanic
       | Some key \<Rightarrow> Inr (d\<lparr>ds_scope := scope, ds_input := (ds_input d)\<lparr>da_schema := node_itemInputSchema node\<rparr>,
           ds_outputManifestKey := key, ds_outputSchema := node_itemOutputSchema node\<rparr>))"

section \<open>What an index guarantees\<close>

lemma plan_order:
  assumes "topologicalPlanOrder ns es = Inr order"
  shows "distinct (ids ns)" "edges_in (set (ids ns)) es" "distinct order" "set order = set (ids ns)"
    "topo_sorted es order"
proof -
  have c: "check_plan_nodes [] (ids ns) = None" "check_plan_edges (ids ns) es = None"
    and o: "order = ts_order (topo_loop es (topo_init (ids ns) es))" "length order = length (remdups (ids ns))"
    using assms by (auto simp: topologicalPlanOrder_def Let_def split: option.splits if_splits)
  show d: "distinct (ids ns)" and e: "edges_in (set (ids ns)) es"
    using c by (auto simp: check_plan_nodes_None check_plan_edges_None)
  have inv: "kahn_inv es (set (ids ns)) [] (ts_indegree (topo_loop es (topo_init (ids ns) es))) order"
    using topo_run_inv[OF e] o(1) by simp
  have "acyclic (edge_rel es)"
    using run_complete[OF inv] o(2) d by (simp add: distinct_remdups_id)
  then have "mset order = mset (ids ns)" "topo_sorted es order" using kahn_finished_perm[OF inv d] by auto
  then show "distinct order" "set order = set (ids ns)" "topo_sorted es order"
    using d mset_eq_setD[of order "ids ns"] mset_eq_imp_distinct_iff[of order "ids ns"] by auto
qed

lemma table_distinct: "distinct (map key xs) \<Longrightarrow> x \<in> set xs \<Longrightarrow> table key xs (key x) = Some x"
proof -
  assume d: "distinct (map key xs)" "x \<in> set xs"
  have "find (\<lambda>y. key y = key x) ys = Some x" if "distinct (map key ys)" "x \<in> set ys" for ys
    using that by (induction ys) (auto simp: image_iff)
  from this[of "rev xs"] show ?thesis using d by (simp add: table_def rev_map[symmetric])
qed

lemma table_Some: "table key xs k = Some x \<Longrightarrow> x \<in> set xs \<and> key x = k"
  using find_in_set[of "\<lambda>x. key x = k" "rev xs" x] by (auto simp: table_def find_Some_iff)

lemma table_None: "table key xs k = None \<longleftrightarrow> k \<notin> key ` set xs"
  by (auto simp: table_def find_None_iff)

text \<open>The index of a plan with graph \<open>g\<close>.\<close>

definition index_ok :: "PlanGraph \<Rightarrow> executionIndex \<Rightarrow> bool" where
  "index_ok g ix =
     (distinct (ix_nodeOrder ix)
      \<and> (\<forall>i \<in> set (ix_nodeOrder ix). \<exists>n \<in> set (graph_nodes g). node_id n = i \<and> ix_nodes ix i = Some n
           \<and> node_kind n \<noteq> ''start'' \<and> node_kind n \<noteq> ''end'')
      \<and> ix_stepOrder ix = filter (\<lambda>i. kind_of (ix_nodes ix) i = ''step'' \<or> kind_of (ix_nodes ix) i = ''map'') (ix_nodeOrder ix)
      \<and> ix_inbound ix = inbound (graph_edges g)
      \<and> (\<forall>xs i ys. ix_nodeOrder ix = xs @ i # ys \<longrightarrow> (\<forall>e \<in> set (ix_inbound ix i).
           edge_from e \<in> set xs \<or> kind_of (ix_nodes ix) (edge_from e) \<in> {''start'', ''end''})))"

lemma filter_split: "filter P order = xs @ i # ys \<Longrightarrow> \<exists>us vs. order = us @ i # vs \<and> filter P us = xs"
proof (induction order arbitrary: xs)
  case (Cons a order)
  show ?case
  proof (cases "P a \<and> xs = []")
    case True
    then have "order = order \<and> a = i" using Cons.prems by auto
    then show ?thesis using True by (metis append_Nil filter.simps(1))
  next
    case False
    then have "filter P order = (if P a then tl xs else xs) @ i # ys" "P a \<Longrightarrow> hd xs = a \<and> xs \<noteq> []"
      using Cons.prems by (auto split: if_splits simp: append_eq_Cons_conv) (metis append_eq_Cons_conv list.sel(1,3))+
    then obtain us vs where "order = us @ i # vs" "filter P us = (if P a then tl xs else xs)"
      using Cons.IH by blast
    then show ?thesis using \<open>P a \<Longrightarrow> hd xs = a \<and> xs \<noteq> []\<close>
      by (intro exI[of _ "a # us"] exI[of _ vs]) (auto simp: neq_Nil_conv)
  qed
qed simp

lemma topo_sorted_filter:
  assumes "topo_sorted es order" "filter P order = xs @ i # ys" "e \<in> set es" "edge_to e = i"
  shows "edge_from e \<in> set xs \<or> \<not> P (edge_from e)"
proof -
  obtain us vs where o: "order = us @ i # vs" "filter P us = xs"
    using filter_split[OF assms(2)] by blast
  then have "edge_from e \<in> set us" using assms(1,3,4) unfolding topo_sorted_def by blast
  then show ?thesis using o(2) by auto
qed

lemma buildExecutionIndex_ok:
  assumes "buildExecutionIndex f ro chk p = Inr ix"
  shows "\<exists>g. wp_graph p = Some g \<and> index_ok g ix \<and> distinct (ids (graph_nodes g)) \<and> ix_packages ix = None"
proof -
  obtain g order where g: "wp_graph p = Some g" and o: "topologicalPlanOrder (graph_nodes g) (graph_edges g) = Inr order"
    using assms by (auto simp: buildExecutionIndex_def split: option.splits sum.splits)
  let ?t = "table node_id (graph_nodes g)"
  let ?w = "case graph_exitHook g of None \<Rightarrow> ?t | Some h \<Rightarrow> ?t(node_id h \<mapsto> h)"
  have hook: "\<nexists>h. graph_exitHook g = Some h \<and> ?t (node_id h) \<noteq> None"
    and ix: "ix_nodes ix = ?w" "ix_inbound ix = inbound (graph_edges g)" "ix_packages ix = None"
      "ix_nodeOrder ix = filter (\<lambda>i. kind_of ?w i \<noteq> ''start'' \<and> kind_of ?w i \<noteq> ''end'') order"
      "ix_stepOrder ix = filter (\<lambda>i. kind_of ?w i = ''step'' \<or> kind_of ?w i = ''map'') order"
  proof -
    define w where "w = ?w"
    have v: "ValidateExecution f ro chk p = None"
      using assms by (auto simp: buildExecutionIndex_def split: option.splits)
    have eq: "(if \<exists>h. graph_exitHook g = Some h \<and> ?t (node_id h) \<noteq> None
          then Inl (HookIdIsNode (node_id (the (graph_exitHook g))))
          else case check_index_edges w (graph_edges g) of Some e \<Rightarrow> Inl e
            | None \<Rightarrow> Inr \<lparr>ix_nodes = w, ix_symbols = table se_symbolRef (wp_symbols p),
                ix_contracts = table ec_contractRef (wp_contracts p), ix_packages = None,
                ix_inbound = inbound (graph_edges g),
                ix_nodeOrder = filter (\<lambda>i. kind_of w i \<noteq> ''start'' \<and> kind_of w i \<noteq> ''end'') order,
                ix_stepOrder = filter (\<lambda>i. kind_of w i = ''step'' \<or> kind_of w i = ''map'') order,
                ix_schemaRefs = (\<lambda>h. h \<in> sch_hash ` set (wp_schemas p)),
                ix_schemaJSON = (\<lambda>h. map_option sch_json (table sch_hash (wp_schemas p) h))\<rparr>) = Inr ix"
      using assms v g o unfolding buildExecutionIndex_def w_def by (simp only: option.case sum.case Let_def)
    then show "\<nexists>h. graph_exitHook g = Some h \<and> ?t (node_id h) \<noteq> None" by (auto split: if_splits)
    then show "ix_nodes ix = ?w" "ix_inbound ix = inbound (graph_edges g)" "ix_packages ix = None"
      "ix_nodeOrder ix = filter (\<lambda>i. kind_of ?w i \<noteq> ''start'' \<and> kind_of ?w i \<noteq> ''end'') order"
      "ix_stepOrder ix = filter (\<lambda>i. kind_of ?w i = ''step'' \<or> kind_of ?w i = ''map'') order"
      using eq unfolding w_def[symmetric] by (auto split: option.splits if_splits)
  qed
  note ord = plan_order[OF o]
  have nodes: "\<exists>n \<in> set (graph_nodes g). node_id n = i \<and> ?w i = Some n" if i: "i \<in> set order" for i
  proof -
    obtain n where n: "n \<in> set (graph_nodes g)" "node_id n = i" using i ord(4) by (auto simp: ids_def)
    then have "?t i = Some n" using table_distinct[of node_id "graph_nodes g" n] ord(1) by (simp add: ids_def)
    moreover have "?w i = ?t i" using hook calculation by (cases "graph_exitHook g") auto
    ultimately show ?thesis using n by auto
  qed
  have "distinct (ix_nodeOrder ix)" using ix(4) ord(3) by simp
  moreover have "\<forall>i \<in> set (ix_nodeOrder ix). \<exists>n \<in> set (graph_nodes g). node_id n = i \<and> ix_nodes ix i = Some n
           \<and> node_kind n \<noteq> ''start'' \<and> node_kind n \<noteq> ''end''"
    using nodes ix(1,4) by (fastforce simp: kind_of_def)
  moreover have "ix_stepOrder ix = filter (\<lambda>i. kind_of (ix_nodes ix) i = ''step'' \<or> kind_of (ix_nodes ix) i = ''map'') (ix_nodeOrder ix)"
    unfolding ix(1,4,5) filter_filter by (rule filter_cong) auto
  moreover have "edge_from e \<in> set xs \<or> kind_of (ix_nodes ix) (edge_from e) \<in> {''start'', ''end''}"
    if "ix_nodeOrder ix = xs @ i # ys" "e \<in> set (ix_inbound ix i)" for xs i ys e
    using topo_sorted_filter[OF ord(5), of _ xs i ys e] that ix by (auto simp: inbound_def)
  ultimately show ?thesis using g ix(2,3) ord(1) unfolding index_ok_def by blast
qed

lemma first_bad_None: "first_bad xs = None \<longleftrightarrow> (\<forall>x \<in> set xs. ValidSafePathSegment (snd x))"
  by (induction xs rule: first_bad.induct) auto

lemma identity_segments_ok:
  assumes "validatePlanIdentitySegments p = None" "wp_graph p = Some g" "n \<in> set (graph_nodes g)"
  shows "ValidSafePathSegment (node_id n)"
proof -
  have "\<forall>x \<in> set (identity_segments g). ValidSafePathSegment (snd x)"
    using assms(1,2) by (simp add: validatePlanIdentitySegments_def first_bad_None)
  moreover have "(''plan graph node id'', node_id n) \<in> set (identity_segments g)"
    using assms(3) by (force simp: identity_segments_def)
  ultimately show ?thesis by force
qed

lemma item_frame_scope: "ValidSafePathSegment i \<Longrightarrow> item_scope (Some [item_frame i k])"
  by (simp add: item_scope_def item_frame_def)

lemma descriptorForStep_no_panic:
  assumes "ValidSafePathSegment r" "ValidSafePathSegment (node_id n)"
  shows "descriptorForStep h (NormalizeProjectKey p) r n input ix attempt \<noteq> Inl DescriptorPanic"
  using runOutputManifestKey_text[OF assms, of None] by (auto simp: descriptorForStep_def item_scope_def split: option.splits)

lemma descriptorForMapItem_no_panic:
  assumes "ValidSafePathSegment r" "ValidSafePathSegment (node_id n)"
  shows "descriptorForMapItem h (NormalizeProjectKey p) r n input ix k attempt \<noteq> Inl DescriptorPanic"
  using descriptorForStep_no_panic[OF assms, of h p input ix attempt]
    runOutputManifestKey_text[OF assms item_frame_scope[OF assms(2)], of p k attempt]
  by (auto simp: descriptorForMapItem_def bindE_eq_Inl Let_def split: option.splits)

end
