(* ===== verification/Resolution.thy ===== *)
theory Resolution
  imports PlanIndex
begin

text \<open>
  \<^verbatim>\<open>internal/orchestrator/resolution.go\<close> and \<^verbatim>\<open>control.go\<close>: the values that reach a node, the routing of
  decisions, the aliasing of selects and the activation of control regions. Bodies are canonical JSON, so
  \<^verbatim>\<open>json.Unmarshal\<close> is the strict reader; it leaves a nil map or an empty string for \<^verbatim>\<open>null\<close>. The
  third-party schema validator is the parameter \<open>validates\<close>.
\<close>

section \<open>State\<close>

record nodeOutput =
  no_artifact :: DataArtifact
  no_published :: PublishedArtifact
  no_body :: bytes

record executionResolver =
  er_index :: executionIndex
  er_outputs :: "string \<Rightarrow> nodeOutput option"
  er_selected :: "string \<Rightarrow> string option"
  er_inactive :: "string \<Rightarrow> SkipReason option"

definition zero_ref :: ArtifactRef where
  "zero_ref = \<lparr>ref_key = [], ref_hash = [], ref_size = 0, ref_contentType = []\<rparr>"

definition zero_published :: PublishedArtifact where
  "zero_published = \<lparr>pub_manifest = zero_ref, pub_body = zero_ref, pub_schema = []\<rparr>"

definition jsonContentType :: string where
  "jsonContentType = ''application/json''"

definition newExecutionResolver :: "executionIndex \<Rightarrow> PlanGraph \<Rightarrow> bytes \<Rightarrow> executionResolver" where
  "newExecutionResolver ix g input =
     \<lparr>er_index = ix,
      er_outputs = (\<lambda>_. None)(graph_start g \<mapsto>
        \<lparr>no_artifact = \<lparr>da_key = [], da_hash = DigestBytes input, da_contentType = jsonContentType,
           da_schema = pg_inputSchema g\<rparr>, no_published = zero_published, no_body = input\<rparr>),
      er_selected = (\<lambda>_. None), er_inactive = (\<lambda>_. None)\<rparr>"

datatype resolve_error =
    OneInputRequired string
  | MissingOutput string string
  | MergeEdgeMissing string string
  | MergeEdgesExtra string
  | MergeEncode string canonical_error
  | DecisionInput string
  | DecisionInputSchema string
  | SelectorNotObject string
  | SelectorMissing string
  | SelectorNotString string
  | CaseSchemaUnavailable string string
  | CaseSchemaViolated string string
  | CaseUndeclared string
  | NoSelection string
  | SelectSourceMissing string
  | SelectSchema string
  | SelectCaseMissing string string
  | UnresolvedDecision string string
  | SelectedSourceInactive string string

section \<open>Values\<close>

fun merge_bodies :: "executionResolver \<Rightarrow> string \<Rightarrow> string list \<Rightarrow> (resolve_error, bytes list) result" where
  "merge_bodies r node [] = Inr []"
| "merge_bodies r node (s # ss) =
     (case er_outputs r s of
        None \<Rightarrow> Inl (MissingOutput s node)
      | Some out \<Rightarrow> bindE (merge_bodies r node ss) (\<lambda>bs. Inr (no_body out # bs)))"

definition inputForNode :: "number_printer \<Rightarrow> executionResolver \<Rightarrow> GraphNode \<Rightarrow> (resolve_error, bytes) result" where
  "inputForNode f r node =
     (let inb = ix_inbound (er_index r) (node_id node) in
      if node_mergeInputs node = [] then
        (case inb of
           [e] \<Rightarrow>
             (case er_outputs r (edge_from e) of
                None \<Rightarrow> Inl (MissingOutput (edge_from e) (node_id node))
              | Some out \<Rightarrow> Inr (no_body out))
         | _ \<Rightarrow> Inl (OneInputRequired (node_id node)))
      else
        (case find (\<lambda>s. s \<notin> edge_from ` set inb) (node_mergeInputs node) of
           Some s \<Rightarrow> Inl (MergeEdgeMissing (node_id node) s)
         | None \<Rightarrow>
             if length inb \<noteq> length (node_mergeInputs node) then Inl (MergeEdgesExtra (node_id node))
             else bindE (merge_bodies r (node_id node) (node_mergeInputs node)) (\<lambda>bs.
               case marshal_raws f bs of
                 Inl e \<Rightarrow> Inl (MergeEncode (node_id node) e)
               | Inr b \<Rightarrow> Inr b)))"

definition decisionCaseForValue ::
    "(string \<Rightarrow> bytes \<Rightarrow> bool) \<Rightarrow> GraphNode \<Rightarrow> bytes \<Rightarrow> (string \<Rightarrow> string option) \<Rightarrow> (resolve_error, string) result" where
  "decisionCaseForValue validates node body schemas =
     (let members = (case read_json body of
            Some (JObj ms) \<Rightarrow> Some (map_of ms)
          | Some JNull \<Rightarrow> Some (\<lambda>_. None)
          | _ \<Rightarrow> None)
      in case members of
           None \<Rightarrow> Inl (SelectorNotObject (node_id node))
         | Some value \<Rightarrow>
           (case value (node_selector node) of
              None \<Rightarrow> Inl (SelectorMissing (node_id node))
            | Some raw \<Rightarrow>
              (let decoded = (case raw of JStr s \<Rightarrow> Some s | JNull \<Rightarrow> Some [] | _ \<Rightarrow> None) in
               case decoded of
                 None \<Rightarrow> Inl (SelectorNotString (node_id node))
               | Some tag \<Rightarrow>
                 (case find (\<lambda>c. dc_tag c = tag) (node_cases node) of
                    None \<Rightarrow> Inl (CaseUndeclared (node_id node))
                  | Some c \<Rightarrow>
                    (let schema = (case schemas (dc_schema c) of None \<Rightarrow> [] | Some s \<Rightarrow> s) in
                     if schema = [] then Inl (CaseSchemaUnavailable (node_id node) tag)
                     else if \<not> validates schema body then Inl (CaseSchemaViolated (node_id node) tag)
                     else Inr tag)))))"

definition routeDecision ::
    "number_printer \<Rightarrow> (string \<Rightarrow> bytes \<Rightarrow> bool) \<Rightarrow> executionResolver \<Rightarrow> GraphNode
      \<Rightarrow> (resolve_error, string \<times> executionResolver) result" where
  "routeDecision f validates r node =
     (case ix_inbound (er_index r) (node_id node) of
        [e] \<Rightarrow>
          (case inputForNode f r node of
             Inl _ \<Rightarrow> Inl (DecisionInput (node_id node))
           | Inr body \<Rightarrow>
             (case er_outputs r (edge_from e) of
                None \<Rightarrow> Inl (DecisionInput (node_id node))
              | Some input \<Rightarrow>
                  if da_schema (no_artifact input) \<noteq> node_inputSchema node then Inl (DecisionInputSchema (node_id node))
                  else bindE (decisionCaseForValue validates node body (ix_schemaJSON (er_index r))) (\<lambda>tag.
                    Inr (tag, r\<lparr>er_selected := (er_selected r)(node_id node \<mapsto> tag),
                                er_outputs := (er_outputs r)(node_id node \<mapsto> input)\<rparr>))))
      | _ \<Rightarrow> Inl (OneInputRequired (node_id node)))"

definition selectOutput :: "executionResolver \<Rightarrow> GraphNode \<Rightarrow> (resolve_error, executionResolver) result" where
  "selectOutput r node =
     (case er_selected r (node_decisionRef node) of
        None \<Rightarrow> Inl (NoSelection (node_id node))
      | Some tag \<Rightarrow>
        (case find (\<lambda>i. si_case i = tag) (node_selectInputs node) of
           None \<Rightarrow> Inl (SelectCaseMissing (node_id node) tag)
         | Some i \<Rightarrow>
           (case er_outputs r (si_source i) of
              None \<Rightarrow> Inl (SelectSourceMissing (node_id node))
            | Some out \<Rightarrow>
                if da_schema (no_artifact out) \<noteq> node_outputSchema node then Inl (SelectSchema (node_id node))
                else Inr (r\<lparr>er_outputs := (er_outputs r)(node_id node \<mapsto> out)\<rparr>))))"

section \<open>Activation\<close>

fun edge_skip :: "executionResolver \<Rightarrow> string \<Rightarrow> GraphEdge list \<Rightarrow> (resolve_error, SkipReason option) result" where
  "edge_skip r node [] = Inr None"
| "edge_skip r node (e # es) =
     (case er_inactive r (edge_from e) of
        Some reason \<Rightarrow> Inr (Some reason)
      | None \<Rightarrow>
          if edge_case e \<noteq> [] then
            (case er_selected r (edge_from e) of
               None \<Rightarrow> Inl (UnresolvedDecision node (edge_from e))
             | Some sel \<Rightarrow>
                 if sel \<noteq> edge_case e
                 then Inr (Some \<lparr>sr_kind = ''decision-not-selected'', sr_decision = edge_from e, sr_case = edge_case e\<rparr>)
                 else edge_skip r node es)
          else edge_skip r node es)"

definition activationSkipReason :: "executionResolver \<Rightarrow> GraphNode \<Rightarrow> (resolve_error, SkipReason option) result" where
  "activationSkipReason r node =
     (if node_kind node = NodeKindSelect then
        (case er_inactive r (node_decisionRef node) of
           Some reason \<Rightarrow> Inr (Some reason)
         | None \<Rightarrow>
           (case er_selected r (node_decisionRef node) of
              None \<Rightarrow> Inl (UnresolvedDecision (node_id node) (node_decisionRef node))
            | Some sel \<Rightarrow>
              (case find (\<lambda>i. si_case i = sel) (node_selectInputs node) of
                 None \<Rightarrow> Inl (SelectCaseMissing (node_id node) sel)
               | Some i \<Rightarrow>
                   if er_inactive r (si_source i) \<noteq> None then Inl (SelectedSourceInactive (node_id node) (si_source i))
                   else Inr None)))
      else edge_skip r (node_id node) (ix_inbound (er_index r) (node_id node)))"

section \<open>Control values on remote targets\<close>

datatype control_error =
    ControlInput canonical_error
  | ControlResolve resolve_error
  | ControlCaseUnavailable string
  | ControlSchemaUnavailable string
  | ControlSchemaViolated string
  | ControlNotControl string
  | ControlNodeUnavailable string

fun case_index :: "nat \<Rightarrow> string \<Rightarrow> DecisionCase list \<Rightarrow> nat option" where
  "case_index i tag [] = None"
| "case_index i tag (c # cs) = (if dc_tag c = tag then Some i else case_index (Suc i) tag cs)"

definition ResolveControlValue ::
    "number_printer \<Rightarrow> (string \<Rightarrow> bytes \<Rightarrow> bool) \<Rightarrow> WorkflowPlan \<Rightarrow> string \<Rightarrow> bytes
      \<Rightarrow> (control_error, bytes \<times> nat option) result" where
  "ResolveControlValue f validates p nodeID inputJSON =
     (case CanonicalizeJSON f inputJSON of
        Inl e \<Rightarrow> Inl (ControlInput e)
      | Inr input \<Rightarrow>
          let schemas = (\<lambda>h. map_option sch_json (table sch_hash (wp_schemas p) h));
              nodes = (case wp_graph p of None \<Rightarrow> [] | Some g \<Rightarrow> graph_nodes g)
          in case find (\<lambda>n. node_id n = nodeID) nodes of
               None \<Rightarrow> Inl (ControlNodeUnavailable nodeID)
             | Some node \<Rightarrow>
                 if node_kind node = NodeKindDecision then
                   (case decisionCaseForValue validates node input schemas of
                      Inl e \<Rightarrow> Inl (ControlResolve e)
                    | Inr tag \<Rightarrow>
                      (case case_index 0 tag (node_cases node) of
                         None \<Rightarrow> Inl (ControlCaseUnavailable nodeID)
                       | Some i \<Rightarrow> Inr (input, Some i)))
                 else if node_kind node = NodeKindSelect then
                   (case schemas (node_outputSchema node) of
                      None \<Rightarrow> Inl (ControlSchemaUnavailable nodeID)
                    | Some schema \<Rightarrow>
                        if \<not> validates schema input then Inl (ControlSchemaViolated nodeID)
                        else Inr (input, None))
                 else Inl (ControlNotControl nodeID))"

section \<open>Characterisations\<close>

lemma find_Some_first: "find P xs = Some x \<Longrightarrow> x \<in> set xs \<and> P x"
  by (induction xs) (auto split: if_splits)

lemma decisionCase_Inr:
  "decisionCaseForValue validates node body schemas = Inr tag \<longleftrightarrow>
     (\<exists>ms c raw schema. read_json body = Some (JObj ms) \<and> map_of ms (node_selector node) = Some raw
        \<and> (raw = JStr tag \<or> raw = JNull \<and> tag = []) \<and> find (\<lambda>c. dc_tag c = tag) (node_cases node) = Some c
        \<and> schemas (dc_schema c) = Some schema \<and> schema \<noteq> [] \<and> validates schema body)"
  by (auto simp: decisionCaseForValue_def Let_def split: option.splits json.splits if_splits)

lemma routeDecision_Inr:
  "routeDecision f validates r node = Inr (tag, r') \<longleftrightarrow>
     (\<exists>e body input. ix_inbound (er_index r) (node_id node) = [e] \<and> inputForNode f r node = Inr body
        \<and> er_outputs r (edge_from e) = Some input \<and> da_schema (no_artifact input) = node_inputSchema node
        \<and> decisionCaseForValue validates node body (ix_schemaJSON (er_index r)) = Inr tag
        \<and> r' = r\<lparr>er_selected := (er_selected r)(node_id node \<mapsto> tag), er_outputs := (er_outputs r)(node_id node \<mapsto> input)\<rparr>)"
  by (auto simp: routeDecision_def bindE_eq_Inr split: list.splits option.splits sum.splits if_splits)

lemma case_index_Some:
  "case_index k tag cs = Some i \<Longrightarrow> \<exists>j. i = k + j \<and> j < length cs \<and> dc_tag (cs ! j) = tag \<and> (\<forall>l < j. dc_tag (cs ! l) \<noteq> tag)"
proof (induction cs arbitrary: k)
  case (Cons c cs)
  show ?case
  proof (cases "dc_tag c = tag")
    case True
    then show ?thesis using Cons.prems by (intro exI[of _ 0]) auto
  next
    case False
    then obtain j where j: "i = Suc k + j" "j < length cs" "dc_tag (cs ! j) = tag" "\<forall>l < j. dc_tag (cs ! l) \<noteq> tag"
      using Cons.IH[of "Suc k"] Cons.prems by auto
    then show ?thesis
      using False by (intro exI[of _ "Suc j"]) (auto simp: less_Suc_eq_0_disj)
  qed
qed simp

lemma case_index_find:
  "find (\<lambda>c. dc_tag c = tag) cs = Some c \<Longrightarrow> \<exists>i. case_index k tag cs = Some i"
  by (induction cs arbitrary: k) (auto split: if_splits)

lemma inputForNode_single:
  assumes "node_mergeInputs node = []" "ix_inbound (er_index r) (node_id node) = [e]" "er_outputs r (edge_from e) = Some out"
  shows "inputForNode f r node = Inr (no_body out)"
  using assms by (simp add: inputForNode_def)

lemma merge_bodies_Inr:
  "merge_bodies r node ss = Inr bs \<longleftrightarrow> list_all2 (\<lambda>s b. \<exists>out. er_outputs r s = Some out \<and> no_body out = b) ss bs"
proof (induction ss arbitrary: bs)
  case (Cons s ss)
  then show ?case by (cases bs) (auto simp: bindE_eq_Inr split: option.splits)
qed auto

lemma edge_skip_None:
  "edge_skip r node es = Inr None \<longleftrightarrow>
     (\<forall>e \<in> set es. er_inactive r (edge_from e) = None
        \<and> (edge_case e \<noteq> [] \<longrightarrow> er_selected r (edge_from e) = Some (edge_case e)))"
  by (induction es) (auto split: option.splits)

lemma edge_skip_Some:
  "edge_skip r node es = Inr (Some reason) \<Longrightarrow>
     \<exists>e \<in> set es. er_inactive r (edge_from e) = Some reason
        \<or> (\<exists>sel. edge_case e \<noteq> [] \<and> er_selected r (edge_from e) = Some sel \<and> sel \<noteq> edge_case e
             \<and> reason = \<lparr>sr_kind = ''decision-not-selected'', sr_decision = edge_from e, sr_case = edge_case e\<rparr>)"
  by (induction es) (auto split: option.splits if_splits)

section \<open>An example\<close>

definition route_body :: bytes where \<open>route_body = ''{"k":"x"}''\<close>

definition route_node :: GraphNode where
  "route_node = zero_node\<lparr>node_id := ''d'', node_kind := NodeKindDecision, node_inputSchema := ''S'', node_selector := ''k'',
     node_cases := [\<lparr>dc_tag = ''y'', dc_schema = ''Y''\<rparr>, \<lparr>dc_tag = ''x'', dc_schema = ''X''\<rparr>]\<rparr>"

definition route_graph :: PlanGraph where
  "route_graph = \<lparr>graph_irVersion = [], graph_start = ''s'', graph_end = ''e'', graph_nodes = [route_node],
     graph_edges = [\<lparr>edge_from = ''s'', edge_to = ''d'', edge_case = []\<rparr>], graph_exitHook = None,
     pg_inputSchema = ''S'', pg_deadlineSeconds = None\<rparr>"

definition route_plan :: WorkflowPlan where
  "route_plan = \<lparr>wp_planHash = [], wp_graph = Some route_graph,
     wp_schemas = [\<lparr>sch_hash = ''X'', sch_json = ''{}''\<rparr>, \<lparr>sch_hash = ''Y'', sch_json = ''{}''\<rparr>],
     wp_symbols = [], wp_contracts = [], wp_sourcePackages = [], wp_environments = []\<rparr>"

definition route_index :: executionIndex where
  "route_index = \<lparr>ix_nodes = (\<lambda>_. None), ix_symbols = (\<lambda>_. None), ix_contracts = (\<lambda>_. None), ix_packages = None,
     ix_inbound = inbound (graph_edges route_graph), ix_nodeOrder = [''d''], ix_stepOrder = [], ix_schemaRefs = (\<lambda>_. True),
     ix_schemaJSON = (\<lambda>h. map_option sch_json (table sch_hash (wp_schemas route_plan) h))\<rparr>"

definition route_state :: executionResolver where
  "route_state = newExecutionResolver route_index route_graph route_body"

definition accepts :: "string \<Rightarrow> bytes \<Rightarrow> bool" where
  "accepts schema body = True"

lemma route_reads: "read_json route_body = Some (JObj [(''k'', JStr ''x'')])"
  by (simp add: route_body_def read_eval)

lemma route_canonical: "CanonicalizeJSON print_integer route_body = Inr route_body"
  by (simp add: CanonicalizeJSON_def decodeJSON_def route_reads key_less_def utf16_eval jsonQuote_def quote_rune_def
      encode_rune_def scalar_def char_of_def bit_0) (simp add: route_body_def)

lemma route_inbound: "ix_inbound (er_index route_state) (node_id route_node) = [\<lparr>edge_from = ''s'', edge_to = ''d'', edge_case = []\<rparr>]"
  by (simp add: route_state_def newExecutionResolver_def route_index_def inbound_def route_graph_def route_node_def)

lemma route_out: "\<exists>out. er_outputs route_state ''s'' = Some out \<and> no_body out = route_body \<and> da_schema (no_artifact out) = ''S''"
  by (simp add: route_state_def newExecutionResolver_def route_graph_def)

lemma route_case: "decisionCaseForValue accepts route_node route_body (ix_schemaJSON (er_index route_state)) = Inr ''x''"
  unfolding decisionCase_Inr
  by (simp add: route_reads route_node_def route_state_def newExecutionResolver_def route_index_def route_plan_def table_def
      accepts_def)

lemma route_example: "\<exists>r'. routeDecision print_integer accepts route_state route_node = Inr (''x'', r')"
proof -
  obtain out where out: "er_outputs route_state ''s'' = Some out" "no_body out = route_body" "da_schema (no_artifact out) = ''S''"
    using route_out by blast
  then have "inputForNode print_integer route_state route_node = Inr route_body"
    using inputForNode_single[OF _ route_inbound, of out] by (simp add: route_node_def zero_node_def)
  then show ?thesis
    using out route_case route_inbound unfolding routeDecision_Inr by (auto simp: route_node_def)
qed

section \<open>Properties\<close>

text \<open>
  C32. A decision routes by data alone: a successful routing selects a declared case whose tag is the
  selector's value in the classified document and whose schema that document satisfies, hands the
  classifier's own artifact on unchanged, and touches no other node's output or selection.
\<close>

theorem routeDecision_sound:
  assumes "routeDecision f validates r node = Inr (tag, r')" "node_mergeInputs node = []"
  shows "\<exists>e input ms c schema. ix_inbound (er_index r) (node_id node) = [e] \<and> er_outputs r (edge_from e) = Some input
    \<and> read_json (no_body input) = Some (JObj ms)
    \<and> (map_of ms (node_selector node) = Some (JStr tag) \<or> map_of ms (node_selector node) = Some JNull \<and> tag = [])
    \<and> c \<in> set (node_cases node) \<and> dc_tag c = tag
    \<and> ix_schemaJSON (er_index r) (dc_schema c) = Some schema \<and> validates schema (no_body input)
    \<and> er_outputs r' = (er_outputs r)(node_id node \<mapsto> input) \<and> er_selected r' = (er_selected r)(node_id node \<mapsto> tag)
    \<and> er_inactive r' = er_inactive r \<and> er_index r' = er_index r"
proof -
  obtain e body input where e: "ix_inbound (er_index r) (node_id node) = [e]" "inputForNode f r node = Inr body"
    "er_outputs r (edge_from e) = Some input" "decisionCaseForValue validates node body (ix_schemaJSON (er_index r)) = Inr tag"
    "r' = r\<lparr>er_selected := (er_selected r)(node_id node \<mapsto> tag), er_outputs := (er_outputs r)(node_id node \<mapsto> input)\<rparr>"
    using assms(1) unfolding routeDecision_Inr by blast
  have "body = no_body input" using inputForNode_single[OF assms(2) e(1,3), of f] e(2) by simp
  moreover obtain ms c raw schema where c: "read_json body = Some (JObj ms)" "map_of ms (node_selector node) = Some raw"
    "raw = JStr tag \<or> raw = JNull \<and> tag = []" "find (\<lambda>c. dc_tag c = tag) (node_cases node) = Some c"
    "ix_schemaJSON (er_index r) (dc_schema c) = Some schema" "validates schema body"
    using e(4) unfolding decisionCase_Inr by blast
  moreover have "c \<in> set (node_cases node) \<and> dc_tag c = tag" using find_Some_first[OF c(4)] by simp
  ultimately show ?thesis using e by auto
qed

theorem routeDecision_sound_witness:
  "\<exists>r' c. routeDecision print_integer accepts route_state route_node = Inr (''x'', r') \<and> c \<in> set (node_cases route_node)
    \<and> dc_tag c = ''x'' \<and> er_selected r' ''d'' = Some ''x''"
proof -
  obtain r' where r': "routeDecision print_integer accepts route_state route_node = Inr (''x'', r')"
    using route_example by blast
  have "node_mergeInputs route_node = []" "node_id route_node = ''d''" by (simp_all add: route_node_def zero_node_def)
  with routeDecision_sound[OF r'] show ?thesis using r' by (metis fun_upd_same)
qed

text \<open>
  C33. The local executor and a remote control task route alike: the case index that
  \<^verbatim>\<open>ResolveControlValue\<close> reports for the classified document names the case the local resolver selected,
  and it forwards the same bytes.
\<close>

theorem control_agrees:
  assumes "routeDecision f validates r node = Inr (tag, r')" "node_mergeInputs node = []"
    and "wp_graph p = Some g" "find (\<lambda>n. node_id n = node_id node) (graph_nodes g) = Some node"
    and "node_kind node = NodeKindDecision"
    and "ix_schemaJSON (er_index r) = (\<lambda>h. map_option sch_json (table sch_hash (wp_schemas p) h))"
    and "er_outputs r' (node_id node) = Some out" "is_canonical f (no_body out)"
  shows "\<exists>i. ResolveControlValue f validates p (node_id node) (no_body out) = Inr (no_body out, Some i)
    \<and> i < length (node_cases node) \<and> dc_tag (node_cases node ! i) = tag"
proof -
  obtain e body input where e: "ix_inbound (er_index r) (node_id node) = [e]" "inputForNode f r node = Inr body"
    "er_outputs r (edge_from e) = Some input" "decisionCaseForValue validates node body (ix_schemaJSON (er_index r)) = Inr tag"
    "r' = r\<lparr>er_selected := (er_selected r)(node_id node \<mapsto> tag), er_outputs := (er_outputs r)(node_id node \<mapsto> input)\<rparr>"
    using assms(1) unfolding routeDecision_Inr by blast
  have b: "body = no_body out"
    using inputForNode_single[OF assms(2) e(1,3), of f] e(2,5) assms(7) by simp
  obtain c where "find (\<lambda>c. dc_tag c = tag) (node_cases node) = Some c" using e(4) unfolding decisionCase_Inr by blast
  then obtain i where i: "case_index 0 tag (node_cases node) = Some i" using case_index_find by blast
  then have "i < length (node_cases node)" "dc_tag (node_cases node ! i) = tag" using case_index_Some[OF i] by auto
  then show ?thesis
    using assms(3-6,8) e(4) b i by (simp add: ResolveControlValue_def is_canonical_def)
qed

theorem control_agrees_witness:
  "\<exists>i. ResolveControlValue print_integer accepts route_plan ''d'' route_body = Inr (route_body, Some i)
    \<and> dc_tag (node_cases route_node ! i) = ''x''"
proof -
  obtain r' where r': "routeDecision print_integer accepts route_state route_node = Inr (''x'', r')"
    using route_example by blast
  obtain out where out: "er_outputs route_state ''s'' = Some out" "no_body out = route_body" using route_out by blast
  have n: "node_mergeInputs route_node = []" "node_id route_node = ''d''" "node_kind route_node = NodeKindDecision"
    by (simp_all add: route_node_def zero_node_def)
  have g: "wp_graph route_plan = Some route_graph" "find (\<lambda>n. node_id n = node_id route_node) (graph_nodes route_graph) = Some route_node"
    by (simp_all add: route_plan_def route_graph_def)
  have ix: "ix_schemaJSON (er_index route_state) = (\<lambda>h. map_option sch_json (table sch_hash (wp_schemas route_plan) h))"
    by (simp add: route_state_def newExecutionResolver_def route_index_def)
  have o: "er_outputs r' (node_id route_node) = Some out"
    using r' out route_inbound unfolding routeDecision_Inr by auto
  have "is_canonical print_integer (no_body out)" using out(2) route_canonical by (simp add: is_canonical_def)
  from control_agrees[OF r' n(1) g n(3) ix o this] show ?thesis using n(2) out(2) by auto
qed

text \<open>
  C34. Activation follows the control edges exactly: an ordinary node runs when and only when no
  inbound source is inactive and every conditional inbound edge carries its decision's selected case, and
  a skip names such a source's reason or the unselected case.
\<close>

theorem activation_exact:
  assumes "node_kind node \<noteq> NodeKindSelect"
  shows "(activationSkipReason r node = Inr None \<longleftrightarrow>
      (\<forall>e \<in> set (ix_inbound (er_index r) (node_id node)). er_inactive r (edge_from e) = None
         \<and> (edge_case e = [] \<or> er_selected r (edge_from e) = Some (edge_case e))))
    \<and> (activationSkipReason r node = Inr (Some reason) \<longrightarrow>
      (\<exists>e \<in> set (ix_inbound (er_index r) (node_id node)). er_inactive r (edge_from e) = Some reason
         \<or> (\<exists>sel. er_selected r (edge_from e) = Some sel \<and> sel \<noteq> edge_case e
              \<and> sr_decision reason = edge_from e \<and> sr_case reason = edge_case e)))"
  using assms edge_skip_Some[of r "node_id node" "ix_inbound (er_index r) (node_id node)" reason]
  by (fastforce simp: activationSkipReason_def edge_skip_None)

theorem activation_exact_witness: "activationSkipReason route_state route_node = Inr None"
proof -
  have "node_kind route_node \<noteq> NodeKindSelect" by (simp add: route_node_def node_kinds)
  from activation_exact[OF this, of route_state] show ?thesis
    by (simp add: route_inbound) (simp add: route_state_def newExecutionResolver_def)
qed

text \<open>
  A merge step receives its declared inputs in the declared order: with the inbound edges equal to
  the merge inputs and canonical outputs, the step's input is the array of those outputs' bytes.
\<close>

theorem merge_input_order:
  assumes "number_codec f" "node_mergeInputs node \<noteq> []"
    and "set (node_mergeInputs node) \<subseteq> edge_from ` set (ix_inbound (er_index r) (node_id node))"
    and "length (ix_inbound (er_index r) (node_id node)) = length (node_mergeInputs node)"
    and "\<forall>s \<in> set (node_mergeInputs node). \<exists>out. er_outputs r s = Some out \<and> no_body out = body s
      \<and> is_canonical f (body s) \<and> shallow (body s)"
  shows "inputForNode f r node = Inr ([CHR 0x5B] @ join_with [CHR 0x2C] (map body (node_mergeInputs node)) @ [CHR 0x5D])"
proof -
  have "merge_bodies r (node_id node) (node_mergeInputs node) = Inr (map body (node_mergeInputs node))"
    unfolding merge_bodies_Inr using assms(5) by (auto simp: list_all2_conv_all_nth)
  moreover have "find (\<lambda>s. s \<notin> edge_from ` set (ix_inbound (er_index r) (node_id node))) (node_mergeInputs node) = None"
    using assms(3) by (auto simp: find_None_iff)
  moreover have "marshal_raws f (map body (node_mergeInputs node))
      = Inr ([CHR 0x5B] @ join_with [CHR 0x2C] (map body (node_mergeInputs node)) @ [CHR 0x5D])"
    using assms(5) by (intro marshal_canonical[OF assms(1)]) auto
  ultimately show ?thesis using assms(2,4) by (simp add: inputForNode_def Let_def)
qed

theorem merge_input_order_witness:
  "inputForNode print_integer route_state (route_node\<lparr>node_mergeInputs := [''s'']\<rparr>) = Inr (CHR 0x5B # route_body @ [CHR 0x5D])"
proof -
  obtain out where out: "er_outputs route_state ''s'' = Some out" "no_body out = route_body" using route_out by blast
  have sh: "shallow route_body" using route_reads by (simp add: shallow_def max_nesting_def)
  have inb: "ix_inbound (er_index route_state) (node_id (route_node\<lparr>node_mergeInputs := [''s'']\<rparr>))
      = [\<lparr>edge_from = ''s'', edge_to = ''d'', edge_case = []\<rparr>]"
    using route_inbound by simp
  show ?thesis
    using merge_input_order[OF print_integer_codec, of "route_node\<lparr>node_mergeInputs := [''s'']\<rparr>" route_state "\<lambda>_. route_body"]
      out sh route_canonical unfolding inb by (simp add: is_canonical_def)
qed

end
