(* ===== verification/ObjectStore.thy ===== *)
theory ObjectStore
  imports Keys
begin

text \<open>
  The object store of \<^verbatim>\<open>internal/datastore\<close>: the contract its clients rely on, as a locale, and
  \<^verbatim>\<open>LocalDatastore\<close> (\<^verbatim>\<open>local.go\<close>) over a file system whose operations can fail or be cut short.
  The disk remembers every intermediate state, so that what a crash leaves behind is a state of its past.
\<close>

section \<open>The contract\<close>

datatype store_error = StoreNotFound | StoreExists | StoreInvalidKey | StoreEnded | StoreFault

record 's datastore =
  ds_put_new :: "string \<Rightarrow> bytes \<Rightarrow> string \<Rightarrow> 's \<Rightarrow> store_error option \<times> 's"
  ds_get :: "string \<Rightarrow> 's \<Rightarrow> (store_error + string \<times> bytes) \<times> 's"
  ds_open :: "string \<Rightarrow> 's \<Rightarrow> (store_error + string \<times> bytes) \<times> 's"

text \<open>
  What a conditional write and a read promise. \<open>view\<close> is what the store holds: content type and body.
  A failed conditional write may have installed its object, and may find its key taken only if it is.
\<close>

locale immutable_store =
  fixes ds :: "'s datastore"
    and inv :: "'s \<Rightarrow> bool"
    and good :: "string \<Rightarrow> bool"
    and ctype :: "string \<Rightarrow> bool"
    and view :: "'s \<Rightarrow> string \<Rightarrow> (string \<times> bytes) option"
  assumes put_view: "inv s \<Longrightarrow> good k \<Longrightarrow> ctype t \<Longrightarrow> good j \<Longrightarrow> view (snd (ds_put_new ds k b t s)) j = view s j
        \<or> j = k \<and> view s k = None \<and> view (snd (ds_put_new ds k b t s)) k = Some (t, b)"
    and put_inv: "inv s \<Longrightarrow> good k \<Longrightarrow> ctype t \<Longrightarrow> inv (snd (ds_put_new ds k b t s))"
    and put_ok: "inv s \<Longrightarrow> good k \<Longrightarrow> ctype t \<Longrightarrow> fst (ds_put_new ds k b t s) = None \<Longrightarrow> view (snd (ds_put_new ds k b t s)) k = Some (t, b) \<and> view s k = None"
    and get_view: "inv s \<Longrightarrow> good k \<Longrightarrow> view (snd (ds_get ds k s)) = view s"
    and get_inv: "inv s \<Longrightarrow> good k \<Longrightarrow> inv (snd (ds_get ds k s))"
    and get_ok: "inv s \<Longrightarrow> good k \<Longrightarrow> fst (ds_get ds k s) = Inr obj \<Longrightarrow> view s k = Some obj"
    and get_missing: "inv s \<Longrightarrow> good k \<Longrightarrow> fst (ds_get ds k s) = Inl StoreNotFound \<Longrightarrow> view s k = None"
    and open_view: "inv s \<Longrightarrow> good k \<Longrightarrow> view (snd (ds_open ds k s)) = view s"
    and open_inv: "inv s \<Longrightarrow> good k \<Longrightarrow> inv (snd (ds_open ds k s))"
    and open_ok: "inv s \<Longrightarrow> good k \<Longrightarrow> fst (ds_open ds k s) = Inr obj \<Longrightarrow> view s k = Some obj"
    and open_missing: "inv s \<Longrightarrow> good k \<Longrightarrow> fst (ds_open ds k s) = Inl StoreNotFound \<Longrightarrow> view s k = None"
begin

text \<open>Once stored, an object never changes.\<close>

lemma put_keeps: "inv s \<Longrightarrow> good k \<Longrightarrow> ctype t \<Longrightarrow> good j \<Longrightarrow> view s j = Some obj \<Longrightarrow> view (snd (ds_put_new ds k b t s)) j = Some obj"
  using put_view by (metis option.distinct(1))

lemma get_found: "inv s \<Longrightarrow> good k \<Longrightarrow> view s k = Some obj \<Longrightarrow> fst (ds_get ds k s) = Inr x \<Longrightarrow> x = obj"
  using get_ok by fastforce

end

text \<open>A store that answers: while it is calm, a read of a stored object returns it.\<close>

locale live_store = immutable_store +
  fixes calm :: "'s \<Rightarrow> bool"
  assumes get_live: "inv s \<Longrightarrow> good k \<Longrightarrow> calm s \<Longrightarrow> view s k = Some obj \<Longrightarrow> fst (ds_get ds k s) = Inr obj"
    and get_calm: "inv s \<Longrightarrow> good k \<Longrightarrow> calm s \<Longrightarrow> calm (snd (ds_get ds k s))"
    and open_live: "inv s \<Longrightarrow> good k \<Longrightarrow> calm s \<Longrightarrow> view s k = Some obj \<Longrightarrow> fst (ds_open ds k s) = Inr obj"
    and open_calm: "inv s \<Longrightarrow> good k \<Longrightarrow> calm s \<Longrightarrow> calm (snd (ds_open ds k s))"

section \<open>The file system\<close>

type_synonym path = "string list"

datatype node = Dir | File bytes

type_synonym nodes = "path \<Rightarrow> node option"

text \<open>What happens to the next operation: it works, it is refused, or a write is cut after some bytes.\<close>

datatype fault = Works | Refused_op | Torn nat

datatype os_error = OsExist | OsNotExist | OsOther

record disk =
  dk_nodes :: nodes
  dk_faults :: "fault list"
  dk_ended :: "bool list"
  dk_uuids :: "string list"
  dk_past :: "nodes list"

definition hd_or :: "'a \<Rightarrow> 'a list \<Rightarrow> 'a" where
  "hd_or d xs = (case xs of [] \<Rightarrow> d | x # _ \<Rightarrow> x)"

definition disk_op :: "(nodes \<Rightarrow> (os_error + 'a) \<times> nodes) \<Rightarrow> disk \<Rightarrow> (os_error + 'a) \<times> disk" where
  "disk_op g s =
     (let (x, n) = (if hd_or Works (dk_faults s) = Works then g (dk_nodes s) else (Inl OsOther, dk_nodes s))
      in (x, s\<lparr>dk_nodes := n, dk_faults := tl (dk_faults s), dk_past := dk_past s @ [n]\<rparr>))"

definition make_dir :: "path \<Rightarrow> nodes \<Rightarrow> nodes option" where
  "make_dir p n = (case n p of None \<Rightarrow> Some (n(p \<mapsto> Dir)) | Some Dir \<Rightarrow> Some n | Some (File _) \<Rightarrow> None)"

fun mkdir_all :: "path \<Rightarrow> path \<Rightarrow> nodes \<Rightarrow> (os_error + unit) \<times> nodes" where
  "mkdir_all above_path [] n = (case make_dir above_path n of None \<Rightarrow> (Inl OsOther, n) | Some n' \<Rightarrow> (Inr (), n'))"
| "mkdir_all above_path (p # ps) n =
     (case make_dir above_path n of None \<Rightarrow> (Inl OsOther, n) | Some n' \<Rightarrow> mkdir_all (above_path @ [p]) ps n')"

definition os_MkdirAll :: "path \<Rightarrow> disk \<Rightarrow> (os_error + unit) \<times> disk" where
  "os_MkdirAll p = disk_op (mkdir_all [] p)"

text \<open>\<^verbatim>\<open>WriteFile\<close> creates or truncates, then writes; a torn write leaves a prefix.\<close>

definition os_WriteFile :: "path \<Rightarrow> bytes \<Rightarrow> disk \<Rightarrow> (os_error + unit) \<times> disk" where
  "os_WriteFile p b s =
     (let n = dk_nodes s; writable = (n (butlast p) = Some Dir \<and> n p \<noteq> Some Dir);
          (x, n') = (case hd_or Works (dk_faults s) of
              Works \<Rightarrow> if writable then (Inr (), n(p \<mapsto> File b)) else (Inl OsOther, n)
            | Refused_op \<Rightarrow> (Inl OsOther, n)
            | Torn i \<Rightarrow> (Inl OsOther, if writable then n(p \<mapsto> File (take i b)) else n))
      in (x, s\<lparr>dk_nodes := n', dk_faults := tl (dk_faults s), dk_past := dk_past s @ [n']\<rparr>))"

definition os_Link :: "path \<Rightarrow> path \<Rightarrow> disk \<Rightarrow> (os_error + unit) \<times> disk" where
  "os_Link old new = disk_op (\<lambda>n.
     case n old of
       Some (File b) \<Rightarrow>
         if n new \<noteq> None then (Inl OsExist, n)
         else if n (butlast new) = Some Dir then (Inr (), n(new \<mapsto> File b)) else (Inl OsNotExist, n)
     | _ \<Rightarrow> (Inl OsNotExist, n))"

definition os_Rename :: "path \<Rightarrow> path \<Rightarrow> disk \<Rightarrow> (os_error + unit) \<times> disk" where
  "os_Rename old new = disk_op (\<lambda>n.
     case n old of
       Some (File b) \<Rightarrow>
         if n new = Some Dir then (Inl OsExist, n)
         else if n (butlast new) = Some Dir then (Inr (), (n(old := None))(new \<mapsto> File b)) else (Inl OsNotExist, n)
     | _ \<Rightarrow> (Inl OsNotExist, n))"

definition os_Remove :: "path \<Rightarrow> disk \<Rightarrow> (os_error + unit) \<times> disk" where
  "os_Remove p = disk_op (\<lambda>n. case n p of Some (File _) \<Rightarrow> (Inr (), n(p := None)) | Some Dir \<Rightarrow> (Inl OsOther, n) | None \<Rightarrow> (Inl OsNotExist, n))"

text \<open>A path below a file is not a missing path: the system reports that a component is no directory.\<close>

definition below_file :: "nodes \<Rightarrow> path \<Rightarrow> bool" where
  "below_file n p = list_ex (\<lambda>i. case n (take i p) of Some (File _) \<Rightarrow> True | _ \<Rightarrow> False) [0..<length p]"

definition os_ReadFile :: "path \<Rightarrow> disk \<Rightarrow> (os_error + bytes) \<times> disk" where
  "os_ReadFile p = disk_op (\<lambda>n. (case n p of Some (File b) \<Rightarrow> Inr b | Some Dir \<Rightarrow> Inl OsOther
    | None \<Rightarrow> if below_file n p then Inl OsOther else Inl OsNotExist, n))"

definition os_Open :: "path \<Rightarrow> disk \<Rightarrow> (os_error + node) \<times> disk" where
  "os_Open p = disk_op (\<lambda>n. (case n p of Some x \<Rightarrow> Inr x
    | None \<Rightarrow> if below_file n p then Inl OsOther else Inl OsNotExist, n))"

definition os_FileStat :: "disk \<Rightarrow> (os_error + unit) \<times> disk" where
  "os_FileStat = disk_op (\<lambda>n. (Inr (), n))"

definition ctx_ended :: "disk \<Rightarrow> bool \<times> disk" where
  "ctx_ended s = (hd_or False (dk_ended s), s\<lparr>dk_ended := tl (dk_ended s)\<rparr>)"

definition new_uuid :: "disk \<Rightarrow> string \<times> disk" where
  "new_uuid s = (hd_or [] (dk_uuids s), s\<lparr>dk_uuids := tl (dk_uuids s)\<rparr>)"

section \<open>Computations on the disk\<close>

type_synonym 'a fs = "disk \<Rightarrow> (store_error + 'a) \<times> disk"

definition fs_bind :: "'a fs \<Rightarrow> ('a \<Rightarrow> 'b fs) \<Rightarrow> 'b fs" where
  "fs_bind m k s = (case m s of (Inl e, s') \<Rightarrow> (Inl e, s') | (Inr x, s') \<Rightarrow> k x s')"

definition fs_ret :: "'a \<Rightarrow> 'a fs" where
  "fs_ret x s = (Inr x, s)"

definition fs_fail :: "store_error \<Rightarrow> 'a fs" where
  "fs_fail e s = (Inl e, s)"

definition os_call :: "(os_error \<Rightarrow> store_error) \<Rightarrow> (disk \<Rightarrow> (os_error + 'a) \<times> disk) \<Rightarrow> 'a fs" where
  "os_call h m s = (case m s of (Inl e, s') \<Rightarrow> (Inl (h e), s') | (Inr x, s') \<Rightarrow> (Inr x, s'))"

definition fs_pure :: "(disk \<Rightarrow> 'a \<times> disk) \<Rightarrow> 'a fs" where
  "fs_pure f s = (Inr (fst (f s)), snd (f s))"

text \<open>A deferred clean-up runs on failure and its own error is dropped.\<close>

definition fs_cleanup :: "'a fs \<Rightarrow> (disk \<Rightarrow> 'b \<times> disk) \<Rightarrow> 'a fs" where
  "fs_cleanup m c s = (case m s of (Inl e, s') \<Rightarrow> (Inl e, snd (c s')) | r \<Rightarrow> r)"

definition fs_finally :: "'a fs \<Rightarrow> (disk \<Rightarrow> 'b \<times> disk) \<Rightarrow> 'a fs" where
  "fs_finally m c s = (case m s of (r, s') \<Rightarrow> (r, snd (c s')))"

abbreviation fault_of :: "os_error \<Rightarrow> store_error" where
  "fault_of \<equiv> \<lambda>_. StoreFault"

section \<open>The local store\<close>

definition localMetadataDirName :: string where
  "localMetadataDirName = ''.massive-datastore-metadata''"

definition defaultContentType :: "string \<Rightarrow> string" where
  "defaultContentType t = (if t = [] then ''application/octet-stream'' else t)"

text \<open>\<^verbatim>\<open>filepath.Localize\<close> on Unix: a key is its own path; it must be UTF-8 without a zero byte.\<close>

definition pathForKey :: "string \<Rightarrow> path fs" where
  "pathForKey key = (if valid_utf8 key \<and> CHR 0x00 \<notin> set key then fs_ret (split_on slash key) else fs_fail StoreInvalidKey)"

definition metadataPath :: "string \<Rightarrow> path" where
  "metadataPath key = [localMetadataDirName, Sum256_hex key @ ''.json'']"

text \<open>\<^verbatim>\<open>json.Marshal\<close> of \<^verbatim>\<open>localMetadata\<close>: Go also escapes the HTML characters and two separators.\<close>

definition html_quote_rune :: "nat \<Rightarrow> string" where
  "html_quote_rune r =
     (if r = 60 then [CHR 0x5C] @ ''u003c'' else if r = 62 then [CHR 0x5C] @ ''u003e'' else if r = 38 then [CHR 0x5C] @ ''u0026''
      else if r = 8232 then [CHR 0x5C] @ ''u2028'' else if r = 8233 then [CHR 0x5C] @ ''u2029'' else quote_rune r)"

definition encode_metadata :: "string \<Rightarrow> bytes" where
  "encode_metadata t =
     [CHR 0x7B] @ jsonQuote ''contentType'' @ [CHR 0x3A] @ [CHR 0x22] @ concat (map html_quote_rune (runes t)) @ [CHR 0x22] @ [CHR 0x7D]"

definition decode_metadata :: "bytes \<Rightarrow> string option" where
  "decode_metadata m =
     (case read_json m of
        Some (JObj ms) \<Rightarrow>
          (case find (\<lambda>x. map ascii_lower (fst x) = ''contenttype'') (rev ms) of
             None \<Rightarrow> Some []
           | Some (_, JStr t) \<Rightarrow> Some t
           | Some (_, JNull) \<Rightarrow> Some []
           | Some _ \<Rightarrow> None)
      | Some JNull \<Rightarrow> Some []
      | _ \<Rightarrow> None)"

definition readContentType :: "string \<Rightarrow> string fs" where
  "readContentType key s =
     (case os_ReadFile (metadataPath key) s of
        (Inl OsNotExist, s') \<Rightarrow> (Inr (defaultContentType []), s')
      | (Inl _, s') \<Rightarrow> (Inl StoreFault, s')
      | (Inr m, s') \<Rightarrow> (case decode_metadata m of None \<Rightarrow> (Inl StoreFault, s') | Some t \<Rightarrow> (Inr (defaultContentType t), s')))"

definition temp_metadata :: "string \<Rightarrow> string \<Rightarrow> path" where
  "temp_metadata key u = [localMetadataDirName, Sum256_hex key @ ''.json'' @ ''.tmp-'' @ u]"

definition writeMetadata :: "string \<Rightarrow> string \<Rightarrow> unit fs" where
  "writeMetadata key contentType =
     fs_bind (os_call fault_of (os_MkdirAll [localMetadataDirName])) (\<lambda>_.
     fs_bind (fs_pure new_uuid) (\<lambda>u.
     fs_bind (os_call fault_of (os_WriteFile (temp_metadata key u) (encode_metadata contentType))) (\<lambda>_.
     fs_cleanup (os_call fault_of (os_Rename (temp_metadata key u) (metadataPath key))) (os_Remove (temp_metadata key u)))))"

definition writeMetadataIfAbsent :: "string \<Rightarrow> string \<Rightarrow> bool fs" where
  "writeMetadataIfAbsent key contentType =
     fs_bind (os_call fault_of (os_MkdirAll [localMetadataDirName])) (\<lambda>_.
     fs_bind (fs_pure new_uuid) (\<lambda>u.
     fs_bind (os_call fault_of (os_WriteFile (temp_metadata key u) (encode_metadata contentType))) (\<lambda>_.
     fs_finally
       (\<lambda>s. case os_Link (temp_metadata key u) (metadataPath key) s of
          (Inl OsExist, s') \<Rightarrow> (Inr False, s')
        | (Inl _, s') \<Rightarrow> (Inl StoreFault, s')
        | (Inr _, s') \<Rightarrow> (Inr True, s'))
       (os_Remove (temp_metadata key u)))))"

definition temp_body :: "path \<Rightarrow> string \<Rightarrow> path" where
  "temp_body target u = butlast target @ [''.tmp-'' @ last target @ ''-'' @ u]"

definition install_absent :: "string \<Rightarrow> string \<Rightarrow> path \<Rightarrow> path \<Rightarrow> unit fs" where
  "install_absent key contentType temporary target =
     fs_bind (writeMetadataIfAbsent key contentType) (\<lambda>installed.
     fs_bind (if installed then fs_ret ()
              else fs_bind (readContentType key) (\<lambda>t. if t \<noteq> contentType then fs_fail StoreExists else fs_ret ())) (\<lambda>_.
     os_call (\<lambda>e. if e = OsExist then StoreExists else StoreFault) (os_Link temporary target)))"

definition local_Put :: "bool \<Rightarrow> string \<Rightarrow> bytes \<Rightarrow> string \<Rightarrow> unit fs" where
  "local_Put ifAbsent key body requested =
     fs_bind (fs_pure ctx_ended) (\<lambda>over.
     if over then fs_fail StoreEnded
     else
       let contentType = defaultContentType requested in
       fs_bind (os_call fault_of (os_MkdirAll [])) (\<lambda>_.
       fs_bind (pathForKey key) (\<lambda>target.
       fs_bind (os_call fault_of (os_MkdirAll (butlast target))) (\<lambda>_.
       fs_bind (fs_pure new_uuid) (\<lambda>u.
       let temporary = temp_body target u in
       fs_bind (os_call fault_of (os_WriteFile temporary body)) (\<lambda>_.
       if ifAbsent then
         fs_bind (fs_cleanup (install_absent key contentType temporary target) (os_Remove temporary)) (\<lambda>_.
         os_call fault_of (os_Remove temporary))
       else
         fs_bind (fs_cleanup (os_call fault_of (os_Rename temporary target)) (os_Remove temporary)) (\<lambda>_.
         writeMetadata key contentType)))))))"

definition open_root :: "unit fs" where
  "open_root s = (case dk_nodes s [] of Some Dir \<Rightarrow> (Inr (), s) | Some (File _) \<Rightarrow> (Inl StoreFault, s) | None \<Rightarrow> (Inl StoreNotFound, s))"

definition missing_or_fault :: "os_error \<Rightarrow> store_error" where
  "missing_or_fault e = (if e = OsNotExist then StoreNotFound else StoreFault)"

definition local_Get :: "string \<Rightarrow> (string \<times> bytes) fs" where
  "local_Get key =
     fs_bind (fs_pure ctx_ended) (\<lambda>over.
     if over then fs_fail StoreEnded
     else
       fs_bind open_root (\<lambda>_.
       fs_bind (pathForKey key) (\<lambda>target.
       fs_bind (os_call missing_or_fault (os_ReadFile target)) (\<lambda>body.
       fs_bind (readContentType key) (\<lambda>t. fs_ret (t, body))))))"

text \<open>\<^verbatim>\<open>Open\<close> keeps the file it found: what the caller then reads is the body it held at that moment.\<close>

definition local_Open :: "string \<Rightarrow> (string \<times> bytes) fs" where
  "local_Open key =
     fs_bind (fs_pure ctx_ended) (\<lambda>over.
     if over then fs_fail StoreEnded
     else
       fs_bind open_root (\<lambda>_.
       fs_bind (pathForKey key) (\<lambda>target.
       fs_bind (os_call missing_or_fault (os_Open target)) (\<lambda>file.
       fs_bind (os_call fault_of os_FileStat) (\<lambda>_.
       case file of
         Dir \<Rightarrow> fs_fail StoreFault
       | File body \<Rightarrow> fs_bind (readContentType key) (\<lambda>t. fs_ret (t, body)))))))"

definition local_Exists :: "string \<Rightarrow> bool fs" where
  "local_Exists key =
     fs_bind (fs_pure ctx_ended) (\<lambda>over.
     if over then fs_fail StoreEnded
     else (\<lambda>s.
       case open_root s of
         (Inl StoreNotFound, s') \<Rightarrow> (Inr False, s')
       | (Inl e, s') \<Rightarrow> (Inl e, s')
       | (Inr _, s') \<Rightarrow>
           fs_bind (pathForKey key) (\<lambda>target. os_call fault_of (disk_op (\<lambda>n.
             (case n target of Some (File _) \<Rightarrow> Inr True | Some Dir \<Rightarrow> Inr False
              | None \<Rightarrow> if below_file n target then Inl OsOther else Inr False, n)))) s'))"

definition local_store :: "disk datastore" where
  "local_store = \<lparr>ds_put_new = (\<lambda>k b t s. case local_Put True k b t s of (Inl e, s') \<Rightarrow> (Some e, s') | (Inr _, s') \<Rightarrow> (None, s')),
     ds_get = local_Get, ds_open = local_Open\<rparr>"

section \<open>What the disk holds\<close>

definition local_key :: "string \<Rightarrow> bool" where
  "local_key key =
     (hd (split_on slash key) \<noteq> localMetadataDirName \<and> \<not> has_prefix (last (split_on slash key)) ''.tmp-''
      \<and> valid_utf8 key \<and> CHR 0x00 \<notin> set key)"

definition plain_type :: "string \<Rightarrow> bool" where
  "plain_type t = (t \<noteq> [] \<and> valid_utf8 t \<and> (\<forall>r \<in> set (runes t). r \<notin> {60, 62, 38, 8232, 8233}))"

definition type_on :: "nodes \<Rightarrow> string \<Rightarrow> string option" where
  "type_on n key =
     (case n (metadataPath key) of
        None \<Rightarrow> Some (defaultContentType [])
      | Some Dir \<Rightarrow> None
      | Some (File m) \<Rightarrow> map_option defaultContentType (decode_metadata m))"

definition held :: "nodes \<Rightarrow> string \<Rightarrow> (string \<times> bytes) option" where
  "held n key =
     (case n (split_on slash key) of Some (File b) \<Rightarrow> map_option (\<lambda>t. (t, b)) (type_on n key) | _ \<Rightarrow> None)"

text \<open>Metadata records are whole, and no body is visible without one.\<close>

definition nodes_inv :: "nodes \<Rightarrow> bool" where
  "nodes_inv n =
     ((\<forall>k. n (metadataPath k) = None \<or> (\<exists>t. plain_type t \<and> n (metadataPath k) = Some (File (encode_metadata t))))
      \<and> (\<forall>k b. local_key k \<longrightarrow> n (split_on slash k) = Some (File b) \<longrightarrow> n (metadataPath k) \<noteq> None))"

lemma encode_plain:
  assumes "plain_type t"
  shows "encode_metadata t = text_of (JObj [(''contentType'', JStr t)])"
proof -
  have "map html_quote_rune (runes t) = map quote_rune (runes t)"
    using assms by (intro map_cong) (auto simp: plain_type_def html_quote_rune_def)
  then have "concat (map html_quote_rune (runes t)) = concat (map quote_rune (runes t))" by (rule arg_cong)
  then show ?thesis by (simp add: encode_metadata_def text_of_simps jsonQuote_def)
qed

lemma decode_encode:
  assumes "plain_type t"
  shows "decode_metadata (encode_metadata t) = Some t"
proof -
  have "valid_utf8 ''contentType''" by (rule valid_utf8_ascii) simp
  then have "read_json (encode_metadata t) = Some (JObj [(''contentType'', JStr t)])"
    unfolding encode_plain[OF assms] using assms
    by (intro read_text_of) (auto simp: plain_type_def max_nesting_def)
  then show ?thesis by (simp add: decode_metadata_def ascii_lower_def char_of_def bit_0)
qed

lemma default_plain [simp]: "plain_type t \<Longrightarrow> defaultContentType t = t"
  by (simp add: plain_type_def defaultContentType_def)

lemma split_inject: "split_on c a = split_on c b \<Longrightarrow> a = b"
  using join_split by metis

lemma metadata_not_key: "local_key j \<Longrightarrow> split_on slash j \<noteq> metadataPath k" "local_key j \<Longrightarrow> metadataPath k \<noteq> split_on slash j"
  by (auto simp: local_key_def metadataPath_def) (metis list.sel(1))+

lemma held_cong:
  assumes "n' (metadataPath j) = n (metadataPath j)"
    and "n' (split_on slash j) = n (split_on slash j) \<or> n (split_on slash j) = None \<and> n' (split_on slash j) = Some Dir"
  shows "held n' j = held n j"
proof -
  have "type_on n' j = type_on n j" by (simp add: type_on_def assms(1))
  then show ?thesis using assms(2) by (auto simp: held_def split: option.splits node.splits)
qed

text \<open>Paths that no key and no metadata record uses.\<close>

definition scratch :: "path \<Rightarrow> bool" where
  "scratch p = ((\<forall>j. local_key j \<longrightarrow> p \<noteq> split_on slash j) \<and> (\<forall>j. p \<noteq> metadataPath j))"

lemma temp_metadata_scratch: "scratch (temp_metadata k u)"
proof -
  have "length (Sum256_hex k @ ''.json'' @ ''.tmp-'' @ u) \<noteq> length (Sum256_hex j @ ''.json'')" for j
    by (simp add: Sum256_hex_form)
  then have "temp_metadata k u \<noteq> metadataPath j" for j
    unfolding temp_metadata_def metadataPath_def by (metis list.inject)
  then show ?thesis by (auto simp: scratch_def local_key_def temp_metadata_def) (metis list.sel(1))
qed

lemma temp_body_scratch:
  assumes "local_key k"
  shows "scratch (temp_body (split_on slash k) u)" "hd (temp_body (split_on slash k) u) \<noteq> localMetadataDirName"
proof -
  let ?t = "split_on slash k"
  have "hd (temp_body ?t u) \<noteq> localMetadataDirName"
  proof (cases "butlast ?t")
    case Nil
    then show ?thesis by (simp add: temp_body_def localMetadataDirName_def)
  next
    case (Cons x xs)
    then have "hd ?t = x" by (cases ?t) (auto split: if_splits)
    then show ?thesis using Cons assms by (simp add: temp_body_def local_key_def)
  qed
  moreover have "temp_body ?t u \<noteq> split_on slash j" if "local_key j" for j
  proof
    assume "temp_body ?t u = split_on slash j"
    then have "last (split_on slash j) = ''.tmp-'' @ last ?t @ ''-'' @ u" by (metis temp_body_def last_snoc)
    then show False using that by (auto simp: local_key_def has_prefix_def)
  qed
  ultimately show "scratch (temp_body ?t u)" "hd (temp_body ?t u) \<noteq> localMetadataDirName"
    by (auto simp: scratch_def metadataPath_def)
qed

text \<open>What an operation on one path leaves alone.\<close>

lemma scratch_update:
  assumes "scratch p"
  shows "local_key j \<Longrightarrow> held (n(p := x)) j = held n j" "nodes_inv (n(p := x)) = nodes_inv n"
proof -
  have m: "(n(p := x)) (metadataPath j) = n (metadataPath j)" for j using assms by (auto simp: scratch_def)
  have b: "local_key j \<Longrightarrow> (n(p := x)) (split_on slash j) = n (split_on slash j)" for j using assms by (auto simp: scratch_def)
  show "local_key j \<Longrightarrow> held (n(p := x)) j = held n j" using m b by (intro held_cong) simp_all
  show "nodes_inv (n(p := x)) = nodes_inv n" using m b by (simp add: nodes_inv_def)
qed

text \<open>Directories: only missing paths change, and none of them is a metadata record.\<close>

lemma dir_update:
  assumes "n p = None" "\<forall>j. p \<noteq> metadataPath j"
  shows "held (n(p \<mapsto> Dir)) j = held n j" "nodes_inv n \<Longrightarrow> nodes_inv (n(p \<mapsto> Dir))"
proof -
  have m: "(n(p \<mapsto> Dir)) (metadataPath j) = n (metadataPath j)" for j using assms(2) by auto
  show "held (n(p \<mapsto> Dir)) j = held n j" using m assms(1) by (intro held_cong) auto
  show "nodes_inv n \<Longrightarrow> nodes_inv (n(p \<mapsto> Dir))" using m by (auto simp: nodes_inv_def)
qed

text \<open>A metadata record for a key that has none: no body with that record is visible yet.\<close>

lemma metadata_update:
  assumes "nodes_inv n" "n (metadataPath k) = None" "plain_type t"
  shows "local_key j \<Longrightarrow> held (n(metadataPath k \<mapsto> File (encode_metadata t))) j = held n j"
    and "nodes_inv (n(metadataPath k \<mapsto> File (encode_metadata t)))"
proof -
  let ?n = "n(metadataPath k \<mapsto> File (encode_metadata t))"
  have b: "local_key j \<Longrightarrow> ?n (split_on slash j) = n (split_on slash j)" for j using metadata_not_key(1)[of j k] by simp
  show "local_key j \<Longrightarrow> held ?n j = held n j"
  proof (cases "metadataPath j = metadataPath k")
    case True
    assume j: "local_key j"
    then have "n (split_on slash j) = Some (File x) \<Longrightarrow> False" for x using assms(1,2) True unfolding nodes_inv_def by metis
    then show ?thesis using b[OF j] by (auto simp: held_def split: option.splits node.splits)
  qed (use b in \<open>auto intro!: held_cong\<close>)
  show "nodes_inv ?n" using assms b unfolding nodes_inv_def by (auto simp: fun_upd_def)
qed

text \<open>The body of a key whose record is in place: this is the one step that makes an object visible.\<close>

lemma body_update:
  assumes "nodes_inv n" "local_key k" "n (split_on slash k) = None" "n (metadataPath k) = Some (File (encode_metadata t))" "plain_type t"
  shows "held (n(split_on slash k \<mapsto> File b)) k = Some (t, b)" "held n k = None"
    and "local_key j \<Longrightarrow> j \<noteq> k \<Longrightarrow> held (n(split_on slash k \<mapsto> File b)) j = held n j"
    and "nodes_inv (n(split_on slash k \<mapsto> File b))"
proof -
  let ?n = "n(split_on slash k \<mapsto> File b)"
  have m: "?n (metadataPath j) = n (metadataPath j)" for j using metadata_not_key(2)[OF assms(2)] by simp
  show "held ?n k = Some (t, b)" using assms(4,5) m by (simp add: held_def type_on_def decode_encode)
  show "held n k = None" using assms(3) by (simp add: held_def)
  show "local_key j \<Longrightarrow> j \<noteq> k \<Longrightarrow> held ?n j = held n j" using m split_inject[of slash j k] by (intro held_cong) auto
  show "nodes_inv ?n" using assms(1,4) m split_inject unfolding nodes_inv_def by (metis fun_upd_apply option.distinct(1))
qed

section \<open>Computations that keep every intermediate state\<close>

text \<open>
  \<open>fs_ok I P m Q\<close>: from a state with \<open>I\<close> and \<open>P\<close>, every state the computation passes through has \<open>I\<close>, and a
  value it returns has \<open>Q\<close>.
\<close>

definition fs_ok :: "(nodes \<Rightarrow> bool) \<Rightarrow> (nodes \<Rightarrow> bool) \<Rightarrow> (disk \<Rightarrow> ('e + 'a) \<times> disk) \<Rightarrow> ('a \<Rightarrow> nodes \<Rightarrow> bool) \<Rightarrow> bool" where
  "fs_ok I P m Q =
     (\<forall>s. I (dk_nodes s) \<longrightarrow> P (dk_nodes s) \<longrightarrow>
        I (dk_nodes (snd (m s))) \<and> (\<exists>ps. dk_past (snd (m s)) = dk_past s @ ps \<and> (\<forall>n \<in> set ps. I n))
        \<and> (\<forall>x. fst (m s) = Inr x \<longrightarrow> Q x (dk_nodes (snd (m s)))))"

lemma fs_okD:
  assumes "fs_ok I P m Q" "I (dk_nodes s)" "P (dk_nodes s)"
  shows "I (dk_nodes (snd (m s)))" "\<exists>ps. dk_past (snd (m s)) = dk_past s @ ps \<and> (\<forall>n \<in> set ps. I n)"
    "fst (m s) = Inr x \<Longrightarrow> Q x (dk_nodes (snd (m s)))"
  using assms unfolding fs_ok_def by blast+

lemma fs_ok_conseq: "fs_ok I P m Q \<Longrightarrow> (\<And>n. I n \<Longrightarrow> P' n \<Longrightarrow> P n) \<Longrightarrow> (\<And>x n. I n \<Longrightarrow> Q x n \<Longrightarrow> Q' x n) \<Longrightarrow> fs_ok I P' m Q'"
  unfolding fs_ok_def by blast

text \<open>A fact that every state keeps may join the invariant for a while.\<close>

lemma fs_ok_strengthen:
  assumes "fs_ok (\<lambda>n. I n \<and> T n) P m Q" "\<And>n. P' n \<Longrightarrow> T n \<and> P n"
  shows "fs_ok I P' m (\<lambda>x n. T n \<and> Q x n)"
  using assms unfolding fs_ok_def by blast

lemma fs_ok_bind:
  assumes m: "fs_ok I P m R" and k: "\<And>x. fs_ok I (R x) (k x) Q"
  shows "fs_ok I P (fs_bind m k) Q"
  unfolding fs_ok_def
proof (intro allI impI)
  fix s :: disk assume s: "I (dk_nodes s)" "P (dk_nodes s)"
  obtain r s' where ms: "m s = (r, s')" by (cases "m s")
  obtain ps where ps: "dk_past s' = dk_past s @ ps" "\<forall>n \<in> set ps. I n" using fs_okD(2)[OF m s] ms by auto
  show "I (dk_nodes (snd (fs_bind m k s))) \<and> (\<exists>ps. dk_past (snd (fs_bind m k s)) = dk_past s @ ps \<and> (\<forall>n \<in> set ps. I n))
      \<and> (\<forall>x. fst (fs_bind m k s) = Inr x \<longrightarrow> Q x (dk_nodes (snd (fs_bind m k s))))"
  proof (cases r)
    case (Inl e)
    then show ?thesis using fs_okD(1)[OF m s] ms ps by (auto simp: fs_bind_def)
  next
    case (Inr x)
    have s': "I (dk_nodes s')" "R x (dk_nodes s')" using fs_okD(1,3)[OF m s] ms Inr by auto
    obtain qs where "dk_past (snd (k x s')) = dk_past s' @ qs" "\<forall>n \<in> set qs. I n" using fs_okD(2)[OF k s'] by blast
    then have "dk_past (snd (k x s')) = dk_past s @ (ps @ qs)" "\<forall>n \<in> set (ps @ qs). I n" using ps by auto
    then show ?thesis using fs_okD(1,3)[OF k s'] ms Inr by (auto simp: fs_bind_def simp del: append_assoc)
  qed
qed

lemma fs_ok_ret: "(\<And>n. I n \<Longrightarrow> P n \<Longrightarrow> Q x n) \<Longrightarrow> fs_ok I P (fs_ret x) Q"
  by (auto simp: fs_ok_def fs_ret_def)

lemma fs_ok_fail: "fs_ok I P (fs_fail e) Q"
  by (simp add: fs_ok_def fs_fail_def)

lemma fs_ok_pure:
  "(\<And>s. dk_nodes (snd (f s)) = dk_nodes s \<and> dk_past (snd (f s)) = dk_past s) \<Longrightarrow> fs_ok I P (fs_pure f) (\<lambda>_. P)"
  by (simp add: fs_ok_def fs_pure_def)

lemma fs_ok_ctx: "fs_ok I P (fs_pure ctx_ended) (\<lambda>_. P)" "fs_ok I P (fs_pure new_uuid) (\<lambda>_. P)"
  by (auto intro!: fs_ok_pure simp: ctx_ended_def new_uuid_def)

lemma fs_ok_call: "fs_ok I P m Q \<Longrightarrow> fs_ok I P (os_call h m) Q"
proof -
  have "snd (os_call h m s) = snd (m s)" "fst (os_call h m s) = Inr x \<longleftrightarrow> fst (m s) = Inr x" for s x
    by (simp_all add: os_call_def split: prod.split sum.split)
  then show "fs_ok I P m Q \<Longrightarrow> fs_ok I P (os_call h m) Q" by (simp add: fs_ok_def)
qed

lemma fs_ok_op:
  assumes "\<And>n. I n \<Longrightarrow> P n \<Longrightarrow> I (snd (g n)) \<and> (\<forall>x. fst (g n) = Inr x \<longrightarrow> Q x (snd (g n)))"
  shows "fs_ok I P (disk_op g) Q"
  using assms by (simp add: fs_ok_def disk_op_def Let_def split_def)

lemma fs_ok_write:
  assumes "\<And>n c. I n \<Longrightarrow> P n \<Longrightarrow> n (butlast p) = Some Dir \<Longrightarrow> n p \<noteq> Some Dir \<Longrightarrow> I (n(p \<mapsto> File c))"
    and "\<And>n. I n \<Longrightarrow> P n \<Longrightarrow> Q () (n(p \<mapsto> File b))"
  shows "fs_ok I P (os_WriteFile p b) Q"
  using assms by (auto simp: fs_ok_def os_WriteFile_def Let_def split: fault.splits)

lemma fs_ok_cleanup:
  assumes "fs_ok I P m Q" "fs_ok I (\<lambda>_. True) c (\<lambda>_ _. True)"
  shows "fs_ok I P (fs_cleanup m c) Q"
  unfolding fs_ok_def
proof (intro allI impI)
  fix s :: disk assume s: "I (dk_nodes s)" "P (dk_nodes s)"
  obtain r s' where ms: "m s = (r, s')" by (cases "m s")
  obtain ps where ps: "dk_past s' = dk_past s @ ps" "\<forall>n \<in> set ps. I n" using fs_okD(2)[OF assms(1) s] ms by auto
  have i: "I (dk_nodes s')" using fs_okD(1)[OF assms(1) s] ms by simp
  obtain qs where "dk_past (snd (c s')) = dk_past s' @ qs" "\<forall>n \<in> set qs. I n" using fs_okD(2)[OF assms(2) i] by blast
  then have qs: "dk_past (snd (c s')) = dk_past s @ (ps @ qs)" "\<forall>n \<in> set (ps @ qs). I n" using ps by auto
  show "I (dk_nodes (snd (fs_cleanup m c s))) \<and> (\<exists>ps. dk_past (snd (fs_cleanup m c s)) = dk_past s @ ps \<and> (\<forall>n \<in> set ps. I n))
      \<and> (\<forall>x. fst (fs_cleanup m c s) = Inr x \<longrightarrow> Q x (dk_nodes (snd (fs_cleanup m c s))))"
    using i ps qs fs_okD(1)[OF assms(2) i] fs_okD(3)[OF assms(1) s] ms
    by (cases r) (auto simp: fs_cleanup_def simp del: append_assoc)
qed

lemma fs_ok_finally:
  assumes "fs_ok I P m Q" "fs_ok I (\<lambda>_. True) c (\<lambda>_ _. True)"
    and "\<And>x s. I (dk_nodes s) \<Longrightarrow> Q x (dk_nodes s) \<Longrightarrow> Q x (dk_nodes (snd (c s)))"
  shows "fs_ok I P (fs_finally m c) Q"
  unfolding fs_ok_def
proof (intro allI impI)
  fix s :: disk assume s: "I (dk_nodes s)" "P (dk_nodes s)"
  obtain r s' where ms: "m s = (r, s')" by (cases "m s")
  obtain ps where ps: "dk_past s' = dk_past s @ ps" "\<forall>n \<in> set ps. I n" using fs_okD(2)[OF assms(1) s] ms by auto
  have i: "I (dk_nodes s')" using fs_okD(1)[OF assms(1) s] ms by simp
  obtain qs where "dk_past (snd (c s')) = dk_past s' @ qs" "\<forall>n \<in> set qs. I n" using fs_okD(2)[OF assms(2) i] by blast
  then have qs: "dk_past (snd (c s')) = dk_past s @ (ps @ qs)" "\<forall>n \<in> set (ps @ qs). I n" using ps by auto
  show "I (dk_nodes (snd (fs_finally m c s))) \<and> (\<exists>ps. dk_past (snd (fs_finally m c s)) = dk_past s @ ps \<and> (\<forall>n \<in> set ps. I n))
      \<and> (\<forall>x. fst (fs_finally m c s) = Inr x \<longrightarrow> Q x (dk_nodes (snd (fs_finally m c s))))"
    using qs fs_okD(1)[OF assms(2) i] fs_okD(3)[OF assms(1) s] assms(3)[OF i] ms
    by (auto simp: fs_finally_def simp del: append_assoc)
qed

lemma fs_ok_fact: "(\<And>n. P n \<Longrightarrow> C) \<Longrightarrow> (C \<Longrightarrow> fs_ok I P m Q) \<Longrightarrow> fs_ok I P m Q"
  unfolding fs_ok_def by blast

lemma fs_ok_if: "(c \<Longrightarrow> fs_ok I P m Q) \<Longrightarrow> (\<not> c \<Longrightarrow> fs_ok I P m' Q) \<Longrightarrow> fs_ok I P (if c then m else m') Q"
  by simp

section \<open>A conditional write\<close>

text \<open>A root directory, unless the disk is still empty.\<close>

definition rooted :: "nodes \<Rightarrow> bool" where
  "rooted n = (n [] = Some Dir \<or> n = Map.empty)"

text \<open>Every state of a conditional write: the old objects, and possibly the new one.\<close>

definition grows :: "nodes \<Rightarrow> string \<Rightarrow> string \<Rightarrow> bytes \<Rightarrow> nodes \<Rightarrow> bool" where
  "grows n0 k t b n =
     (nodes_inv n \<and> rooted n
      \<and> (\<forall>j. local_key j \<longrightarrow> held n j = held n0 j \<or> (j = k \<and> held n0 k = None \<and> held n k = Some (t, b))))"

lemma rooted_update: "rooted n \<Longrightarrow> n q \<noteq> None \<Longrightarrow> p \<noteq> [] \<Longrightarrow> rooted (n(p := x))"
  by (auto simp: rooted_def)

lemma scratch_nonempty: "rooted n \<Longrightarrow> n (butlast p) = Some Dir \<Longrightarrow> n p \<noteq> Some Dir \<Longrightarrow> p \<noteq> []"
  by auto

lemma grows_scratch:
  assumes "grows n0 k t b n" "scratch p" "n q \<noteq> None" "p \<noteq> []"
  shows "grows n0 k t b (n(p := x))"
  using assms scratch_update[OF assms(2)] rooted_update[of n q p x] unfolding grows_def by auto

lemma grows_dir:
  assumes "grows n0 k t b n" "n p = None" "\<forall>j. p \<noteq> metadataPath j" "p = [] \<or> n [] = Some Dir"
  shows "grows n0 k t b (n(p \<mapsto> Dir))"
  using assms dir_update[of n p, OF assms(2,3)] by (auto simp: grows_def rooted_def)

definition dir_closed :: "(nodes \<Rightarrow> bool) \<Rightarrow> bool" where
  "dir_closed J =
     (\<forall>n p. J n \<longrightarrow> n p = None \<longrightarrow> (\<forall>j. p \<noteq> metadataPath j) \<longrightarrow> p = [] \<or> n [] = Some Dir \<longrightarrow> J (n(p \<mapsto> Dir)))"

lemma make_dir_keeps:
  assumes "dir_closed J" "J n" "make_dir p n = Some n'" "p = [] \<or> n [] = Some Dir" "\<forall>j. p \<noteq> metadataPath j"
  shows "J n' \<and> n' [] = Some Dir"
proof (cases "n p")
  case None
  then have "n' = n(p \<mapsto> Dir)" using assms(3) by (simp add: make_dir_def)
  then show ?thesis using assms None unfolding dir_closed_def by auto
next
  case (Some x)
  then show ?thesis using assms(2-4) by (cases x) (auto simp: make_dir_def)
qed

lemma mkdir_all_keeps:
  assumes J: "dir_closed J"
  shows "J n \<Longrightarrow> d = [] \<or> n [] = Some Dir \<Longrightarrow> \<forall>i \<le> length rest. \<forall>j. d @ take i rest \<noteq> metadataPath j
    \<Longrightarrow> J (snd (mkdir_all d rest n)) \<and> (fst (mkdir_all d rest n) = Inr () \<longrightarrow> snd (mkdir_all d rest n) [] = Some Dir)"
proof (induction d rest n rule: mkdir_all.induct)
  case (1 d n)
  then have "\<forall>j. d \<noteq> metadataPath j" by simp
  then show ?case using make_dir_keeps[OF J "1.prems"(1) _ "1.prems"(2)] "1.prems"(1) by (auto split: option.splits)
next
  case (2 d p ps n)
  have d: "\<forall>j. d \<noteq> metadataPath j" using "2.prems"(3) by (metis append_Nil2 le0 take0)
  have ps: "\<forall>i \<le> length ps. \<forall>j. (d @ [p]) @ take i ps \<noteq> metadataPath j"
  proof (intro allI impI)
    fix i j assume "i \<le> length ps"
    then show "(d @ [p]) @ take i ps \<noteq> metadataPath j" using "2.prems"(3)[rule_format, of "Suc i" j] by simp
  qed
  show ?case
  proof (cases "make_dir d n")
    case (Some n')
    then have "J n'" "n' [] = Some Dir" using make_dir_keeps[OF J "2.prems"(1) Some "2.prems"(2) d] by auto
    then show ?thesis using "2.IH"[OF Some _ _ ps] Some by simp
  qed (use "2.prems"(1) in simp)
qed

lemma mkdir_ok:
  assumes J: "dir_closed (\<lambda>n. I n \<and> P n)" and m: "\<forall>i \<le> length p. \<forall>j. take i p \<noteq> metadataPath j"
  shows "fs_ok I P (os_MkdirAll p) (\<lambda>_ n. P n \<and> n [] = Some Dir)"
  unfolding os_MkdirAll_def
proof (rule fs_ok_op)
  fix n assume "I n" "P n"
  then have "I n \<and> P n" by simp
  from mkdir_all_keeps[where J = "\<lambda>n. I n \<and> P n", OF J this, of "[]" p] m
  show "I (snd (mkdir_all [] p n)) \<and> (\<forall>x. fst (mkdir_all [] p n) = Inr x \<longrightarrow> P (snd (mkdir_all [] p n)) \<and> snd (mkdir_all [] p n) [] = Some Dir)"
    by simp
qed

lemma grows_dir_closed: "dir_closed (grows n0 k t b)"
  unfolding dir_closed_def using grows_dir by blast

lemma dir_closed_file: "dir_closed I \<Longrightarrow> dir_closed (\<lambda>n. I n \<and> (n q = Some (File b)))"
  unfolding dir_closed_def by auto

text \<open>Removing a scratch file.\<close>

lemma remove_ok:
  assumes "\<And>n c. I n \<Longrightarrow> n p = Some (File c) \<Longrightarrow> I (n(p := None))" "\<And>n. P n \<Longrightarrow> P (n(p := None))"
  shows "fs_ok I P (os_Remove p) (\<lambda>_. P)"
  unfolding os_Remove_def by (rule fs_ok_op) (use assms in \<open>auto split: option.split node.split\<close>)

lemma grows_remove: "grows n0 k t b n \<Longrightarrow> scratch p \<Longrightarrow> n p = Some (File c) \<Longrightarrow> grows n0 k t b (n(p := None))"
  by (rule grows_scratch[of n0 k t b n p p]) (auto simp: grows_def rooted_def)

lemma grows_write: "grows n0 k t b n \<Longrightarrow> scratch p \<Longrightarrow> n (butlast p) = Some Dir \<Longrightarrow> n p \<noteq> Some Dir \<Longrightarrow> grows n0 k t b (n(p \<mapsto> File c))"
  by (rule grows_scratch[of n0 k t b n p "butlast p"]) auto

text \<open>While the body waits under its temporary name.\<close>

definition staged :: "nodes \<Rightarrow> string \<Rightarrow> string \<Rightarrow> bytes \<Rightarrow> path \<Rightarrow> nodes \<Rightarrow> bool" where
  "staged n0 k t b tb n = (grows n0 k t b n \<and> n tb = Some (File b))"

lemma staged_dir_closed: "dir_closed (staged n0 k t b tb)"
  using dir_closed_file[OF grows_dir_closed, of n0 k t b tb b] by (simp add: staged_def[abs_def])

definition recorded :: "string \<Rightarrow> string \<Rightarrow> nodes \<Rightarrow> bool" where
  "recorded k t n = (n (metadataPath k) = Some (File (encode_metadata t)))"

lemma link_metadata_ok:
  assumes "plain_type t" "tb \<noteq> metadataPath k"
  shows "fs_ok (staged n0 k t b tb) (\<lambda>n. n tm = Some (File (encode_metadata t)))
    (\<lambda>s. case os_Link tm (metadataPath k) s of
          (Inl OsExist, s') \<Rightarrow> (Inr False, s')
        | (Inl _, s') \<Rightarrow> (Inl StoreFault, s')
        | (Inr _, s') \<Rightarrow> (Inr True, s'))
    (\<lambda>i n. n (metadataPath k) \<noteq> None \<and> (i \<longrightarrow> recorded k t n))"
proof -
  have "staged n0 k t b tb (n(metadataPath k \<mapsto> File (encode_metadata t)))"
    if "staged n0 k t b tb n" "n (metadataPath k) = None" for n
  proof -
    have g: "grows n0 k t b n" "nodes_inv n" "n tb = Some (File b)" "rooted n" using that by (auto simp: staged_def grows_def)
    have "rooted (n(metadataPath k \<mapsto> File (encode_metadata t)))"
      using rooted_update[OF g(4), of tb "metadataPath k" "Some (File (encode_metadata t))"] g(3) by (simp add: metadataPath_def)
    moreover have "local_key j \<Longrightarrow> held (n(metadataPath k \<mapsto> File (encode_metadata t))) j = held n j" for j
      by (rule metadata_update(1)[OF g(2) that(2) assms(1)])
    ultimately show ?thesis
      using g metadata_update(2)[OF g(2) that(2) assms(1)] assms(2) by (auto simp: staged_def grows_def)
  qed
  then show ?thesis
    by (auto simp: fs_ok_def os_Link_def disk_op_def Let_def recorded_def split: if_splits)
qed

lemma metadata_absent_ok:
  assumes t: "plain_type t" and tb: "hd tb \<noteq> localMetadataDirName" "tb \<noteq> []"
  shows "fs_ok (staged n0 k t b tb) (\<lambda>_. True) (writeMetadataIfAbsent k t)
    (\<lambda>i n. n (metadataPath k) \<noteq> None \<and> (i \<longrightarrow> recorded k t n))"
proof -
  let ?I = "staged n0 k t b tb"
  have mkdir: "fs_ok ?I (\<lambda>_. True) (os_MkdirAll [localMetadataDirName]) (\<lambda>_ _. True)"
    by (rule fs_ok_conseq[OF mkdir_ok[of ?I "\<lambda>_. True"]])
      (use staged_dir_closed in \<open>auto simp: metadataPath_def take_Suc_conv_app_nth le_Suc_eq\<close>)
  have ne: "tb \<noteq> temp_metadata k u" "tb \<noteq> metadataPath k" for u using tb by (auto simp: temp_metadata_def metadataPath_def)
  have written: "fs_ok ?I (\<lambda>_. True) (os_WriteFile (temp_metadata k u) (encode_metadata t))
      (\<lambda>_ n. n (temp_metadata k u) = Some (File (encode_metadata t)))" for u
    by (rule fs_ok_write) (use ne temp_metadata_scratch in \<open>auto simp: staged_def intro: grows_write\<close>)
  have gone: "staged n0 k t b tb (n(temp_metadata k u := None))" if "staged n0 k t b tb n" "n (temp_metadata k u) = Some (File c)" for n c u
    using that ne(1)[of u] grows_remove[OF _ temp_metadata_scratch] by (auto simp: staged_def)
  have other: "metadataPath k \<noteq> temp_metadata k u" for u using temp_metadata_scratch[of k u] unfolding scratch_def by metis
  have fin: "fs_ok ?I (\<lambda>n. n (temp_metadata k u) = Some (File (encode_metadata t)))
      (fs_finally (\<lambda>s. case os_Link (temp_metadata k u) (metadataPath k) s of
          (Inl OsExist, s') \<Rightarrow> (Inr False, s')
        | (Inl _, s') \<Rightarrow> (Inl StoreFault, s')
        | (Inr _, s') \<Rightarrow> (Inr True, s')) (os_Remove (temp_metadata k u)))
      (\<lambda>i n. n (metadataPath k) \<noteq> None \<and> (i \<longrightarrow> recorded k t n))" for u
  proof (rule fs_ok_finally[OF link_metadata_ok[OF t ne(2)]])
    show "fs_ok ?I (\<lambda>_. True) (os_Remove (temp_metadata k u)) (\<lambda>_ _. True)"
      by (rule remove_ok) (auto intro: gone)
    show "dk_nodes (snd (os_Remove (temp_metadata k u) s)) (metadataPath k) \<noteq> None \<and>
        (x \<longrightarrow> recorded k t (dk_nodes (snd (os_Remove (temp_metadata k u) s))))"
      if "dk_nodes s (metadataPath k) \<noteq> None \<and> (x \<longrightarrow> recorded k t (dk_nodes s))" for x s
      using that other[of u] by (auto simp: os_Remove_def disk_op_def Let_def recorded_def split: option.splits node.splits)
  qed
  show ?thesis
    unfolding writeMetadataIfAbsent_def
    by (rule fs_ok_bind[OF fs_ok_call[OF mkdir]], rule fs_ok_bind[OF fs_ok_ctx(2)], rule fs_ok_bind[OF fs_ok_call[OF written]], rule fin)
qed

lemma recorded_plain: "nodes_inv n \<Longrightarrow> n (metadataPath k) \<noteq> None \<Longrightarrow> \<exists>t. plain_type t \<and> recorded k t n"
  unfolding nodes_inv_def recorded_def by metis

lemma read_type: "recorded k t n \<Longrightarrow> plain_type t \<Longrightarrow> dk_nodes s = n \<Longrightarrow>
    fst (readContentType k s) = Inr t' \<Longrightarrow> t' = t"
  by (auto simp: readContentType_def os_ReadFile_def disk_op_def Let_def recorded_def decode_encode split: if_splits)

lemma read_type_quiet: "dk_nodes (snd (readContentType k s)) = dk_nodes s"
  "dk_past (snd (readContentType k s)) = dk_past s @ [dk_nodes s]"
  by (auto simp: readContentType_def os_ReadFile_def disk_op_def Let_def split: if_splits option.splits node.splits)

lemma read_type_ok:
  assumes "\<And>n. I n \<Longrightarrow> nodes_inv n"
  shows "fs_ok I (\<lambda>n. n (metadataPath k) \<noteq> None) (readContentType k) (\<lambda>t n. recorded k t n)"
  unfolding fs_ok_def
proof (intro allI impI conjI)
  fix s :: disk and x assume i: "I (dk_nodes s)" "dk_nodes s (metadataPath k) \<noteq> None"
  show "I (dk_nodes (snd (readContentType k s)))" using i by (simp add: read_type_quiet)
  show "\<exists>ps. dk_past (snd (readContentType k s)) = dk_past s @ ps \<and> (\<forall>n \<in> set ps. I n)" using i by (simp add: read_type_quiet)
  assume x: "fst (readContentType k s) = Inr x"
  obtain t where t: "plain_type t" "recorded k t (dk_nodes s)" using recorded_plain[OF assms[OF i(1)] i(2)] by blast
  then show "recorded k x (dk_nodes (snd (readContentType k s)))"
    using read_type[OF t(2,1) refl x] by (simp add: read_type_quiet)
qed

lemma install_ok:
  assumes k: "local_key k" and t: "plain_type t"
    and tb: "hd tb \<noteq> localMetadataDirName" "tb \<noteq> []"
  shows "fs_ok (staged n0 k t b tb) (\<lambda>_. True) (install_absent k t tb (split_on slash k))
    (\<lambda>_ n. held n k = Some (t, b) \<and> held n0 k = None)"
proof -
  let ?I = "staged n0 k t b tb"
  have type: "fs_ok ?I (\<lambda>n. n (metadataPath k) \<noteq> None \<and> (i \<longrightarrow> recorded k t n))
      (if i then fs_ret () else fs_bind (readContentType k) (\<lambda>t'. if t' \<noteq> t then fs_fail StoreExists else fs_ret ()))
      (\<lambda>_. recorded k t)" for i
  proof (rule fs_ok_if)
    assume i
    then show "fs_ok ?I (\<lambda>n. n (metadataPath k) \<noteq> None \<and> (i \<longrightarrow> recorded k t n)) (fs_ret ()) (\<lambda>_. recorded k t)"
      by (intro fs_ok_ret) simp
  next
    have read: "fs_ok ?I (\<lambda>n. n (metadataPath k) \<noteq> None \<and> (i \<longrightarrow> recorded k t n)) (readContentType k) (\<lambda>t n. recorded k t n)"
      by (rule fs_ok_conseq[OF read_type_ok[of ?I k]]) (auto simp: staged_def grows_def)
    show "fs_ok ?I (\<lambda>n. n (metadataPath k) \<noteq> None \<and> (i \<longrightarrow> recorded k t n))
        (fs_bind (readContentType k) (\<lambda>t'. if t' \<noteq> t then fs_fail StoreExists else fs_ret ())) (\<lambda>_. recorded k t)"
      by (rule fs_ok_bind[OF read]) (auto intro: fs_ok_fail fs_ok_ret)
  qed
  have link: "fs_ok ?I (recorded k t) (os_Link tb (split_on slash k)) (\<lambda>_ n. held n k = Some (t, b) \<and> held n0 k = None)"
    unfolding os_Link_def
  proof (rule fs_ok_op)
    fix n assume n: "?I n" "recorded k t n"
    then have g: "grows n0 k t b n" "nodes_inv n" "rooted n" and f: "n tb = Some (File b)" by (auto simp: staged_def grows_def)
    let ?n = "n(split_on slash k \<mapsto> File b)"
    have "?I ?n \<and> held ?n k = Some (t, b) \<and> held n0 k = None" if free: "n (split_on slash k) = None"
    proof -
      have m: "n (metadataPath k) = Some (File (encode_metadata t))" using n(2) by (simp add: recorded_def)
      note up = body_update(1)[OF g(2) k free m t, of b] body_update(2)[OF g(2) k free m t]
        body_update(3)[OF g(2) k free m t] body_update(4)[OF g(2) k free m t, of b]
      have "rooted ?n" by (rule rooted_update[OF g(3), of tb]) (use f in auto)
      moreover have "held n0 k = None" using g(1) up(2) k by (auto simp: grows_def)
      moreover have "?n tb = Some (File b)" using f by simp
      ultimately show ?thesis using up g(1) by (auto simp: staged_def grows_def)
    qed
    then show "?I (snd (case n tb of
           Some (File b) \<Rightarrow> if n (split_on slash k) \<noteq> None then (Inl OsExist, n)
             else if n (butlast (split_on slash k)) = Some Dir then (Inr (), n(split_on slash k \<mapsto> File b)) else (Inl OsNotExist, n)
         | _ \<Rightarrow> (Inl OsNotExist, n)))
      \<and> (\<forall>x. fst (case n tb of
           Some (File b) \<Rightarrow> if n (split_on slash k) \<noteq> None then (Inl OsExist, n)
             else if n (butlast (split_on slash k)) = Some Dir then (Inr (), n(split_on slash k \<mapsto> File b)) else (Inl OsNotExist, n)
         | _ \<Rightarrow> (Inl OsNotExist, n)) = Inr x \<longrightarrow> held (snd (case n tb of
           Some (File b) \<Rightarrow> if n (split_on slash k) \<noteq> None then (Inl OsExist, n)
             else if n (butlast (split_on slash k)) = Some Dir then (Inr (), n(split_on slash k \<mapsto> File b)) else (Inl OsNotExist, n)
         | _ \<Rightarrow> (Inl OsNotExist, n))) k = Some (t, b) \<and> held n0 k = None)"
      using f n by auto
  qed
  show ?thesis
    unfolding install_absent_def
    by (rule fs_ok_bind[OF metadata_absent_ok[OF t tb]], rule fs_ok_bind[OF type], rule fs_ok_call[OF link])
qed

lemma put_new_ok:
  assumes k: "local_key k" and t: "plain_type t"
  shows "fs_ok (grows n0 k t b) (\<lambda>_. True) (local_Put True k b t) (\<lambda>_ n. held n k = Some (t, b) \<and> held n0 k = None)"
proof -
  let ?G = "grows n0 k t b" and ?p = "split_on slash k"
  have mkdir: "fs_ok ?G (\<lambda>_. True) (os_MkdirAll q) (\<lambda>_ _. True)" if "\<forall>i \<le> length q. \<forall>j. take i q \<noteq> metadataPath j" for q
    by (rule fs_ok_conseq[OF mkdir_ok[of ?G "\<lambda>_. True"]]) (use that grows_dir_closed in auto)
  have parents: "\<forall>i \<le> length (butlast ?p). \<forall>j. take i (butlast ?p) \<noteq> metadataPath j"
  proof (intro allI impI notI)
    fix i j assume i: "take i (butlast ?p) = metadataPath j"
    then have "take i (butlast ?p) \<noteq> []" by (simp add: metadataPath_def)
    then have "hd (take i (butlast ?p)) = hd ?p" by (cases ?p; cases i) (auto split: if_splits)
    then show False using i k by (simp add: metadataPath_def local_key_def)
  qed
  have path: "fs_ok ?G (\<lambda>_. True) (pathForKey k) (\<lambda>x _. x = ?p)"
    unfolding pathForKey_def by (intro fs_ok_if fs_ok_fail fs_ok_ret) simp
  have rest: "fs_ok ?G (\<lambda>_. True) (fs_bind (os_call fault_of (os_WriteFile (temp_body ?p u) b)) (\<lambda>_.
         fs_bind (fs_cleanup (install_absent k t (temp_body ?p u) ?p) (os_Remove (temp_body ?p u))) (\<lambda>_.
         os_call fault_of (os_Remove (temp_body ?p u))))) (\<lambda>_ n. held n k = Some (t, b) \<and> held n0 k = None)" for u
  proof -
    let ?tb = "temp_body ?p u"
    note s = temp_body_scratch[OF k, of u]
    have staged: "fs_ok ?G (\<lambda>_. True) (os_WriteFile ?tb b) (\<lambda>_ n. n ?tb = Some (File b))"
      by (rule fs_ok_write) (use s(1) in \<open>auto intro: grows_write\<close>)
    have gone: "fs_ok ?G P (os_Remove ?tb) (\<lambda>_. P)" if "\<And>n. P n \<Longrightarrow> P (n(?tb := None))" for P
      by (rule remove_ok) (use grows_remove[OF _ s(1)] that in auto)
    have "?tb \<noteq> []" by (simp add: temp_body_def)
    from install_ok[OF k t s(2) this, of n0 b]
    have install: "fs_ok ?G (\<lambda>n. n ?tb = Some (File b)) (install_absent k t ?tb ?p) (\<lambda>_ n. n ?tb = Some (File b) \<and> held n k = Some (t, b) \<and> held n0 k = None)"
      by (intro fs_ok_strengthen[where P = "\<lambda>_. True" and T = "\<lambda>n. n ?tb = Some (File b)"]) (simp_all add: staged_def[abs_def])
    have keep: "held n k = Some (t, b) \<Longrightarrow> held (n(?tb := None)) k = Some (t, b)" for n using scratch_update(1)[OF s(1) k] by simp
    show ?thesis
      by (rule fs_ok_bind[OF fs_ok_call[OF staged]], rule fs_ok_bind[OF fs_ok_cleanup[OF install gone]], simp,
          rule fs_ok_conseq[OF fs_ok_call[OF gone[of "\<lambda>n. held n k = Some (t, b) \<and> held n0 k = None"]]]) (auto intro: keep)
  qed
  have t': "defaultContentType t = t" using t by simp
  show ?thesis
    unfolding local_Put_def Let_def t' if_True
  proof (rule fs_ok_bind[OF fs_ok_ctx(1)], rule fs_ok_if[OF fs_ok_fail], rule fs_ok_bind[OF fs_ok_call[OF mkdir]], simp add: metadataPath_def,
      rule fs_ok_bind[OF path])
    fix target
    show "fs_ok ?G (\<lambda>_. target = ?p) (fs_bind (os_call fault_of (os_MkdirAll (butlast target))) (\<lambda>_. fs_bind (fs_pure new_uuid)
        (\<lambda>u. fs_bind (os_call fault_of (os_WriteFile (temp_body target u) b)) (\<lambda>_.
         fs_bind (fs_cleanup (install_absent k t (temp_body target u) target) (os_Remove (temp_body target u))) (\<lambda>_.
         os_call fault_of (os_Remove (temp_body target u))))))) (\<lambda>_ n. held n k = Some (t, b) \<and> held n0 k = None)"
    proof (rule fs_ok_fact[where C = "target = ?p"])
      assume eq: "target = ?p"
      show ?thesis
        unfolding eq
        by (rule fs_ok_conseq[where P = "\<lambda>_. True"], rule fs_ok_bind[OF fs_ok_call[OF mkdir[OF parents]]],
            rule fs_ok_bind[OF fs_ok_ctx(2)], rule rest) auto
    qed simp
  qed
qed

section \<open>Reads\<close>

definition disk_inv :: "disk \<Rightarrow> bool" where
  "disk_inv s = (nodes_inv (dk_nodes s) \<and> rooted (dk_nodes s))"

definition on_disk :: "disk \<Rightarrow> string \<Rightarrow> (string \<times> bytes) option" where
  "on_disk s = held (dk_nodes s)"

lemma get_quiet: "dk_nodes (snd (local_Get k s)) = dk_nodes s"
  by (simp add: local_Get_def fs_bind_def fs_pure_def ctx_ended_def fs_fail_def open_root_def pathForKey_def fs_ret_def
      os_call_def os_ReadFile_def disk_op_def Let_def split: prod.split sum.split option.split node.split)
    (auto dest!: arg_cong[where f = "\<lambda>x. dk_nodes (snd x)"] simp: read_type_quiet)

lemma read_file_cases:
  "fst (os_ReadFile p s) = Inr b \<Longrightarrow> dk_nodes s p = Some (File b)"
  "fst (os_ReadFile p s) = Inl OsNotExist \<Longrightarrow> dk_nodes s p = None"
  "dk_nodes (snd (os_ReadFile p s)) = dk_nodes s"
  by (auto simp: os_ReadFile_def disk_op_def Let_def split: if_splits option.splits node.splits)

lemma read_type_missing: "fst (readContentType k s) \<noteq> Inl StoreNotFound"
  by (auto simp: readContentType_def split: prod.splits sum.splits os_error.splits option.splits)

lemma get_ok_held:
  assumes "disk_inv s" "local_key k" "fst (local_Get k s) = Inr obj"
  shows "on_disk s k = Some obj"
proof -
  define s1 where "s1 = s\<lparr>dk_ended := tl (dk_ended s)\<rparr>"
  obtain b t where b: "fst (os_ReadFile (split_on slash k) s1) = Inr b"
    and t: "fst (readContentType k (snd (os_ReadFile (split_on slash k) s1))) = Inr t" and obj: "obj = (t, b)"
    using assms(3)
    by (auto simp: local_Get_def fs_bind_def fs_pure_def ctx_ended_def fs_fail_def open_root_def pathForKey_def fs_ret_def
        os_call_def s1_def split: prod.splits sum.splits option.splits node.splits if_splits)
  have n: "dk_nodes s (split_on slash k) = Some (File b)" using read_file_cases(1)[OF b] by (simp add: s1_def)
  then have "dk_nodes s (metadataPath k) \<noteq> None" using assms(1,2) by (auto simp: disk_inv_def nodes_inv_def)
  then obtain t' where t': "plain_type t'" "recorded k t' (dk_nodes s)" using recorded_plain assms(1) by (auto simp: disk_inv_def)
  have "dk_nodes (snd (os_ReadFile (split_on slash k) s1)) = dk_nodes s" by (simp add: read_file_cases(3) s1_def)
  from read_type[OF t'(2,1) this t] have "t = t'" .
  then show ?thesis using n t' obj by (simp add: on_disk_def held_def type_on_def recorded_def decode_encode)
qed

lemma get_missing_held:
  assumes "disk_inv s" "fst (local_Get k s) = Inl StoreNotFound"
  shows "on_disk s k = None"
proof -
  define s1 where "s1 = s\<lparr>dk_ended := tl (dk_ended s)\<rparr>"
  have "dk_nodes s [] = None \<or> fst (os_ReadFile (split_on slash k) s1) = Inl OsNotExist"
    using assms(2) read_type_missing
    by (auto simp: local_Get_def fs_bind_def fs_pure_def ctx_ended_def fs_fail_def open_root_def pathForKey_def fs_ret_def
        os_call_def missing_or_fault_def s1_def split: prod.splits sum.splits option.splits node.splits if_splits) (metis fst_conv)
  then have "dk_nodes s (split_on slash k) = None"
    using assms(1) read_file_cases(2)[of "split_on slash k" s1] by (auto simp: disk_inv_def rooted_def s1_def)
  then show ?thesis by (simp add: on_disk_def held_def)
qed

lemma open_quiet: "dk_nodes (snd (local_Open k s)) = dk_nodes s"
  by (simp add: local_Open_def fs_bind_def fs_pure_def ctx_ended_def fs_fail_def open_root_def pathForKey_def fs_ret_def
      os_call_def os_Open_def os_FileStat_def disk_op_def Let_def split: prod.split sum.split option.split node.split)
    (auto dest!: arg_cong[where f = "\<lambda>x. dk_nodes (snd x)"] simp: read_type_quiet)

lemma open_cases:
  "fst (os_Open p s) = Inr x \<Longrightarrow> dk_nodes s p = Some x"
  "fst (os_Open p s) = Inl OsNotExist \<Longrightarrow> dk_nodes s p = None"
  "dk_nodes (snd (os_Open p s)) = dk_nodes s" "dk_nodes (snd (os_FileStat s)) = dk_nodes s"
  by (auto simp: os_Open_def os_FileStat_def disk_op_def Let_def split: if_splits option.splits)

lemma typed_held:
  assumes "disk_inv s" "local_key k" "dk_nodes s (split_on slash k) = Some (File b)" "dk_nodes s' = dk_nodes s"
    and "fst (readContentType k s') = Inr t"
  shows "on_disk s k = Some (t, b)"
proof -
  have "dk_nodes s (metadataPath k) \<noteq> None" using assms(1-3) by (auto simp: disk_inv_def nodes_inv_def)
  then obtain t' where t': "plain_type t'" "recorded k t' (dk_nodes s)" using recorded_plain assms(1) by (auto simp: disk_inv_def)
  from read_type[OF t'(2,1) assms(4,5)] have "t = t'" .
  then show ?thesis using assms(3) t' by (simp add: on_disk_def held_def type_on_def recorded_def decode_encode)
qed

lemma open_ok_held:
  assumes "disk_inv s" "local_key k" "fst (local_Open k s) = Inr obj"
  shows "on_disk s k = Some obj"
proof -
  define s1 where "s1 = s\<lparr>dk_ended := tl (dk_ended s)\<rparr>"
  obtain b t s2 where b: "fst (os_Open (split_on slash k) s1) = Inr (File b)" and s2: "s2 = snd (os_FileStat (snd (os_Open (split_on slash k) s1)))"
    and t: "fst (readContentType k s2) = Inr t" and obj: "obj = (t, b)"
    using assms(3)
    by (auto simp: local_Open_def fs_bind_def fs_pure_def ctx_ended_def fs_fail_def open_root_def pathForKey_def fs_ret_def
        os_call_def s1_def split: prod.splits sum.splits option.splits node.splits if_splits)
  have "dk_nodes s (split_on slash k) = Some (File b)" "dk_nodes s2 = dk_nodes s"
    using open_cases(1)[OF b] by (simp_all add: s2 open_cases(3,4)) (simp_all add: s1_def)
  from typed_held[OF assms(1,2) this t] show ?thesis using obj by simp
qed

lemma open_missing_held:
  assumes "disk_inv s" "fst (local_Open k s) = Inl StoreNotFound"
  shows "on_disk s k = None"
proof -
  define s1 where "s1 = s\<lparr>dk_ended := tl (dk_ended s)\<rparr>"
  have "dk_nodes s [] = None \<or> fst (os_Open (split_on slash k) s1) = Inl OsNotExist"
    using assms(2) read_type_missing
    by (auto simp: local_Open_def fs_bind_def fs_pure_def ctx_ended_def fs_fail_def open_root_def pathForKey_def fs_ret_def
        os_call_def missing_or_fault_def s1_def split: prod.splits sum.splits option.splits node.splits if_splits) (metis fst_conv)
  then have "dk_nodes s (split_on slash k) = None"
    using assms(1) open_cases(2)[of "split_on slash k" s1] by (auto simp: disk_inv_def rooted_def s1_def)
  then show ?thesis by (simp add: on_disk_def held_def)
qed

lemma grows_start: "disk_inv s \<Longrightarrow> grows (dk_nodes s) k t b (dk_nodes s)"
  by (simp add: disk_inv_def grows_def)

lemma put_store: "snd (ds_put_new local_store k b t s) = snd (local_Put True k b t s)"
  "fst (ds_put_new local_store k b t s) = None \<longleftrightarrow> fst (local_Put True k b t s) = Inr ()"
  by (auto simp: local_store_def split: prod.split sum.split)

lemma put_grows:
  assumes "disk_inv s" "local_key k" "plain_type t"
  shows "grows (dk_nodes s) k t b (dk_nodes (snd (local_Put True k b t s)))"
    "\<exists>ps. dk_past (snd (local_Put True k b t s)) = dk_past s @ ps \<and> (\<forall>n \<in> set ps. grows (dk_nodes s) k t b n)"
    "fst (local_Put True k b t s) = Inr () \<Longrightarrow> held (dk_nodes (snd (local_Put True k b t s))) k = Some (t, b) \<and> held (dk_nodes s) k = None"
  using fs_okD[OF put_new_ok[OF assms(2,3)] grows_start[OF assms(1)] TrueI] by auto

interpretation local_objects: immutable_store local_store disk_inv local_key plain_type on_disk
proof
  show "disk_inv (snd (ds_put_new local_store k b t s))" if "disk_inv s" "local_key k" "plain_type t" for s k t b
    using put_grows(1)[OF that, of b] by (simp add: put_store grows_def disk_inv_def)
  show "on_disk (snd (ds_put_new local_store k b t s)) j = on_disk s j
        \<or> j = k \<and> on_disk s k = None \<and> on_disk (snd (ds_put_new local_store k b t s)) k = Some (t, b)"
    if "disk_inv s" "local_key k" "plain_type t" "local_key j" for s k t j b
    using put_grows(1)[OF that(1-3), of b] that(4) by (simp add: put_store grows_def on_disk_def)
  show "on_disk (snd (ds_put_new local_store k b t s)) k = Some (t, b) \<and> on_disk s k = None"
    if "disk_inv s" "local_key k" "plain_type t" "fst (ds_put_new local_store k b t s) = None" for s k t b
    using put_grows(3)[OF that(1-3), of b] that(4) by (simp add: put_store on_disk_def)
  show "on_disk (snd (ds_get local_store k s)) = on_disk s" for k s
    by (simp add: local_store_def on_disk_def get_quiet)
  show "disk_inv (snd (ds_get local_store k s))" if "disk_inv s" for s k
    using that by (simp add: local_store_def disk_inv_def get_quiet)
  show "on_disk s k = Some obj" if "disk_inv s" "local_key k" "fst (ds_get local_store k s) = Inr obj" for s k obj
    using get_ok_held that by (simp add: local_store_def)
  show "on_disk s k = None" if "disk_inv s" "fst (ds_get local_store k s) = Inl StoreNotFound" for s k
    using get_missing_held that by (simp add: local_store_def)
  show "on_disk (snd (ds_open local_store k s)) = on_disk s" for k s
    by (simp add: local_store_def on_disk_def open_quiet)
  show "disk_inv (snd (ds_open local_store k s))" if "disk_inv s" for s k
    using that by (simp add: local_store_def disk_inv_def open_quiet)
  show "on_disk s k = Some obj" if "disk_inv s" "local_key k" "fst (ds_open local_store k s) = Inr obj" for s k obj
    using open_ok_held that by (simp add: local_store_def)
  show "on_disk s k = None" if "disk_inv s" "fst (ds_open local_store k s) = Inl StoreNotFound" for s k
    using open_missing_held that by (simp add: local_store_def)
qed

text \<open>No more faults and no end of the caller's context.\<close>

definition calm_disk :: "disk \<Rightarrow> bool" where
  "calm_disk s = (dk_faults s = [] \<and> dk_ended s = [])"

lemma calm_read:
  assumes "calm_disk s"
  shows "dk_nodes s p = Some (File b) \<Longrightarrow> fst (os_ReadFile p s) = Inr b" "calm_disk (snd (os_ReadFile p s))"
  using assms by (simp_all add: calm_disk_def os_ReadFile_def disk_op_def hd_or_def)

lemma calm_type:
  assumes "calm_disk s" "recorded k t (dk_nodes s)" "plain_type t"
  shows "fst (readContentType k s) = Inr t" "calm_disk (snd (readContentType k s))"
  using assms calm_read[OF assms(1), of "metadataPath k"]
  by (auto simp: readContentType_def recorded_def decode_encode split: prod.split)

lemma calm_any_type: "calm_disk s \<Longrightarrow> calm_disk (snd (readContentType k s))"
  using calm_read(2)[of s "metadataPath k"] by (auto simp: readContentType_def split: prod.split sum.split os_error.split option.split)

lemma calm_open:
  assumes "calm_disk s"
  shows "dk_nodes s p = Some x \<Longrightarrow> fst (os_Open p s) = Inr x" "calm_disk (snd (os_Open p s))"
    "fst (os_FileStat s) = Inr ()" "calm_disk (snd (os_FileStat s))"
  using assms by (simp_all add: calm_disk_def os_Open_def os_FileStat_def disk_op_def hd_or_def)

lemma held_parts:
  assumes "disk_inv s" "local_key k" "on_disk s k = Some obj"
  obtains b t where "obj = (t, b)" "dk_nodes s (split_on slash k) = Some (File b)" "dk_nodes s [] = Some Dir" "recorded k t (dk_nodes s)" "plain_type t"
proof -
  obtain b t where b: "dk_nodes s (split_on slash k) = Some (File b)" and t: "type_on (dk_nodes s) k = Some t" and obj: "obj = (t, b)"
    using assms(3) by (auto simp: on_disk_def held_def split: option.splits node.splits)
  have "dk_nodes s [] = Some Dir" using assms(1) b by (auto simp: disk_inv_def rooted_def)
  moreover have "dk_nodes s (metadataPath k) \<noteq> None" using assms(1,2) b by (auto simp: disk_inv_def nodes_inv_def)
  then obtain t' where t': "plain_type t'" "recorded k t' (dk_nodes s)" using recorded_plain assms(1) by (auto simp: disk_inv_def)
  ultimately show ?thesis using that[of t b] b t obj by (simp add: type_on_def recorded_def decode_encode)
qed

lemmas fs_steps = fs_bind_def fs_pure_def fs_fail_def open_root_def fs_ret_def os_call_def

lemma calm_start:
  assumes "local_key k" "calm_disk s"
  shows "ctx_ended s = (False, s)" "pathForKey k = fs_ret (split_on slash k)"
  using assms by (simp_all add: ctx_ended_def calm_disk_def hd_or_def pathForKey_def local_key_def)

lemma get_live_local:
  assumes "disk_inv s" "local_key k" "calm_disk s"
  shows "on_disk s k = Some obj \<Longrightarrow> fst (local_Get k s) = Inr obj" "calm_disk (snd (local_Get k s))"
proof -
  note start = calm_start[OF assms(2,3)]
  let ?r = "os_ReadFile (split_on slash k) s"
  have calm: "calm_disk (snd ?r)" by (rule calm_read(2)[OF assms(3)])
  show "calm_disk (snd (local_Get k s))"
    using assms(3) calm calm_any_type[OF calm, of k]
    by (auto simp: local_Get_def fs_steps start split: prod.split sum.split option.split node.split)
  assume "on_disk s k = Some obj"
  then obtain b t where p: "obj = (t, b)" "dk_nodes s (split_on slash k) = Some (File b)" "dk_nodes s [] = Some Dir"
    "recorded k t (dk_nodes s)" "plain_type t" by (rule held_parts[OF assms(1,2)])
  have "fst (readContentType k (snd ?r)) = Inr t" using calm_type(1)[OF calm] p by (simp add: read_file_cases(3))
  then show "fst (local_Get k s) = Inr obj"
    using calm_read(1)[OF assms(3) p(2)] p by (auto simp: local_Get_def fs_steps start split: prod.split sum.split)
qed

lemma open_live_local:
  assumes "disk_inv s" "local_key k" "calm_disk s"
  shows "on_disk s k = Some obj \<Longrightarrow> fst (local_Open k s) = Inr obj" "calm_disk (snd (local_Open k s))"
proof -
  note start = calm_start[OF assms(2,3)]
  let ?r = "os_Open (split_on slash k) s"
  let ?q = "os_FileStat (snd ?r)"
  note calm = calm_open(2)[OF assms(3), of "split_on slash k"]
  note calm' = calm_open(3,4)[OF calm]
  show "calm_disk (snd (local_Open k s))"
    using assms(3) calm calm' calm_any_type[OF calm'(2), of k]
    by (auto simp: local_Open_def fs_steps start split: prod.split sum.split option.split node.split)
  assume "on_disk s k = Some obj"
  then obtain b t where p: "obj = (t, b)" "dk_nodes s (split_on slash k) = Some (File b)" "dk_nodes s [] = Some Dir"
    "recorded k t (dk_nodes s)" "plain_type t" by (rule held_parts[OF assms(1,2)])
  have "fst (readContentType k (snd ?q)) = Inr t" using calm_type(1)[OF calm'(2)] p by (simp add: open_cases(3,4))
  then show "fst (local_Open k s) = Inr obj"
    using calm_open(1)[OF assms(3) p(2)] calm'(1) p by (auto simp: local_Open_def fs_steps start split: prod.split sum.split)
qed

interpretation local: live_store local_store disk_inv local_key plain_type on_disk calm_disk
proof
  show "fst (ds_get local_store k s) = Inr obj" if "disk_inv s" "local_key k" "calm_disk s" "on_disk s k = Some obj" for s k obj
    using get_live_local(1)[OF that] by (simp add: local_store_def)
  show "calm_disk (snd (ds_get local_store k s))" if "disk_inv s" "local_key k" "calm_disk s" for s k
    using get_live_local(2)[OF that] by (simp add: local_store_def)
  show "fst (ds_open local_store k s) = Inr obj" if "disk_inv s" "local_key k" "calm_disk s" "on_disk s k = Some obj" for s k obj
    using open_live_local(1)[OF that] by (simp add: local_store_def)
  show "calm_disk (snd (ds_open local_store k s))" if "disk_inv s" "local_key k" "calm_disk s" for s k
    using open_live_local(2)[OF that] by (simp add: local_store_def)
qed

section \<open>A conditional write on a calm disk\<close>

text \<open>The directories of a path, all present.\<close>

definition with_dirs :: "path \<Rightarrow> nodes \<Rightarrow> nodes" where
  "with_dirs ps n = (\<lambda>q. if \<exists>i \<le> length ps. q = take i ps then Some Dir else n q)"

definition way_free :: "path \<Rightarrow> nodes \<Rightarrow> bool" where
  "way_free ps n = (\<forall>i \<le> length ps. n (take i ps) \<in> {None, Some Dir})"

lemma mkdir_all_free:
  "\<forall>i \<le> length ps. n (d @ take i ps) \<in> {None, Some Dir} \<Longrightarrow>
    mkdir_all d ps n = (Inr (), \<lambda>q. if \<exists>i \<le> length ps. q = d @ take i ps then Some Dir else n q)"
proof (induction d ps n rule: mkdir_all.induct)
  case (1 d n)
  then have "n d = None \<or> n d = Some Dir" by auto
  then have "make_dir d n = Some (n(d \<mapsto> Dir))" by (auto simp: make_dir_def fun_upd_idem)
  then show ?case by (auto simp: fun_eq_iff)
next
  case (2 d p ps n)
  have "n d = None \<or> n d = Some Dir" using "2.prems" by (metis append_Nil2 empty_iff insert_iff le0 take0)
  then have m: "make_dir d n = Some (n(d \<mapsto> Dir))" by (auto simp: make_dir_def fun_upd_idem)
  have "\<forall>i \<le> length ps. (n(d \<mapsto> Dir)) ((d @ [p]) @ take i ps) \<in> {None, Some Dir}"
  proof (intro allI impI)
    fix i assume "i \<le> length ps"
    then show "(n(d \<mapsto> Dir)) ((d @ [p]) @ take i ps) \<in> {None, Some Dir}" using "2.prems"[rule_format, of "Suc i"] by simp
  qed
  from "2.IH"[OF m this] have ih: "mkdir_all (d @ [p]) ps (n(d \<mapsto> Dir))
    = (Inr (), \<lambda>q. if \<exists>i \<le> length ps. q = (d @ [p]) @ take i ps then Some Dir else (n(d \<mapsto> Dir)) q)" .
  have "(\<exists>i \<le> length (p # ps). q = d @ take i (p # ps)) \<longleftrightarrow> q = d \<or> (\<exists>i \<le> length ps. q = (d @ [p]) @ take i ps)" for q
  proof
    assume "\<exists>i \<le> length (p # ps). q = d @ take i (p # ps)"
    then obtain i where "i \<le> length (p # ps)" "q = d @ take i (p # ps)" by blast
    then show "q = d \<or> (\<exists>i \<le> length ps. q = (d @ [p]) @ take i ps)" by (cases i) auto
  next
    assume "q = d \<or> (\<exists>i \<le> length ps. q = (d @ [p]) @ take i ps)"
    then show "\<exists>i \<le> length (p # ps). q = d @ take i (p # ps)"
    proof
      assume "q = d" then show ?thesis by (intro exI[of _ 0]) simp
    next
      assume "\<exists>i \<le> length ps. q = (d @ [p]) @ take i ps"
      then obtain i where "i \<le> length ps" "q = (d @ [p]) @ take i ps" by blast
      then show ?thesis by (intro exI[of _ "Suc i"]) simp
    qed
  qed
  then show ?case by (simp only: mkdir_all.simps m option.case ih) (auto simp: fun_eq_iff)
qed

definition runs :: "(disk \<Rightarrow> ('e + 'a) \<times> disk) \<Rightarrow> nodes \<Rightarrow> 'a \<Rightarrow> nodes \<Rightarrow> bool" where
  "runs m n x n' = (\<forall>s. calm_disk s \<longrightarrow> dk_nodes s = n \<longrightarrow> (\<exists>s'. m s = (Inr x, s') \<and> calm_disk s' \<and> dk_nodes s' = n'))"

lemma runsD:
  assumes "runs m n x n'" "calm_disk s" "dk_nodes s = n"
  obtains s' where "m s = (Inr x, s')" "calm_disk s'" "dk_nodes s' = n'"
  using assms by (auto simp: runs_def)

lemma runs_bind: "runs m n x n1 \<Longrightarrow> runs (k x) n1 y n2 \<Longrightarrow> runs (fs_bind m k) n y n2"
  unfolding runs_def fs_bind_def by fastforce

lemma runs_ret: "runs (fs_ret x) n x n"
  by (simp add: runs_def fs_ret_def)

lemma runs_uuid: "(\<And>u. runs (k u) n y n') \<Longrightarrow> runs (fs_bind (fs_pure new_uuid) k) n y n'"
  unfolding runs_def fs_bind_def fs_pure_def new_uuid_def by (fastforce simp: calm_disk_def)

lemma runs_ctx: "runs (k False) n y n' \<Longrightarrow> runs (fs_bind (fs_pure ctx_ended) k) n y n'"
  unfolding runs_def fs_bind_def fs_pure_def ctx_ended_def by (fastforce simp: calm_disk_def hd_or_def)

lemma runs_call: "runs m n x n' \<Longrightarrow> runs (os_call h m) n x n'"
  unfolding runs_def os_call_def by fastforce

lemma runs_cleanup: "runs m n x n' \<Longrightarrow> runs (fs_cleanup m c) n x n'"
  unfolding runs_def fs_cleanup_def by fastforce

lemma runs_finally: "runs m n x n1 \<Longrightarrow> runs c n1 y n2 \<Longrightarrow> runs (fs_finally m c) n x n2"
  unfolding runs_def fs_finally_def by fastforce

lemma runs_op: "g n = (Inr x, n') \<Longrightarrow> runs (disk_op g) n x n'"
  by (auto simp: runs_def disk_op_def calm_disk_def hd_or_def)

lemma runs_mkdir: "way_free ps n \<Longrightarrow> runs (os_MkdirAll ps) n () (with_dirs ps n)"
  unfolding os_MkdirAll_def using mkdir_all_free[of ps n "[]"] by (intro runs_op) (simp add: way_free_def with_dirs_def)

lemma runs_write: "n (butlast p) = Some Dir \<Longrightarrow> n p \<noteq> Some Dir \<Longrightarrow> runs (os_WriteFile p b) n () (n(p \<mapsto> File b))"
  by (auto simp: runs_def os_WriteFile_def calm_disk_def hd_or_def)

lemma runs_link: "n old = Some (File b) \<Longrightarrow> n new = None \<Longrightarrow> n (butlast new) = Some Dir \<Longrightarrow> runs (os_Link old new) n () (n(new \<mapsto> File b))"
  unfolding os_Link_def by (rule runs_op) simp

lemma runs_remove: "n p = Some (File b) \<Longrightarrow> runs (os_Remove p) n () (n(p := None))"
  unfolding os_Remove_def by (rule runs_op) simp

lemma with_dirs_simps:
  "with_dirs ps n ps = Some Dir" "with_dirs ps n [] = Some Dir"
  "length ps < length q \<Longrightarrow> with_dirs ps n q = n q"
  "n q = None \<Longrightarrow> q \<notin> {take i ps | i. i \<le> length ps} \<Longrightarrow> with_dirs ps n q = None"
  by (auto simp: with_dirs_def intro: exI[of _ "length ps"] exI[of _ 0])

text \<open>No temporary name is taken.\<close>

definition no_temps :: "path \<Rightarrow> string \<Rightarrow> nodes \<Rightarrow> bool" where
  "no_temps target k n = ((\<forall>u. n (temp_body target u) = None) \<and> (\<forall>u. n (temp_metadata k u) = None))"

definition stored :: "string \<Rightarrow> string \<Rightarrow> bytes \<Rightarrow> nodes \<Rightarrow> nodes" where
  "stored k t b n = (with_dirs [localMetadataDirName] (with_dirs (butlast (split_on slash k)) n))
     (metadataPath k \<mapsto> File (encode_metadata t), split_on slash k \<mapsto> File b)"

definition room :: "string \<Rightarrow> nodes \<Rightarrow> bool" where
  "room k n = (n (split_on slash k) = None \<and> n (metadataPath k) = None \<and> no_temps (split_on slash k) k n
     \<and> way_free (butlast (split_on slash k)) n \<and> n [localMetadataDirName] \<in> {None, Some Dir})"

lemma with_dirs_single: "with_dirs [x] n = n([] \<mapsto> Dir, [x] \<mapsto> Dir)"
  by (auto simp: with_dirs_def fun_eq_iff le_Suc_eq)

lemma way_free_single: "way_free [x] n \<longleftrightarrow> n [] \<in> {None, Some Dir} \<and> n [x] \<in> {None, Some Dir}"
  by (auto simp: way_free_def le_Suc_eq)

lemma runs_metadata:
  assumes "n (metadataPath k) = None" "n (temp_metadata k u) = None" "n [] = Some Dir" "n [localMetadataDirName] \<in> {None, Some Dir}"
    and "\<And>u. n (temp_metadata k u) = None"
  shows "runs (writeMetadataIfAbsent k t) n True ((with_dirs [localMetadataDirName] n)(metadataPath k \<mapsto> File (encode_metadata t)))"
  unfolding writeMetadataIfAbsent_def
proof (rule runs_bind[OF runs_call[OF runs_mkdir]], goal_cases)
  case 1
  then show ?case using assms(3,4) by (simp add: way_free_single)
next
  case 2
  let ?n = "with_dirs [localMetadataDirName] n"
  show ?case
  proof (rule runs_uuid)
    fix u
    let ?tm = "temp_metadata k u"
    have tm: "?n ?tm = None" "?n (butlast ?tm) = Some Dir" "?tm \<noteq> metadataPath k"
      using assms(5)[of u] temp_metadata_scratch[of k u] by (auto simp: with_dirs_simps temp_metadata_def scratch_def)
    have mp: "?n (metadataPath k) = None" "?n (butlast (metadataPath k)) = Some Dir"
      using assms(1) by (auto simp: with_dirs_simps metadataPath_def)
    have parents: "butlast (metadataPath k) \<noteq> ?tm" by (simp add: metadataPath_def temp_metadata_def)
    have link: "runs (\<lambda>s. case os_Link ?tm (metadataPath k) s of
          (Inl OsExist, s') \<Rightarrow> (Inr False, s')
        | (Inl _, s') \<Rightarrow> (Inl StoreFault, s')
        | (Inr _, s') \<Rightarrow> (Inr True, s')) (?n(?tm \<mapsto> File m)) True (?n(?tm \<mapsto> File m, metadataPath k \<mapsto> File m))" for m
      using runs_link[of "?n(?tm \<mapsto> File m)" ?tm m "metadataPath k"] tm mp parents unfolding runs_def by fastforce
    have "runs (os_Remove ?tm) (?n(?tm \<mapsto> File m, metadataPath k \<mapsto> File m)) () (?n(metadataPath k \<mapsto> File m))" for m
      using runs_remove[of "?n(?tm \<mapsto> File m, metadataPath k \<mapsto> File m)" ?tm m] tm by (simp add: fun_upd_twist fun_upd_idem)
    then show "runs (fs_bind (os_call fault_of (os_WriteFile ?tm (encode_metadata t))) (\<lambda>_.
        fs_finally (\<lambda>s. case os_Link ?tm (metadataPath k) s of
          (Inl OsExist, s') \<Rightarrow> (Inr False, s')
        | (Inl _, s') \<Rightarrow> (Inl StoreFault, s')
        | (Inr _, s') \<Rightarrow> (Inr True, s')) (os_Remove ?tm))) ?n True (?n(metadataPath k \<mapsto> File (encode_metadata t)))"
      using runs_write[of ?n ?tm] tm link by (intro runs_bind[OF runs_call] runs_finally) auto
  qed
qed

lemma runs_put:
  assumes "local_key k" "plain_type t" "room k n"
  shows "runs (local_Put True k b t) n () (stored k t b n)"
proof -
  define target where "target = split_on slash k"
  note R = assms(3)[unfolded room_def no_temps_def, folded target_def]
  let ?n1 = "with_dirs (butlast target) n"
  have ne: "target \<noteq> []" by (simp add: target_def)
  then have len: "length (butlast target) < length target" by simp
  have root: "n [] \<in> {None, Some Dir}" using R by (auto simp: way_free_def)
  have twice: "with_dirs ps (with_dirs [] n) = with_dirs ps n" for ps by (auto simp: with_dirs_def fun_eq_iff)
  have free: "way_free [] n" "way_free (butlast target) (with_dirs [] n)" using R root by (auto simp: way_free_def with_dirs_def)
  have hd: "hd target \<noteq> localMetadataDirName" using assms(1) by (simp add: local_key_def target_def)
  have meta: "?n1 [localMetadataDirName] \<in> {None, Some Dir}"
    using R by (auto simp: with_dirs_def)
  have off: "take i (butlast target) \<noteq> localMetadataDirName # x" for i x
    using hd ne by (cases target; cases i) (auto split: if_splits)
  have md: "?n1 (metadataPath k) = None" "\<And>u. ?n1 (temp_metadata k u) = None"
    using R off by (auto simp: with_dirs_def metadataPath_def temp_metadata_def) (metis)+
  show ?thesis
    unfolding local_Put_def
  proof (rule runs_ctx, simp only: if_False Let_def default_plain[OF assms(2)],
      rule runs_bind[OF runs_call[OF runs_mkdir[OF free(1)]]],
      rule runs_bind[where x = target and ?n1.0 = "with_dirs [] n"], goal_cases)
    case 1
    then show ?case using assms(1) runs_ret by (simp add: pathForKey_def local_key_def target_def)
  next
    case 2
    show ?case
    proof (rule runs_bind[OF runs_call[OF runs_mkdir[OF free(2)]]], unfold twice, rule runs_uuid, goal_cases)
      case (1 u)
      let ?tb = "temp_body target u"
      have tb: "butlast ?tb = butlast target" "length ?tb = length target" "scratch ?tb" "hd ?tb \<noteq> localMetadataDirName"
        using temp_body_scratch[OF assms(1), of u] ne by (simp_all add: temp_body_def target_def)
      have tbn: "?n1 ?tb = None" "?n1 target = None" "?tb \<noteq> target" "?tb \<noteq> metadataPath k" "target \<noteq> metadataPath k"
        using R len tb(2,3) with_dirs_simps(3)[of "butlast target"] assms(1) metadata_not_key(1)[OF assms(1)]
        by (auto simp: target_def scratch_def)
      let ?n2 = "?n1(?tb \<mapsto> File b)"
      let ?n3 = "(with_dirs [localMetadataDirName] ?n2)(metadataPath k \<mapsto> File (encode_metadata t))"
      have tbm: "?tb \<noteq> [localMetadataDirName]" "?tb \<noteq> []" "target \<noteq> [localMetadataDirName]" using tb(2,4) ne hd by auto
      have tmb: "temp_metadata k v \<noteq> ?tb" for v using tb(4) by (metis temp_metadata_def list.sel(1))
      have md2: "?n2 (metadataPath k) = None" "\<And>u. ?n2 (temp_metadata k u) = None" "?n2 [] = Some Dir" "?n2 [localMetadataDirName] \<in> {None, Some Dir}"
        using md tbn tbm meta tmb by (auto simp: with_dirs_simps)
      have bl: "butlast target \<noteq> ?tb" "butlast target \<noteq> metadataPath k"
        using tb(2) len off[of "length (butlast target)"] by (metis less_irrefl, simp add: metadataPath_def)
      have pos: "?n3 ?tb = Some (File b)" "?n3 target = None" "?n3 (butlast target) = Some Dir"
        using tbn tbm ne bl with_dirs_simps(1)[of "butlast target" n] by (simp_all add: with_dirs_single)
      have eq: "?n3(target \<mapsto> File b, ?tb := None) = stored k t b n"
        using tbn tbm unfolding stored_def target_def[symmetric] with_dirs_single fun_eq_iff by simp
      have n3: "runs (install_absent k t ?tb target) ?n2 () (?n3(target \<mapsto> File b))"
        unfolding install_absent_def
        by (rule runs_bind[OF runs_metadata[OF md2(1) md2(2)[of u] md2(3,4) md2(2)]], simp only: if_True,
            rule runs_bind[OF runs_ret], rule runs_call, rule runs_link[OF pos])
      have "runs (os_call fault_of (os_Remove ?tb)) (?n3(target \<mapsto> File b)) () (stored k t b n)"
        unfolding eq[symmetric] using pos(1) tbn(3) by (intro runs_call runs_remove) simp
      then have rest: "runs (fs_bind (fs_cleanup (install_absent k t ?tb target) (os_Remove ?tb)) (\<lambda>_. os_call fault_of (os_Remove ?tb))) ?n2 () (stored k t b n)"
        by (rule runs_bind[OF runs_cleanup[OF n3]])
      have "runs (os_WriteFile ?tb b) ?n1 () ?n2"
        using runs_write[of ?n1 ?tb b] tb(1) tbn(1) with_dirs_simps(1)[of "butlast target" n] by simp
      from runs_bind[OF runs_call[OF this] rest] show ?case by (simp add: Let_def)
    qed
  qed
qed

text \<open>So a fresh key with room around it is stored.\<close>

lemma put_live:
  assumes "local_key k" "plain_type t" "calm_disk s" "room k (dk_nodes s)"
  obtains s' where "ds_put_new local_store k b t s = (None, s')" "calm_disk s'" "dk_nodes s' = stored k t b (dk_nodes s)"
proof -
  obtain s' where "local_Put True k b t s = (Inr (), s')" "calm_disk s'" "dk_nodes s' = stored k t b (dk_nodes s)"
    by (rule runsD[OF runs_put[OF assms(1,2,4)] assms(3) refl])
  then show ?thesis using that by (simp add: local_store_def)
qed

text \<open>Room for a key remains when an object is stored elsewhere in the tree.\<close>

lemma stored_elsewhere:
  assumes "q \<noteq> []" "hd q \<noteq> hd (split_on slash k)" "hd q \<noteq> localMetadataDirName"
  shows "stored k t b n q = n q"
proof -
  have "take i (butlast (split_on slash k)) \<noteq> q" for i
    using assms(1,2) by (cases "split_on slash k"; cases i) (auto split: if_splits)
  moreover have "split_on slash k \<noteq> q" "metadataPath k \<noteq> q" "[localMetadataDirName] \<noteq> q" using assms by (auto simp: metadataPath_def)
  ultimately show ?thesis using assms(1) by (auto simp: stored_def with_dirs_single) (auto simp: with_dirs_def)
qed

lemma stored_metadata:
  "stored k t b n [localMetadataDirName, x] = (if [localMetadataDirName, x] = metadataPath k then Some (File (encode_metadata t)) else n [localMetadataDirName, x])"
  if "local_key k"
proof -
  have hd: "hd (split_on slash k) \<noteq> localMetadataDirName" using that by (simp add: local_key_def)
  have "take i (butlast (split_on slash k)) \<noteq> localMetadataDirName # y" for i y
    using hd by (cases "split_on slash k"; cases i) (auto split: if_splits)
  then have "[localMetadataDirName, x] \<noteq> take i (butlast (split_on slash k))" for i by metis
  moreover have "split_on slash k \<noteq> [localMetadataDirName, x]" using hd by auto
  ultimately show ?thesis by (simp add: stored_def with_dirs_single metadataPath_def) (simp add: with_dirs_def)
qed

lemma room_elsewhere:
  assumes "local_key k" "local_key j" "hd (split_on slash j) \<noteq> hd (split_on slash k)" "metadataPath j \<noteq> metadataPath k" "room j n" "butlast (split_on slash j) \<noteq> []"
  shows "room j (stored k t b n)"
proof -
  let ?p = "split_on slash j"
  have h: "hd ?p \<noteq> localMetadataDirName" using assms(2) by (simp add: local_key_def)
  have at: "stored k t b n q = n q" if "q \<noteq> []" "hd q = hd ?p" for q
    using that assms(3) h by (intro stored_elsewhere) auto
  have meta: "stored k t b n [localMetadataDirName] = Some Dir" "stored k t b n [] = Some Dir"
    using assms(1) local_key_def[of k] by (cases "split_on slash k"; auto simp: stored_def with_dirs_single metadataPath_def)+
  note R = assms(5)[unfolded room_def no_temps_def]
  have "stored k t b n ?p = None" using at[of ?p] R by simp
  moreover have "stored k t b n (metadataPath j) = None"
    using stored_metadata[OF assms(1), of t b n "Sum256_hex j @ ''.json''"] assms(4) R by (simp add: metadataPath_def)
  moreover have "stored k t b n (temp_metadata j u) = None" for u
    using stored_metadata[OF assms(1), of t b n "Sum256_hex j @ ''.json'' @ ''.tmp-'' @ u"] temp_metadata_scratch[of j u] R
    by (auto simp: temp_metadata_def scratch_def)
  moreover have "stored k t b n (temp_body ?p u) = None" for u
  proof (cases "butlast ?p")
    case Nil
    then show ?thesis using assms(6) by simp
  next
    case (Cons x xs)
    then have "hd (temp_body ?p u) = hd ?p" by (cases ?p) (auto simp: temp_body_def split: if_splits)
    then show ?thesis using at[of "temp_body ?p u"] R by (simp add: temp_body_def)
  qed
  moreover have "way_free (butlast ?p) (stored k t b n)"
    unfolding way_free_def
  proof (intro allI impI)
    fix i assume i: "i \<le> length (butlast ?p)"
    show "stored k t b n (take i (butlast ?p)) \<in> {None, Some Dir}"
    proof (cases "take i (butlast ?p)")
      case (Cons x xs)
      then have "hd (take i (butlast ?p)) = hd ?p" by (cases ?p; cases i) (auto split: if_splits)
      then show ?thesis using at[of "take i (butlast ?p)"] Cons R i by (auto simp: way_free_def)
    next
      case Nil
      show ?thesis unfolding Nil using meta(2) by simp
    qed
  qed
  ultimately show ?thesis using meta by (simp add: room_def no_temps_def)
qed

section \<open>An example\<close>

text \<open>An empty disk on which the first write is torn.\<close>

definition torn_disk :: disk where
  "torn_disk = \<lparr>dk_nodes = Map.empty, dk_faults = [Works, Works, Torn 1], dk_ended = [], dk_uuids = [''u'', ''v''], dk_past = []\<rparr>"

lemma torn_disk_inv: "disk_inv torn_disk"
  by (simp add: disk_inv_def torn_disk_def nodes_inv_def rooted_def)

lemma example_key: "local_key ''blobs/x''" "plain_type ''text/plain''"
  by (simp_all add: local_key_def localMetadataDirName_def has_prefix_def plain_type_def valid_utf8_ascii runes_ascii)

lemma torn_writes: "length (dk_past (snd (local_Put True ''blobs/x'' ''abc'' ''text/plain'' torn_disk))) = 3"
  by (simp add: local_Put_def fs_bind_def fs_pure_def ctx_ended_def hd_or_def torn_disk_def os_call_def os_MkdirAll_def disk_op_def
      make_dir_def pathForKey_def valid_utf8_ascii fs_ret_def new_uuid_def os_WriteFile_def temp_body_def Let_def)

section \<open>Properties\<close>





end
