(* ===== verification/Artifact.thy ===== *)
theory Artifact
  imports ObjectStore Journal MapExec
begin

text \<open>
  \<^verbatim>\<open>internal/artifact/runtime.go\<close>: immutable canonical JSON values, whose manifest is the commit
  point, over the store contract of \<open>ObjectStore\<close>. The schema language and its validator are third-party:
  \<open>valid schema document\<close> is a parameter. The published schema of manifests is translated with the decoder.
\<close>

section \<open>Identity\<close>

record Destination =
  dt_manifestKey :: string
  dt_schema :: string

record Producer =
  pr_projectKey :: string
  pr_planHash :: string
  pr_runID :: string
  pr_nodeID :: string
  pr_attempt :: int
  pr_scope :: "ExecutionScope option"

definition JSONContentType :: string where "JSONContentType = ''application/json''"

definition ManifestContentType :: string where
  "ManifestContentType = ''application/vnd.massive.data-artifact-manifest+json''"

definition MaxJSONSafeInteger :: int where "MaxJSONSafeInteger = 9007199254740991"

datatype artifact_error =
    ArtValidation string
  | ArtIntegrity string
  | ArtBodyConflict
  | ArtManifestConflict
  | ArtStore store_error
  | ArtKey key_error

definition isSafePathSegment :: "string \<Rightarrow> bool" where
  "isSafePathSegment v =
     (if v = [] \<or> 128 < length v \<or> v = ''.'' \<or> v = ''..'' then False else list_all segment_char v)"

definition isLowerHex :: "string \<Rightarrow> bool" where
  "isLowerHex v = list_all is_lower_hex v"

definition isSafeProjectKey :: "string \<Rightarrow> bool" where
  "isSafeProjectKey v = (length v = 71 \<and> has_prefix v ''sha256-'' \<and> isLowerHex (drop 7 v))"

definition isHashRef :: "string \<Rightarrow> bool" where
  "isHashRef v = (length v = 71 \<and> has_prefix v ''sha256:'' \<and> isLowerHex (drop 7 v))"

definition valid_frame :: "MapItemScopeFrame \<Rightarrow> bool" where
  "valid_frame fr =
     (sf_kind fr = ''map-item'' \<and> isSafePathSegment (sf_map fr) \<and> 0 \<le> sf_index fr \<and> sf_index fr \<le> MaxJSONSafeInteger)"

definition ValidateExecutionScope :: "ExecutionScope option \<Rightarrow> string option" where
  "ValidateExecutionScope scope =
     (case scope of
        None \<Rightarrow> None
      | Some fs \<Rightarrow>
          if fs = [] then Some ''scope must contain at least one frame''
          else if \<not> list_all valid_frame fs
          then Some ''scope frame must be a map item with a safe map ID and exact nonnegative JSON index''
          else None)"

definition validateProducerIdentity :: "Producer \<Rightarrow> artifact_error option" where
  "validateProducerIdentity p =
     (if \<not> isSafeProjectKey (pr_projectKey p) then Some (ArtValidation ''project key'')
      else if \<not> isHashRef (pr_planHash p) then Some (ArtValidation ''plan hash'')
      else if \<not> isSafePathSegment (pr_runID p) then Some (ArtValidation ''run ID'')
      else if \<not> isSafePathSegment (pr_nodeID p) then Some (ArtValidation ''node ID'')
      else if pr_attempt p < 1 \<or> MaxJSONSafeInteger < pr_attempt p then Some (ArtValidation ''attempt'')
      else map_option ArtValidation (ValidateExecutionScope (pr_scope p)))"

definition outputManifestKey :: "Producer \<Rightarrow> (key_error, string) result" where
  "outputManifestKey p =
     (let key = ''projects/'' @ pr_projectKey p @ ''/runs/'' @ pr_runID p @ ''/steps/'' @ pr_nodeID p;
          key' = (case pr_scope p of
              None \<Rightarrow> key
            | Some fs \<Rightarrow> foldl (\<lambda>k fr. k @ ''/maps/'' @ sf_map fr @ ''/items/'' @ dec_int (sf_index fr)) (key @ ''/scopes'') fs)
      in ParseKey (key' @ ''/'' @ dec_int (pr_attempt p) @ ''/output-manifest.json''))"

definition ValidateDestination :: "Destination \<Rightarrow> Producer \<Rightarrow> artifact_error option" where
  "ValidateDestination d p =
     (case validateProducerIdentity p of
        Some e \<Rightarrow> Some e
      | None \<Rightarrow>
          if \<not> isHashRef (dt_schema d) then Some (ArtValidation ''schema'')
          else case outputManifestKey p of
            Inl e \<Rightarrow> Some (ArtValidation ''producer identity'')
          | Inr want \<Rightarrow> if dt_manifestKey d \<noteq> want then Some (ArtValidation ''manifest destination'') else None)"

text \<open>\<^verbatim>\<open>sameProducer\<close> compares the scopes frame by frame; frames are compared as Go compares structs.\<close>

definition sameProducer :: "Producer \<Rightarrow> Producer \<Rightarrow> bool" where
  "sameProducer l r =
     (if pr_projectKey l \<noteq> pr_projectKey r \<or> pr_planHash l \<noteq> pr_planHash r \<or> pr_runID l \<noteq> pr_runID r
        \<or> pr_nodeID l \<noteq> pr_nodeID r \<or> pr_attempt l \<noteq> pr_attempt r then False
      else case (pr_scope l, pr_scope r) of
        (Some a, Some b) \<Rightarrow> length a = length b \<and> list_all (\<lambda>i. a ! i = b ! i) [0..<length a]
      | (None, None) \<Rightarrow> True
      | _ \<Rightarrow> False)"

definition blobKey :: "string \<Rightarrow> (key_error, string) result" where
  "blobKey h = (if has_prefix h ''sha256:'' then BlobKeySHA256Hex (drop 7 h) else Inl (DigestRef h))"

section \<open>The manifest\<close>

record dataArtifactManifest =
  am_producer :: Producer
  am_schema :: string
  am_body :: ArtifactRef

definition frame_json :: "MapItemScopeFrame \<Rightarrow> string json" where
  "frame_json fr = JObj [(''kind'', JStr (sf_kind fr)), (''mapId'', JStr (sf_map fr)), (''index'', JNum (dec_int (sf_index fr)))]"

definition producer_json :: "Producer \<Rightarrow> string json" where
  "producer_json p = JObj ([(''projectKey'', JStr (pr_projectKey p)), (''planHash'', JStr (pr_planHash p)),
     (''runId'', JStr (pr_runID p)), (''nodeId'', JStr (pr_nodeID p)), (''attempt'', JNum (dec_int (pr_attempt p)))]
     @ (case pr_scope p of None \<Rightarrow> [] | Some fs \<Rightarrow> [(''scope'', JObj [(''frames'', JArr (map frame_json fs))])]))"

definition body_json :: "ArtifactRef \<Rightarrow> string json" where
  "body_json r = JObj [(''key'', JStr (ref_key r)), (''hash'', JStr (ref_hash r)), (''size'', JNum (dec_int (ref_size r))),
     (''contentType'', JStr (ref_contentType r))]"

definition manifest_json :: "dataArtifactManifest \<Rightarrow> string json" where
  "manifest_json m = JObj [(''kind'', JStr ''DataArtifactManifest''), (''schemaVersion'', JNum ''1''),
     (''encoding'', JStr ''canonical-json-v0''), (''producer'', producer_json (am_producer m)),
     (''schema'', JStr (am_schema m)), (''body'', body_json (am_body m))]"

text \<open>
  Reading a manifest: the published schema (\<^verbatim>\<open>data-artifact-manifest.schema.json\<close>) and the decoding of a
  document that satisfies it, as one function; \<^const>\<open>None\<close> when either refuses.
\<close>

definition object_with :: "string list \<Rightarrow> string list \<Rightarrow> string json \<Rightarrow> (string \<times> string json) list option" where
  "object_with needed allowed t =
     (case t of
        JObj ms \<Rightarrow>
          if list_all (\<lambda>k. k \<in> fst ` set ms) needed \<and> list_all (\<lambda>m. fst m \<in> set (needed @ allowed)) ms then Some ms else None
      | _ \<Rightarrow> None)"

definition str_field :: "(string \<times> string json) list \<Rightarrow> string \<Rightarrow> string option" where
  "str_field ms k = (case map_of ms k of Some (JStr s) \<Rightarrow> Some s | _ \<Rightarrow> None)"

definition int_field :: "(string \<times> string json) list \<Rightarrow> string \<Rightarrow> int option" where
  "int_field ms k =
     (case map_of ms k of
        Some (JNum t) \<Rightarrow> if t \<noteq> [] \<and> list_all is_digit t \<and> undec 0 t < 2 ^ 63 then Some (int (undec 0 t)) else None
      | _ \<Rightarrow> None)"

definition read_frame :: "string json \<Rightarrow> MapItemScopeFrame option" where
  "read_frame t =
     (case object_with [''kind'', ''mapId'', ''index''] [] t of
        None \<Rightarrow> None
      | Some ms \<Rightarrow>
          (case (str_field ms ''kind'', str_field ms ''mapId'', int_field ms ''index'') of
             (Some k, Some m, Some i) \<Rightarrow>
               (let fr = \<lparr>sf_kind = k, sf_map = m, sf_index = i\<rparr> in if valid_frame fr then Some fr else None)
           | _ \<Rightarrow> None))"

definition read_scope :: "string json \<Rightarrow> ExecutionScope option" where
  "read_scope t =
     (case object_with [''frames''] [] t of
        None \<Rightarrow> None
      | Some ms \<Rightarrow>
          (case map_of ms ''frames'' of
             Some (JArr ts) \<Rightarrow> if ts = [] then None else those (map read_frame ts)
           | _ \<Rightarrow> None))"

definition read_producer :: "string json \<Rightarrow> Producer option" where
  "read_producer t =
     (case object_with [''projectKey'', ''planHash'', ''runId'', ''nodeId'', ''attempt''] [''scope''] t of
        None \<Rightarrow> None
      | Some ms \<Rightarrow>
          (case (str_field ms ''projectKey'', str_field ms ''planHash'', str_field ms ''runId'', str_field ms ''nodeId'',
                 int_field ms ''attempt'') of
             (Some pk, Some ph, Some r, Some n, Some a) \<Rightarrow>
               if \<not> (isSafeProjectKey pk \<and> isHashRef ph \<and> isSafePathSegment r \<and> isSafePathSegment n \<and> 1 \<le> a \<and> a \<le> MaxJSONSafeInteger)
               then None
               else (case map_of ms ''scope'' of
                   None \<Rightarrow> Some \<lparr>pr_projectKey = pk, pr_planHash = ph, pr_runID = r, pr_nodeID = n, pr_attempt = a, pr_scope = None\<rparr>
                 | Some sc \<Rightarrow> map_option (\<lambda>fs. \<lparr>pr_projectKey = pk, pr_planHash = ph, pr_runID = r, pr_nodeID = n, pr_attempt = a,
                     pr_scope = Some fs\<rparr>) (read_scope sc))
           | _ \<Rightarrow> None))"

definition read_body :: "string json \<Rightarrow> ArtifactRef option" where
  "read_body t =
     (case object_with [''key'', ''hash'', ''size'', ''contentType''] [] t of
        None \<Rightarrow> None
      | Some ms \<Rightarrow>
          (case (str_field ms ''key'', str_field ms ''hash'', int_field ms ''size'', str_field ms ''contentType'') of
             (Some k, Some h, Some n, Some c) \<Rightarrow>
               if has_prefix k ''blobs/sha256/'' \<and> length k = 77 \<and> isLowerHex (drop 13 k) \<and> isHashRef h \<and> c = JSONContentType
               then Some \<lparr>ref_key = k, ref_hash = h, ref_size = n, ref_contentType = c\<rparr> else None
           | _ \<Rightarrow> None))"

definition read_manifest :: "string json \<Rightarrow> dataArtifactManifest option" where
  "read_manifest t =
     (case object_with [''kind'', ''schemaVersion'', ''encoding'', ''producer'', ''schema'', ''body''] [] t of
        None \<Rightarrow> None
      | Some ms \<Rightarrow>
          if str_field ms ''kind'' \<noteq> Some ''DataArtifactManifest'' \<or> int_field ms ''schemaVersion'' \<noteq> Some 1
             \<or> str_field ms ''encoding'' \<noteq> Some ''canonical-json-v0'' then None
          else (case (Option.bind (map_of ms ''producer'') read_producer, str_field ms ''schema'',
                      Option.bind (map_of ms ''body'') read_body) of
              (Some p, Some s, Some b) \<Rightarrow>
                if isHashRef s then Some \<lparr>am_producer = p, am_schema = s, am_body = b\<rparr> else None
            | _ \<Rightarrow> None))"

definition decode_manifest :: "bytes \<Rightarrow> dataArtifactManifest option" where
  "decode_manifest b = Option.bind (read_json b) read_manifest"

definition canonicalManifest :: "number_printer \<Rightarrow> dataArtifactManifest \<Rightarrow> (artifact_error, bytes) result" where
  "canonicalManifest f m =
     (case marshal_tree f (manifest_json m) of
        Inl _ \<Rightarrow> Inl (ArtValidation ''encode manifest'')
      | Inr b \<Rightarrow> if decode_manifest b = None then Inl (ArtValidation ''artifact manifest'') else Inr b)"

section \<open>Publication and resolution\<close>

definition validateCanonicalJSON ::
    "'s datastore \<Rightarrow> number_printer \<Rightarrow> (bytes \<Rightarrow> bytes \<Rightarrow> bool) \<Rightarrow> string \<Rightarrow> bytes \<Rightarrow> 's \<Rightarrow> artifact_error option \<times> 's" where
  "validateCanonicalJSON ds f valid schemaRef body s =
     (if \<not> is_canonical f body then (Some (ArtValidation ''value is not canonical JSON''), s)
      else case blobKey schemaRef of
        Inl _ \<Rightarrow> (Some (ArtValidation ''invalid schema reference''), s)
      | Inr key \<Rightarrow>
          (case ds_get ds key s of
             (Inl _, s') \<Rightarrow> (Some (ArtValidation ''read schema''), s')
           | (Inr (_, schema), s') \<Rightarrow>
               if \<not> is_canonical f schema \<or> DigestBytes schema \<noteq> schemaRef
               then (Some (ArtValidation ''schema is not canonical or does not match its digest''), s')
               else if \<not> valid schema body then (Some (ArtValidation ''value does not satisfy schema''), s')
               else (None, s')))"

definition putImmutable ::
    "'s datastore \<Rightarrow> string \<Rightarrow> bytes \<Rightarrow> string \<Rightarrow> artifact_error \<Rightarrow> 's \<Rightarrow> artifact_error option \<times> 's" where
  "putImmutable ds key body contentType conflict s =
     (case ds_put_new ds key body contentType s of
        (None, s') \<Rightarrow> (None, s')
      | (Some e, s') \<Rightarrow>
          if e \<noteq> StoreExists then (Some (ArtStore e), s')
          else (case ds_get ds key s' of
              (Inl _, s'') \<Rightarrow> (Some conflict, s'')
            | (Inr (t, b), s'') \<Rightarrow> (if t \<noteq> contentType \<or> b \<noteq> body then Some conflict else None, s'')))"

definition PublishJSON ::
    "'s datastore \<Rightarrow> number_printer \<Rightarrow> (bytes \<Rightarrow> bytes \<Rightarrow> bool) \<Rightarrow> Destination \<Rightarrow> Producer \<Rightarrow> bytes \<Rightarrow> 's
      \<Rightarrow> (artifact_error, PublishedArtifact) result \<times> 's" where
  "PublishJSON ds f valid dest producer body s =
     (case ValidateDestination dest producer of
        Some e \<Rightarrow> (Inl e, s)
      | None \<Rightarrow>
        (case validateCanonicalJSON ds f valid (dt_schema dest) body s of
           (Some e, s1) \<Rightarrow> (Inl e, s1)
         | (None, s1) \<Rightarrow>
             let bodyHash = DigestBytes body in
             (case blobKey bodyHash of
                Inl e \<Rightarrow> (Inl (ArtKey e), s1)
              | Inr bodyKey \<Rightarrow>
                  let bodyRef = \<lparr>ref_key = bodyKey, ref_hash = bodyHash, ref_size = int (length body), ref_contentType = JSONContentType\<rparr> in
                  (case canonicalManifest f \<lparr>am_producer = producer, am_schema = dt_schema dest, am_body = bodyRef\<rparr> of
                     Inl e \<Rightarrow> (Inl e, s1)
                   | Inr manifestBytes \<Rightarrow>
                       (case putImmutable ds bodyKey body JSONContentType ArtBodyConflict s1 of
                          (Some e, s2) \<Rightarrow> (Inl e, s2)
                        | (None, s2) \<Rightarrow>
                            (case putImmutable ds (dt_manifestKey dest) manifestBytes ManifestContentType ArtManifestConflict s2 of
                               (Some e, s3) \<Rightarrow> (Inl e, s3)
                             | (None, s3) \<Rightarrow>
                                 (Inr \<lparr>pub_manifest = \<lparr>ref_key = dt_manifestKey dest, ref_hash = DigestBytes manifestBytes,
                                         ref_size = int (length manifestBytes), ref_contentType = ManifestContentType\<rparr>,
                                       pub_body = bodyRef, pub_schema = dt_schema dest\<rparr>, s3)))))))"

definition ResolveJSON ::
    "'s datastore \<Rightarrow> number_printer \<Rightarrow> (bytes \<Rightarrow> bytes \<Rightarrow> bool) \<Rightarrow> Destination \<Rightarrow> Producer \<Rightarrow> 's
      \<Rightarrow> (artifact_error, PublishedArtifact \<times> bytes) result \<times> 's" where
  "ResolveJSON ds f valid dest producer s =
     (case ValidateDestination dest producer of
        Some e \<Rightarrow> (Inl e, s)
      | None \<Rightarrow>
        (case ds_get ds (dt_manifestKey dest) s of
           (Inl e, s1) \<Rightarrow> (Inl (ArtStore e), s1)
         | (Inr (t, mb), s1) \<Rightarrow>
             if t \<noteq> ManifestContentType then (Inl (ArtIntegrity ''manifest content type''), s1)
             else if \<not> is_canonical f mb then (Inl (ArtIntegrity ''manifest is not canonical JSON''), s1)
             else (case decode_manifest mb of
                 None \<Rightarrow> (Inl (ArtIntegrity ''manifest''), s1)
               | Some m \<Rightarrow>
                   if \<not> sameProducer (am_producer m) producer \<or> am_schema m \<noteq> dt_schema dest
                   then (Inl (ArtIntegrity ''manifest does not match its expected producer and schema''), s1)
                   else (case blobKey (ref_hash (am_body m)) of
                       Inl _ \<Rightarrow> (Inl (ArtIntegrity ''manifest body key does not match its digest''), s1)
                     | Inr bodyKey \<Rightarrow>
                         if bodyKey \<noteq> ref_key (am_body m) then (Inl (ArtIntegrity ''manifest body key does not match its digest''), s1)
                         else (case ds_get ds bodyKey s1 of
                             (Inl _, s2) \<Rightarrow> (Inl (ArtIntegrity ''read manifest body''), s2)
                           | (Inr (bt, body), s2) \<Rightarrow>
                               if bt \<noteq> JSONContentType \<or> int (length body) \<noteq> ref_size (am_body m) \<or> DigestBytes body \<noteq> ref_hash (am_body m)
                               then (Inl (ArtIntegrity ''body does not match its manifest''), s2)
                               else (case validateCanonicalJSON ds f valid (am_schema m) body s2 of
                                   (Some _, s3) \<Rightarrow> (Inl (ArtIntegrity ''body''), s3)
                                 | (None, s3) \<Rightarrow>
                                     (Inr (\<lparr>pub_manifest = \<lparr>ref_key = dt_manifestKey dest, ref_hash = DigestBytes mb,
                                         ref_size = int (length mb), ref_contentType = ManifestContentType\<rparr>,
                                       pub_body = am_body m, pub_schema = am_schema m\<rparr>, body), s3)))))))"

section \<open>Identities\<close>

lemma same_producer: "sameProducer l r \<longleftrightarrow> l = r"
  by (auto simp: sameProducer_def list_all_iff split: option.splits intro!: Producer.equality nth_equalityI)

lemma safe_segment: "isSafePathSegment v \<longleftrightarrow> ValidSafePathSegment v"
proof
  assume v: "isSafePathSegment v"
  then have c: "v \<noteq> []" "length v \<le> 128" "v \<noteq> ''.''" "v \<noteq> ''..''" "list_all segment_char v"
    by (auto simp: isSafePathSegment_def split: if_splits)
  then have n: "slash \<notin> set v" "backslash \<notin> set v" using segment_char_plain by (auto simp: list_all_iff)
  have w: "\<not> isWindowsAbs v" using n nth_mem[of 2 v] unfolding isWindowsAbs_def by (metis Suc_le_eq eval_nat_numeral(3))
  have "\<not> has_prefix v [slash]" using n(1) by (cases v) (auto simp: has_prefix_def)
  then have "ParseKey v = Inr v"
    unfolding ParseKey_Inr using c n w by (simp add: split_on_no_sep bad_segment_def)
  then show "ValidSafePathSegment v" using c by (simp add: ValidSafePathSegment_def)
next
  assume "ValidSafePathSegment v"
  then show "isSafePathSegment v" by (auto simp: ValidSafePathSegment_def isSafePathSegment_def split: if_splits)
qed

lemma foldl_frames:
  "foldl (\<lambda>k fr. k @ ''/maps/'' @ sf_map fr @ ''/items/'' @ dec_int (sf_index fr)) k fs
    = k @ concat (map (\<lambda>fr. ''/maps/'' @ sf_map fr @ ''/items/'' @ dec_int (sf_index fr)) fs)"
  by (induction fs arbitrary: k) auto

lemma manifest_key:
  "outputManifestKey p = ParseKey (''projects/'' @ pr_projectKey p @ ''/runs/'' @ pr_runID p @ ''/steps/'' @ pr_nodeID p
     @ scope_path (pr_scope p) @ ''/'' @ dec_int (pr_attempt p) @ ''/output-manifest.json'')"
  unfolding outputManifestKey_def Let_def scope_path_def foldl_frames by (cases "pr_scope p") simp_all

lemma hash_parts: "isHashRef h \<longleftrightarrow> has_prefix h ''sha256:'' \<and> hex64 (drop 7 h)"
  by (auto simp: isHashRef_def isLowerHex_def hex64_def has_prefix_def)

lemma blob_of_ref: "isHashRef h \<Longrightarrow> blobKey h = Inr (''blobs/sha256/'' @ drop 7 h)"
  using blob_key[of "drop 7 h"] by (simp add: hash_parts blobKey_def BlobKeySHA256Hex_def)

lemma digest_is_ref: "isHashRef (DigestBytes b)"
  using digest_parts[of b] by (simp add: hash_parts)

section \<open>The canonical text of a manifest\<close>

definition exact_printer :: "number_printer \<Rightarrow> bool" where
  "exact_printer f = (\<forall>n. 0 \<le> n \<longrightarrow> n \<le> MaxJSONSafeInteger \<longrightarrow>
     (\<exists>d. decode_number f (dec_int n) = Inr d \<and> f d = Some (dec_int n)))"

definition frame_tree :: "MapItemScopeFrame \<Rightarrow> string json" where
  "frame_tree fr = JObj [(''index'', JNum (dec_int (sf_index fr))), (''kind'', JStr (sf_kind fr)), (''mapId'', JStr (sf_map fr))]"

definition producer_tree :: "Producer \<Rightarrow> string json" where
  "producer_tree p = JObj ([(''attempt'', JNum (dec_int (pr_attempt p))), (''nodeId'', JStr (pr_nodeID p)),
     (''planHash'', JStr (pr_planHash p)), (''projectKey'', JStr (pr_projectKey p)), (''runId'', JStr (pr_runID p))]
     @ (case pr_scope p of None \<Rightarrow> [] | Some fs \<Rightarrow> [(''scope'', JObj [(''frames'', JArr (map frame_tree fs))])]))"

definition body_tree :: "ArtifactRef \<Rightarrow> string json" where
  "body_tree r = JObj [(''contentType'', JStr (ref_contentType r)), (''hash'', JStr (ref_hash r)), (''key'', JStr (ref_key r)),
     (''size'', JNum (dec_int (ref_size r)))]"

definition manifest_tree :: "dataArtifactManifest \<Rightarrow> string json" where
  "manifest_tree m = JObj [(''body'', body_tree (am_body m)), (''encoding'', JStr ''canonical-json-v0''),
     (''kind'', JStr ''DataArtifactManifest''), (''producer'', producer_tree (am_producer m)),
     (''schema'', JStr (am_schema m)), (''schemaVersion'', JNum ''1'')]"

definition canonizes :: "number_printer \<Rightarrow> string json \<Rightarrow> string json \<Rightarrow> bool" where
  "canonizes f t u = (\<exists>v. decodeNumbers f t = Inr v \<and> canon f v = Inr u)"

lemma canonizes_basic: "canonizes f (JStr s) (JStr s)"
  "exact_printer f \<Longrightarrow> 0 \<le> n \<Longrightarrow> n \<le> MaxJSONSafeInteger \<Longrightarrow> canonizes f (JNum (dec_int n)) (JNum (dec_int n))"
  by (simp add: canonizes_def) (fastforce simp: canonizes_def exact_printer_def)

lemma canonizes_list:
  "list_all2 (canonizes f) ts us \<Longrightarrow> \<exists>vs. mapE (decodeNumbers f) ts = Inr vs \<and> mapE (canon f) vs = Inr us"
  by (induction rule: list_all2_induct) (auto simp: canonizes_def)

lemma canonizes_array: "list_all2 (canonizes f) ts us \<Longrightarrow> canonizes f (JArr ts) (JArr us)"
  using canonizes_list[of f ts us] by (auto simp: canonizes_def)

lemma canonizes_members:
  "list_all2 (\<lambda>x y. fst x = fst y \<and> canonizes f (snd x) (snd y)) ms us \<Longrightarrow>
    \<exists>vs. mapE (\<lambda>m. bindE (decodeNumbers f (snd m)) (\<lambda>v. Inr (fst m, v))) ms = Inr vs
      \<and> mapE (\<lambda>m. bindE (canon f (snd m)) (\<lambda>t. Inr (fst m, t))) vs = Inr us"
  by (induction rule: list_all2_induct) (fastforce simp: canonizes_def)+

lemma canonizes_object:
  assumes "list_all2 (\<lambda>x y. fst x = fst y \<and> canonizes f (snd x) (snd y)) ms us" "sort_by key_less us = ws"
  shows "canonizes f (JObj ms) (JObj ws)"
  using canonizes_members[OF assms(1)] assms(2) by (auto simp: canonizes_def)

lemmas key_eval = key_less_def utf16_eval

lemma member_orders:
  "sort_by key_less [(''kind'', a), (''mapId'', b), (''index'', c)] = [(''index'', c), (''kind'', a), (''mapId'', b)]"
  "sort_by key_less [(''key'', a), (''hash'', b), (''size'', c), (''contentType'', d)]
     = [(''contentType'', d), (''hash'', b), (''key'', a), (''size'', c)]"
  "sort_by key_less [(''frames'', a)] = [(''frames'', a)]"
  by (simp_all add: key_eval)

lemma member_orders':
  "sort_by key_less [(''projectKey'', a), (''planHash'', b), (''runId'', c), (''nodeId'', d), (''attempt'', e)]
     = [(''attempt'', e), (''nodeId'', d), (''planHash'', b), (''projectKey'', a), (''runId'', c)]"
  "sort_by key_less [(''projectKey'', a), (''planHash'', b), (''runId'', c), (''nodeId'', d), (''attempt'', e), (''scope'', g)]
     = [(''attempt'', e), (''nodeId'', d), (''planHash'', b), (''projectKey'', a), (''runId'', c), (''scope'', g)]"
  "sort_by key_less [(''kind'', a), (''schemaVersion'', b), (''encoding'', c), (''producer'', d), (''schema'', e), (''body'', g)]
     = [(''body'', g), (''encoding'', c), (''kind'', a), (''producer'', d), (''schema'', e), (''schemaVersion'', b)]"
  by (simp_all add: key_eval)

lemma frame_canon: "exact_printer f \<Longrightarrow> valid_frame fr \<Longrightarrow> canonizes f (frame_json fr) (frame_tree fr)"
  unfolding frame_json_def frame_tree_def
  by (rule canonizes_object[OF _ member_orders(1)]) (simp add: canonizes_basic valid_frame_def)

definition valid_producer :: "Producer \<Rightarrow> bool" where
  "valid_producer p = (validateProducerIdentity p = None)"

lemma valid_producerD:
  assumes "valid_producer p"
  shows "isSafeProjectKey (pr_projectKey p)" "isHashRef (pr_planHash p)" "isSafePathSegment (pr_runID p)"
    "isSafePathSegment (pr_nodeID p)" "1 \<le> pr_attempt p" "pr_attempt p \<le> MaxJSONSafeInteger"
    "pr_scope p = Some fs \<Longrightarrow> fs \<noteq> [] \<and> list_all valid_frame fs"
  using assms by (auto simp: valid_producer_def validateProducerIdentity_def ValidateExecutionScope_def split: if_splits)

lemma producer_canon:
  assumes f: "exact_printer f" and p: "valid_producer p"
  shows "canonizes f (producer_json p) (producer_tree p)"
proof (cases "pr_scope p")
  case None
  then show ?thesis
    unfolding producer_json_def producer_tree_def option.case append_Nil2 None
    using valid_producerD(5,6)[OF p] by (intro canonizes_object[OF _ member_orders'(1)]) (simp add: canonizes_basic f)
next
  case (Some fs)
  have "list_all2 (canonizes f) (map frame_json fs) (map frame_tree fs)"
    using valid_producerD(7)[OF p Some] frame_canon[OF f] by (auto simp: list_all2_conv_all_nth list_all_length)
  then have "canonizes f (JObj [(''frames'', JArr (map frame_json fs))]) (JObj [(''frames'', JArr (map frame_tree fs))])"
    by (intro canonizes_object[OF _ member_orders(3)]) (simp add: canonizes_array)
  then show ?thesis
    unfolding producer_json_def producer_tree_def option.case append.simps Some
    using valid_producerD(5,6)[OF p] by (intro canonizes_object[OF _ member_orders'(2)]) (simp add: canonizes_basic f)
qed

lemma body_canon:
  "exact_printer f \<Longrightarrow> 0 \<le> ref_size r \<Longrightarrow> ref_size r \<le> MaxJSONSafeInteger \<Longrightarrow> canonizes f (body_json r) (body_tree r)"
  unfolding body_json_def body_tree_def
  by (rule canonizes_object[OF _ member_orders(2)]) (simp add: canonizes_basic)

lemma manifest_canon:
  assumes "exact_printer f" "valid_producer (am_producer m)" "0 \<le> ref_size (am_body m)" "ref_size (am_body m) \<le> MaxJSONSafeInteger"
  shows "canonizes f (manifest_json m) (manifest_tree m)"
proof -
  have one: "canonizes f (JNum ''1'') (JNum ''1'')"
    using canonizes_basic(2)[OF assms(1), of 1] by (simp add: MaxJSONSafeInteger_def dec_int_def dec_nat.simps digit_char_def char_of_def bit_0)
  show ?thesis
    unfolding manifest_json_def manifest_tree_def
    using producer_canon[OF assms(1,2)] body_canon[OF assms(1,3,4)] one
    by (intro canonizes_object[OF _ member_orders'(3)]) (simp add: canonizes_basic)
qed

text \<open>Identities are ASCII, so a manifest is well-formed JSON.\<close>

lemma segment_ascii: "isSafePathSegment v \<Longrightarrow> valid_utf8 v"
  by (rule valid_utf8_ascii) (auto simp: isSafePathSegment_def list_all_iff segment_char_def is_letter_def split: if_splits)

lemma hex_ascii: "list_all is_lower_hex v \<Longrightarrow> \<forall>c \<in> set v. byte c < 128"
  by (auto simp: list_all_iff is_lower_hex_def)

lemma prefixed_ascii: "has_prefix v p \<Longrightarrow> \<forall>c \<in> set p. byte c < 128 \<Longrightarrow> list_all is_lower_hex (drop (length p) v) \<Longrightarrow> valid_utf8 v"
proof (rule valid_utf8_ascii)
  assume v: "has_prefix v p" "\<forall>c \<in> set p. byte c < 128" "list_all is_lower_hex (drop (length p) v)"
  then have "v = p @ drop (length p) v" by (metis append_eq_conv_conj has_prefix_def append_take_drop_id)
  then have "set v = set p \<union> set (drop (length p) v)" by (metis set_append)
  then show "\<forall>c \<in> set v. byte c < 128" using v(2) hex_ascii[OF v(3)] by auto
qed

lemma ref_ascii: "isHashRef v \<Longrightarrow> valid_utf8 v" "isSafeProjectKey v \<Longrightarrow> valid_utf8 v"
  using prefixed_ascii[of v "''sha256:''"] prefixed_ascii[of v "''sha256-''"]
  by (auto simp: isHashRef_def isSafeProjectKey_def isLowerHex_def numeral_eq_Suc)

lemma safe_int:
  assumes "0 \<le> n" "n \<le> MaxJSONSafeInteger"
  shows "json_number (dec_int n)" "dec_int n \<noteq> []" "list_all is_digit (dec_int n)" "undec 0 (dec_int n) = nat n" "nat n < 2 ^ 63"
  using assms dec_nat_json_number(1) dec_nat_all_digits by (auto simp: dec_int_def MaxJSONSafeInteger_def)

lemma fold_max_capped: "\<forall>x \<in> set xs. x \<le> b \<Longrightarrow> fold max xs k \<le> max k (b :: nat)"
proof (induction xs arbitrary: k)
  case (Cons a xs)
  then have "fold max xs (max a k) \<le> max (max a k) b" by simp
  also have "\<dots> \<le> max k b" using Cons.prems by (auto simp: le_max_iff_disj)
  finally show ?case by simp
qed simp

lemma frames_depth: "fold max (map (depth \<circ> frame_json) fs) 0 \<le> 1"
  using fold_max_capped[of "map (depth \<circ> frame_json) fs" 1 0] by (simp add: frame_json_def)

definition manifest_ok :: "dataArtifactManifest \<Rightarrow> bool" where
  "manifest_ok m =
     (valid_producer (am_producer m) \<and> isHashRef (am_schema m) \<and> isHashRef (ref_hash (am_body m))
      \<and> ref_key (am_body m) = ''blobs/sha256/'' @ drop 7 (ref_hash (am_body m))
      \<and> 0 \<le> ref_size (am_body m) \<and> ref_size (am_body m) \<le> MaxJSONSafeInteger \<and> ref_contentType (am_body m) = JSONContentType)"

lemma body_key_text:
  assumes "isHashRef h"
  shows "valid_utf8 (''blobs/sha256/'' @ drop 7 h)" "length (''blobs/sha256/'' @ drop 7 h) = 77" "isLowerHex (drop 13 (''blobs/sha256/'' @ drop 7 h))"
proof -
  have h: "length h = 71" "list_all is_lower_hex (drop 7 h)" using assms by (simp_all add: isHashRef_def isLowerHex_def)
  show "valid_utf8 (''blobs/sha256/'' @ drop 7 h)" by (rule valid_utf8_ascii) (use hex_ascii[OF h(2)] in auto)
  show "length (''blobs/sha256/'' @ drop 7 h) = 77" "isLowerHex (drop 13 (''blobs/sha256/'' @ drop 7 h))"
    using h by (simp_all add: isLowerHex_def)
qed

lemma frames_wf: "list_all valid_frame fs \<Longrightarrow> list_all wf_json (map frame_json fs) \<and> list_all numbers_ok (map frame_json fs)"
  by (induction fs) (auto simp: frame_json_def valid_frame_def safe_int segment_ascii valid_utf8_ascii)

lemma producer_wf:
  assumes "valid_producer p"
  shows "wf_json (producer_json p)" "numbers_ok (producer_json p)" "depth (producer_json p) \<le> 5"
proof -
  note p = valid_producerD[OF assms]
  have n: "json_number (dec_int (pr_attempt p))" using p(5,6) by (intro safe_int(1)) auto
  show "wf_json (producer_json p)" "numbers_ok (producer_json p)"
    using n p(1-4) p(7) frames_wf
    by (auto simp: producer_json_def ref_ascii segment_ascii valid_utf8_ascii split: option.split)
  show "depth (producer_json p) \<le> 5"
    using frames_depth[of "the (pr_scope p)"] by (auto simp: producer_json_def comp_def split: option.split)
qed

lemma manifest_wf:
  assumes "manifest_ok m"
  shows "read_json (text_of (manifest_json m)) = Some (manifest_json m)"
proof (rule read_text_of)
  note m = assms[unfolded manifest_ok_def]
  have p: "wf_json (producer_json (am_producer m))" "numbers_ok (producer_json (am_producer m))" "depth (producer_json (am_producer m)) \<le> 5"
    using producer_wf m by auto
  have one: "json_number ''1''" by (simp add: json_number_def num_int_def strip_minus_def num_frac_def num_exp_def is_digit_def)
  show "wf_json (manifest_json m)"
    using p m body_key_text(1) by (auto simp: manifest_json_def body_json_def ref_ascii valid_utf8_ascii JSONContentType_def)
  show "numbers_ok (manifest_json m)"
    using p m one safe_int(1) by (auto simp: manifest_json_def body_json_def)
  show "depth (manifest_json m) \<le> max_nesting"
    using p(3) by (simp add: manifest_json_def body_json_def max_nesting_def)
qed

lemma manifest_marshal:
  assumes "number_codec f" "exact_printer f" "manifest_ok m"
  shows "marshal_tree f (manifest_json m) = Inr (text_of (manifest_tree m))"
    and "is_canonical f (text_of (manifest_tree m))" "read_json (text_of (manifest_tree m)) = Some (manifest_tree m)"
proof -
  obtain v where v: "decodeNumbers f (manifest_json m) = Inr v" "canon f v = Inr (manifest_tree m)"
    using manifest_canon[OF assms(2), of m] assms(3) by (auto simp: canonizes_def manifest_ok_def)
  have d: "decodeJSON f (text_of (manifest_json m)) = Inr v" using manifest_wf[OF assms(3)] v(1) by (simp add: decodeJSON_def)
  show "marshal_tree f (manifest_json m) = Inr (text_of (manifest_tree m))"
    unfolding marshal_tree_def CanonicalizeJSON_Inr using d v(2) by blast
  show "read_json (text_of (manifest_tree m)) = Some (manifest_tree m)"
    by (rule canonical_read(1)[OF assms(1) d v(2)])
  show "is_canonical f (text_of (manifest_tree m))"
    unfolding is_canonical_def CanonicalizeJSON_Inr using canonical_read(2)[OF assms(1) d v(2)] by blast
qed

lemma read_frame_tree: "valid_frame fr \<Longrightarrow> read_frame (frame_tree fr) = Some fr"
  using safe_int[of "sf_index fr"]
  by (auto simp: read_frame_def frame_tree_def object_with_def str_field_def int_field_def Let_def valid_frame_def)

lemma read_frames: "list_all valid_frame fs \<Longrightarrow> those (map read_frame (map frame_tree fs)) = Some fs"
  by (induction fs) (auto simp: read_frame_tree)

lemma read_producer_tree:
  assumes "valid_producer p"
  shows "read_producer (producer_tree p) = Some p"
proof -
  note p = valid_producerD[OF assms]
  have n: "int_field (case producer_tree p of JObj ms \<Rightarrow> ms) ''attempt'' = Some (pr_attempt p)"
    using safe_int[of "pr_attempt p"] p(5,6) by (simp add: producer_tree_def int_field_def)
  show ?thesis
  proof (cases "pr_scope p")
    case None
    then show ?thesis
      using n p(1-6) by (simp add: read_producer_def producer_tree_def object_with_def str_field_def)
  next
    case (Some fs)
    have "read_scope (JObj [(''frames'', JArr (map frame_tree fs))]) = Some fs"
      using p(7)[OF Some] read_frames[of fs] by (simp add: read_scope_def object_with_def)
    then show ?thesis
      using n p(1-6) Some by (simp add: read_producer_def producer_tree_def object_with_def str_field_def)
  qed
qed

lemma read_body_tree:
  assumes "manifest_ok m"
  shows "read_body (body_tree (am_body m)) = Some (am_body m)"
proof -
  note m = assms[unfolded manifest_ok_def]
  have "int_field [(''contentType'', a), (''hash'', b), (''key'', c), (''size'', JNum (dec_int (ref_size (am_body m))))] ''size'' = Some (ref_size (am_body m))" for a b c
    using safe_int[of "ref_size (am_body m)"] m by (simp add: int_field_def)
  moreover have "has_prefix (''blobs/sha256/'' @ x) ''blobs/sha256/''" for x by (simp add: has_prefix_def)
  ultimately show ?thesis
    using m body_key_text[of "ref_hash (am_body m)"] by (simp add: read_body_def body_tree_def object_with_def str_field_def)
qed

lemma read_manifest_tree:
  assumes "manifest_ok m"
  shows "read_manifest (manifest_tree m) = Some m"
proof -
  have "int_field [(''body'', a), (''encoding'', b), (''kind'', c), (''producer'', d), (''schema'', e), (''schemaVersion'', JNum ''1'')] ''schemaVersion'' = Some 1" for a b c d e
    by (simp add: int_field_def is_digit_def)
  then show ?thesis
    using read_body_tree[OF assms] read_producer_tree assms
    by (simp add: read_manifest_def manifest_tree_def object_with_def str_field_def manifest_ok_def)
qed

lemma manifest_bytes:
  assumes "number_codec f" "exact_printer f" "manifest_ok m"
  shows "canonicalManifest f m = Inr (text_of (manifest_tree m))" "decode_manifest (text_of (manifest_tree m)) = Some m"
    "is_canonical f (text_of (manifest_tree m))"
  using manifest_marshal[OF assms] read_manifest_tree[OF assms(3)] by (simp_all add: canonicalManifest_def decode_manifest_def)

section \<open>Publication over a store that keeps its contract\<close>

text \<open>What a successful publication leaves in the store.\<close>

definition published_in ::
    "(string \<Rightarrow> (string \<times> bytes) option) \<Rightarrow> number_printer \<Rightarrow> (bytes \<Rightarrow> bytes \<Rightarrow> bool) \<Rightarrow> Destination \<Rightarrow> Producer \<Rightarrow> bytes \<Rightarrow> bytes \<Rightarrow> bool" where
  "published_in v f valid dest p body mb =
     (ValidateDestination dest p = None
      \<and> (\<exists>t schema key. blobKey (dt_schema dest) = Inr key \<and> v key = Some (t, schema) \<and> is_canonical f schema
           \<and> DigestBytes schema = dt_schema dest \<and> valid schema body)
      \<and> is_canonical f body
      \<and> canonicalManifest f \<lparr>am_producer = p, am_schema = dt_schema dest, am_body = \<lparr>ref_key = ''blobs/sha256/'' @ drop 7 (DigestBytes body),
          ref_hash = DigestBytes body, ref_size = int (length body), ref_contentType = JSONContentType\<rparr>\<rparr> = Inr mb
      \<and> v (''blobs/sha256/'' @ drop 7 (DigestBytes body)) = Some (JSONContentType, body)
      \<and> v (dt_manifestKey dest) = Some (ManifestContentType, mb))"

definition schema_holds :: "(string \<Rightarrow> (string \<times> bytes) option) \<Rightarrow> number_printer \<Rightarrow> (bytes \<Rightarrow> bytes \<Rightarrow> bool) \<Rightarrow> string \<Rightarrow> bytes \<Rightarrow> bool" where
  "schema_holds v f valid schemaRef body =
     (\<exists>t schema key. blobKey schemaRef = Inr key \<and> v key = Some (t, schema) \<and> is_canonical f schema
        \<and> DigestBytes schema = schemaRef \<and> valid schema body)"

text \<open>What a successful resolution has read.\<close>

definition resolved_in ::
    "(string \<Rightarrow> (string \<times> bytes) option) \<Rightarrow> number_printer \<Rightarrow> (bytes \<Rightarrow> bytes \<Rightarrow> bool) \<Rightarrow> Destination \<Rightarrow> Producer
      \<Rightarrow> PublishedArtifact \<Rightarrow> bytes \<Rightarrow> bool" where
  "resolved_in v f valid dest p a body =
     (ValidateDestination dest p = None
      \<and> (\<exists>mb m. v (dt_manifestKey dest) = Some (ManifestContentType, mb) \<and> is_canonical f mb \<and> decode_manifest mb = Some m
           \<and> am_producer m = p \<and> am_schema m = dt_schema dest \<and> pub_body a = am_body m
           \<and> blobKey (ref_hash (am_body m)) = Inr (ref_key (am_body m))
           \<and> pub_manifest a = \<lparr>ref_key = dt_manifestKey dest, ref_hash = DigestBytes mb, ref_size = int (length mb), ref_contentType = ManifestContentType\<rparr>)
      \<and> pub_schema a = dt_schema dest
      \<and> v (ref_key (pub_body a)) = Some (JSONContentType, body)
      \<and> DigestBytes body = ref_hash (pub_body a) \<and> int (length body) = ref_size (pub_body a)
      \<and> is_canonical f body \<and> schema_holds v f valid (dt_schema dest) body)"

lemma read_body_hash: "read_body t = Some r \<Longrightarrow> isHashRef (ref_hash r)"
  by (auto simp: read_body_def split: option.splits if_splits)

lemma read_manifestD:
  assumes "read_manifest t = Some m"
  obtains ms p sc b where "Option.bind (map_of ms ''producer'') read_producer = Some p" "str_field ms ''schema'' = Some sc"
    "Option.bind (map_of ms ''body'') read_body = Some b" "isHashRef sc" "m = \<lparr>am_producer = p, am_schema = sc, am_body = b\<rparr>"
  using assms unfolding read_manifest_def
  apply (cases "object_with [''kind'', ''schemaVersion'', ''encoding'', ''producer'', ''schema'', ''body''] [] t")
   apply simp
  subgoal for ms
    by (cases "Option.bind (map_of ms ''producer'') read_producer"; cases "str_field ms ''schema''";
        cases "Option.bind (map_of ms ''body'') read_body") (simp_all split: if_splits)
  done

lemma read_manifest_hash: "read_manifest t = Some m \<Longrightarrow> isHashRef (ref_hash (am_body m)) \<and> isHashRef (am_schema m)"
  by (erule read_manifestD) (auto simp: bind_eq_Some_conv read_body_hash)

lemma decoded_hash: "decode_manifest b = Some m \<Longrightarrow> isHashRef (ref_hash (am_body m)) \<and> isHashRef (am_schema m)"
  by (auto simp: decode_manifest_def bind_eq_Some_conv read_manifest_hash)

definition published_ref :: "Destination \<Rightarrow> bytes \<Rightarrow> bytes \<Rightarrow> PublishedArtifact" where
  "published_ref dest body mb =
     \<lparr>pub_manifest = \<lparr>ref_key = dt_manifestKey dest, ref_hash = DigestBytes mb, ref_size = int (length mb), ref_contentType = ManifestContentType\<rparr>,
      pub_body = \<lparr>ref_key = ''blobs/sha256/'' @ drop 7 (DigestBytes body), ref_hash = DigestBytes body, ref_size = int (length body),
        ref_contentType = JSONContentType\<rparr>,
      pub_schema = dt_schema dest\<rparr>"

lemma destination_parts:
  assumes "ValidateDestination dest p = None"
  shows "valid_producer p" "isHashRef (dt_schema dest)" "outputManifestKey p = Inr (dt_manifestKey dest)"
  using assms by (auto simp: ValidateDestination_def valid_producer_def split: option.splits if_splits sum.splits)

lemma digest_blob: "blobKey (DigestBytes b) = Inr (''blobs/sha256/'' @ drop 7 (DigestBytes b))"
  by (rule blob_of_ref[OF digest_is_ref])

text \<open>Objects are only added.\<close>

definition extends :: "(string \<Rightarrow> bool) \<Rightarrow> (string \<Rightarrow> (string \<times> bytes) option) \<Rightarrow> (string \<Rightarrow> (string \<times> bytes) option) \<Rightarrow> bool" where
  "extends good v w = (\<forall>j obj. good j \<longrightarrow> v j = Some obj \<longrightarrow> w j = Some obj)"

lemma extends_trans: "extends g u v \<Longrightarrow> extends g v w \<Longrightarrow> extends g u w"
  by (simp add: extends_def)

text \<open>An output has one value: what can be resolved is determined by the manifest at its destination.\<close>

lemma resolved_unique:
  assumes "resolved_in v f valid dest p a b" "resolved_in v g valid' dest p a' b'"
  shows "a = a' \<and> b = b'"
proof -
  obtain mb m where m: "v (dt_manifestKey dest) = Some (ManifestContentType, mb)" "decode_manifest mb = Some m" "pub_body a = am_body m"
    "pub_manifest a = \<lparr>ref_key = dt_manifestKey dest, ref_hash = DigestBytes mb, ref_size = int (length mb), ref_contentType = ManifestContentType\<rparr>"
    using assms(1) unfolding resolved_in_def by blast
  obtain mb' m' where m': "v (dt_manifestKey dest) = Some (ManifestContentType, mb')" "decode_manifest mb' = Some m'" "pub_body a' = am_body m'"
    "pub_manifest a' = \<lparr>ref_key = dt_manifestKey dest, ref_hash = DigestBytes mb', ref_size = int (length mb'), ref_contentType = ManifestContentType\<rparr>"
    using assms(2) unfolding resolved_in_def by blast
  have "mb = mb'" "m = m'" using m(1,2) m'(1,2) by simp_all
  then have "pub_body a = pub_body a'" "pub_manifest a = pub_manifest a'" using m(3,4) m'(3,4) by simp_all
  moreover have "pub_schema a = pub_schema a'" "v (ref_key (pub_body a)) = Some (JSONContentType, b)" "v (ref_key (pub_body a')) = Some (JSONContentType, b')"
    using assms unfolding resolved_in_def by simp_all
  ultimately show ?thesis by simp
qed

text \<open>The keys a publication uses and the content types it writes.\<close>

definition publishes_good :: "(string \<Rightarrow> bool) \<Rightarrow> (string \<Rightarrow> bool) \<Rightarrow> bool" where
  "publishes_good good ctype =
     ((\<forall>h. isHashRef h \<longrightarrow> good (''blobs/sha256/'' @ drop 7 h))
      \<and> (\<forall>p k. valid_producer p \<longrightarrow> outputManifestKey p = Inr k \<longrightarrow> good k)
      \<and> ctype JSONContentType \<and> ctype ManifestContentType)"

lemma resolved_mono:
  assumes "publishes_good good ctype" "extends good v w" and res: "resolved_in v f valid dest p a b"
  shows "resolved_in w f valid dest p a b"
proof -
  note R = res[unfolded resolved_in_def schema_holds_def]
  note G = assms(1)[unfolded publishes_good_def]
  have d: "valid_producer p" "isHashRef (dt_schema dest)" "outputManifestKey p = Inr (dt_manifestKey dest)"
    using R destination_parts by blast+
  have keep: "good k \<Longrightarrow> v k = Some obj \<Longrightarrow> w k = Some obj" for k obj using assms(2) unfolding extends_def by blast
  obtain mb m where m: "v (dt_manifestKey dest) = Some (ManifestContentType, mb)" "is_canonical f mb" "decode_manifest mb = Some m"
    "am_producer m = p" "am_schema m = dt_schema dest" "pub_body a = am_body m" "blobKey (ref_hash (am_body m)) = Inr (ref_key (am_body m))"
    "pub_manifest a = \<lparr>ref_key = dt_manifestKey dest, ref_hash = DigestBytes mb, ref_size = int (length mb), ref_contentType = ManifestContentType\<rparr>"
    using R by blast
  obtain t schema key where sch: "blobKey (dt_schema dest) = Inr key" "v key = Some (t, schema)" "is_canonical f schema"
    "DigestBytes schema = dt_schema dest" "valid schema b" using R by blast
  have "good key" using sch(1) blob_of_ref[OF d(2)] G d(2) by auto
  moreover have "good (ref_key (pub_body a))"
    using m(6,7) decoded_hash[OF m(3)] blob_of_ref[of "ref_hash (am_body m)"] G by auto
  moreover have "good (dt_manifestKey dest)" using G d by auto
  ultimately have w: "w key = Some (t, schema)" "w (ref_key (pub_body a)) = Some (JSONContentType, b)"
    "w (dt_manifestKey dest) = Some (ManifestContentType, mb)"
    using keep sch(2) m(1) R by blast+
  have "schema_holds w f valid (dt_schema dest) b" unfolding schema_holds_def using w(1) sch by blast
  moreover have "\<exists>mb m. w (dt_manifestKey dest) = Some (ManifestContentType, mb) \<and> is_canonical f mb \<and> decode_manifest mb = Some m
           \<and> am_producer m = p \<and> am_schema m = dt_schema dest \<and> pub_body a = am_body m
           \<and> blobKey (ref_hash (am_body m)) = Inr (ref_key (am_body m))
           \<and> pub_manifest a = \<lparr>ref_key = dt_manifestKey dest, ref_hash = DigestBytes mb, ref_size = int (length mb), ref_contentType = ManifestContentType\<rparr>"
    using m(2-8) w(3) by blast
  ultimately show ?thesis unfolding resolved_in_def using w(2) res[unfolded resolved_in_def] by (elim conjE, intro conjI) assumption+
qed

lemma published_resolved:
  assumes "number_codec f" "exact_printer f" "int (length body) \<le> MaxJSONSafeInteger" "published_in v f valid dest p body mb"
  shows "resolved_in v f valid dest p (published_ref dest body mb) body"
proof -
  note P = assms(4)[unfolded published_in_def]
  define m where "m = \<lparr>am_producer = p, am_schema = dt_schema dest, am_body = \<lparr>ref_key = ''blobs/sha256/'' @ drop 7 (DigestBytes body),
      ref_hash = DigestBytes body, ref_size = int (length body), ref_contentType = JSONContentType\<rparr>\<rparr>"
  have "manifest_ok m" using P destination_parts[of dest p] assms(3) digest_is_ref[of body] by (simp add: manifest_ok_def m_def)
  note mb = manifest_bytes[OF assms(1,2) this]
  have "mb = text_of (manifest_tree m)" using P mb(1) by (simp add: m_def)
  then show ?thesis
    using P mb digest_blob[of body] unfolding resolved_in_def schema_holds_def published_ref_def
    by (auto simp: m_def intro!: exI[of _ m])
qed

context immutable_store
begin

lemma get_step:
  assumes "inv s" "good k" "ds_get ds k s = (r, s')"
  shows "inv s'" "view s' = view s" "r = Inr obj \<Longrightarrow> view s k = Some obj"
  using get_inv[OF assms(1,2)] get_view[OF assms(1,2)] get_ok[OF assms(1,2)] assms(3) by auto

lemma validate_step:
  assumes "inv s" "publishes_good good ctype" "isHashRef schemaRef" "validateCanonicalJSON ds f valid schemaRef body s = (r, s')"
  shows "inv s'" "view s' = view s"
    and "r = None \<Longrightarrow> is_canonical f body \<and> (\<exists>t schema key. blobKey schemaRef = Inr key \<and> view s key = Some (t, schema)
      \<and> is_canonical f schema \<and> DigestBytes schema = schemaRef \<and> valid schema body)"
proof -
  let ?k = "''blobs/sha256/'' @ drop 7 schemaRef"
  have k: "blobKey schemaRef = Inr ?k" "good ?k" using blob_of_ref[OF assms(3)] assms(2,3) by (auto simp: publishes_good_def)
  obtain x t where g: "ds_get ds ?k s = (x, t)" by (cases "ds_get ds ?k s")
  note get = get_step[OF assms(1) k(2) g]
  have "inv s' \<and> view s' = view s \<and> (r = None \<longrightarrow> is_canonical f body \<and> (\<exists>t schema. view s ?k = Some (t, schema)
      \<and> is_canonical f schema \<and> DigestBytes schema = schemaRef \<and> valid schema body))"
    using assms(1,4) get k(1) g by (auto simp: validateCanonicalJSON_def split: if_splits sum.splits prod.splits)
  then show "inv s'" "view s' = view s"
    and "r = None \<Longrightarrow> is_canonical f body \<and> (\<exists>t schema key. blobKey schemaRef = Inr key \<and> view s key = Some (t, schema)
      \<and> is_canonical f schema \<and> DigestBytes schema = schemaRef \<and> valid schema body)"
    using k(1) by auto
qed

lemma put_step:
  assumes "inv s" "good k" "ctype t" "putImmutable ds k b t conflict s = (r, s')"
  shows "inv s'" "extends good (view s) (view s')" "r = None \<Longrightarrow> view s' k = Some (t, b)"
proof -
  obtain x s1 where p: "ds_put_new ds k b t s = (x, s1)" by (cases "ds_put_new ds k b t s")
  have s1: "inv s1" using put_inv[OF assms(1-3), of b] p by simp
  have e1: "extends good (view s) (view s1)" using put_keeps[OF assms(1-3), of _ _ b] p by (simp add: extends_def)
  obtain y s2 where g: "ds_get ds k s1 = (y, s2)" by (cases "ds_get ds k s1")
  note get = get_step[OF s1 assms(2) g]
  have "inv s' \<and> extends good (view s) (view s') \<and> (r = None \<longrightarrow> view s' k = Some (t, b))"
  proof (cases x)
    case None
    then show ?thesis using assms(4) p s1 e1 put_ok[OF assms(1-3), of b] by (simp add: putImmutable_def)
  next
    case (Some e)
    then show ?thesis
      using assms(4) p s1 e1 get g by (auto simp: putImmutable_def split: if_splits sum.splits prod.splits)
  qed
  then show "inv s'" "extends good (view s) (view s')" "r = None \<Longrightarrow> view s' k = Some (t, b)" by simp_all
qed

lemma publish_step:
  assumes s: "inv s" and keys: "publishes_good good ctype" and pub: "PublishJSON ds f valid dest p body s = (r, s')"
  shows "inv s'" "extends good (view s) (view s')"
    and "r = Inr a \<Longrightarrow> \<exists>mb. published_in (view s') f valid dest p body mb \<and> a = published_ref dest body mb"
proof -
  have "inv s' \<and> extends good (view s) (view s')
      \<and> (\<forall>a. r = Inr a \<longrightarrow> (\<exists>mb. published_in (view s') f valid dest p body mb \<and> a = published_ref dest body mb))"
  proof (cases "ValidateDestination dest p")
    case (Some e)
    then show ?thesis using pub s by (auto simp: PublishJSON_def extends_def)
  next
    case None
    note d = destination_parts[OF None]
    obtain e1 s1 where v: "validateCanonicalJSON ds f valid (dt_schema dest) body s = (e1, s1)"
      by (cases "validateCanonicalJSON ds f valid (dt_schema dest) body s")
    note v1 = validate_step[OF s keys d(2) v]
    let ?bk = "''blobs/sha256/'' @ drop 7 (DigestBytes body)"
    let ?m = "\<lparr>am_producer = p, am_schema = dt_schema dest, am_body = \<lparr>ref_key = ?bk, ref_hash = DigestBytes body,
        ref_size = int (length body), ref_contentType = JSONContentType\<rparr>\<rparr>"
    have good: "good ?bk" "good (dt_manifestKey dest)" "ctype JSONContentType" "ctype ManifestContentType"
      using keys d digest_is_ref[of body] by (auto simp: publishes_good_def)
    show ?thesis
    proof (cases e1)
      case (Some e)
      then show ?thesis using pub None v v1 by (auto simp: PublishJSON_def extends_def)
    next
      case e1: None
      show ?thesis
      proof (cases "canonicalManifest f ?m")
        case (Inl e)
        then show ?thesis using pub None v v1 e1 digest_blob[of body] by (auto simp: PublishJSON_def Let_def extends_def)
      next
        case (Inr mb)
        obtain e2 s2 where p1: "putImmutable ds ?bk body JSONContentType ArtBodyConflict s1 = (e2, s2)"
          by (cases "putImmutable ds ?bk body JSONContentType ArtBodyConflict s1")
        note p1' = put_step[OF v1(1) good(1,3) p1]
        obtain e3 s3 where p2: "putImmutable ds (dt_manifestKey dest) mb ManifestContentType ArtManifestConflict s2 = (e3, s3)"
          by (cases "putImmutable ds (dt_manifestKey dest) mb ManifestContentType ArtManifestConflict s2")
        note p2' = put_step[OF p1'(1) good(2,4) p2]
        have run: "PublishJSON ds f valid dest p body s = (case e2 of Some e \<Rightarrow> (Inl e, s2) | None \<Rightarrow>
            (case e3 of Some e \<Rightarrow> (Inl e, s3) | None \<Rightarrow> (Inr (published_ref dest body mb), s3)))"
          unfolding PublishJSON_def None option.case v e1 prod.case Let_def digest_blob sum.case Inr p1 p2
          by (auto simp: published_ref_def p2 split: option.split)
        have ext: "extends good (view s) (view s3)" "extends good (view s1) (view s2)"
          using p1'(2) p2'(2) v1(2) extends_trans by metis+
        have "published_in (view s3) f valid dest p body mb" if "e2 = None" "e3 = None"
        proof -
          have b: "view s3 ?bk = Some (JSONContentType, body)" using p1'(3)[OF that(1)] p2'(2) good(1) by (simp add: extends_def)
          obtain t schema key where sch: "blobKey (dt_schema dest) = Inr key" "view s key = Some (t, schema)" "is_canonical f schema"
            "DigestBytes schema = dt_schema dest" "valid schema body" using v1(3)[OF e1] by blast
          have "good key" using sch(1) blob_of_ref[OF d(2)] keys d(2) by (auto simp: publishes_good_def)
          then have "view s3 key = Some (t, schema)" using sch(2) ext(1) by (simp add: extends_def)
          then show ?thesis using None b p2'(3)[OF that(2)] Inr sch v1(3)[OF e1] by (auto simp: published_in_def)
        qed
        then show ?thesis
          using pub run ext p1' p2' v1(2) by (cases e2; cases e3) auto
      qed
    qed
  qed
  then show "inv s'" "extends good (view s) (view s')"
    "r = Inr a \<Longrightarrow> \<exists>mb. published_in (view s') f valid dest p body mb \<and> a = published_ref dest body mb"
    by auto
qed

lemma resolve_step:
  assumes s: "inv s" and keys: "publishes_good good ctype" and res: "ResolveJSON ds f valid dest p s = (r, s')"
  shows "inv s'" "view s' = view s" and "r = Inr (a, body) \<Longrightarrow> resolved_in (view s) f valid dest p a body"
proof -
  have "inv s' \<and> view s' = view s \<and> (\<forall>a body. r = Inr (a, body) \<longrightarrow> resolved_in (view s) f valid dest p a body)"
  proof (cases "ValidateDestination dest p")
    case (Some e)
    then show ?thesis using res s by (auto simp: ResolveJSON_def)
  next
    case None
    note d = destination_parts[OF None]
    have good: "good (dt_manifestKey dest)" using keys d by (auto simp: publishes_good_def)
    obtain x1 s1 where g: "ds_get ds (dt_manifestKey dest) s = (x1, s1)" by (cases "ds_get ds (dt_manifestKey dest) s")
    note g1 = get_step[OF s good g]
    show ?thesis
    proof (cases "\<exists>mb m. x1 = Inr (ManifestContentType, mb) \<and> is_canonical f mb \<and> decode_manifest mb = Some m
        \<and> sameProducer (am_producer m) p \<and> am_schema m = dt_schema dest \<and> blobKey (ref_hash (am_body m)) = Inr (ref_key (am_body m))")
      case False
      then show ?thesis
        using res None g g1 by (auto simp: ResolveJSON_def split: sum.splits option.splits if_splits)
    next
      case True
      then obtain mb m where m: "x1 = Inr (ManifestContentType, mb)" "is_canonical f mb" "decode_manifest mb = Some m"
        "sameProducer (am_producer m) p" "am_schema m = dt_schema dest" "blobKey (ref_hash (am_body m)) = Inr (ref_key (am_body m))" by blast
      have ref: "isHashRef (ref_hash (am_body m))" using decoded_hash[OF m(3)] by simp
      then have gk: "good (ref_key (am_body m))" using m(6) blob_of_ref[OF ref] keys by (auto simp: publishes_good_def)
      obtain x2 s2 where h: "ds_get ds (ref_key (am_body m)) s1 = (x2, s2)" by (cases "ds_get ds (ref_key (am_body m)) s1")
      note h1 = get_step[OF g1(1) gk h]
      have run: "ResolveJSON ds f valid dest p s = (case x2 of Inl _ \<Rightarrow> (Inl (ArtIntegrity ''read manifest body''), s2)
          | Inr (bt, body) \<Rightarrow>
              if bt \<noteq> JSONContentType \<or> int (length body) \<noteq> ref_size (am_body m) \<or> DigestBytes body \<noteq> ref_hash (am_body m)
              then (Inl (ArtIntegrity ''body does not match its manifest''), s2)
              else (case validateCanonicalJSON ds f valid (dt_schema dest) body s2 of
                  (Some _, s3) \<Rightarrow> (Inl (ArtIntegrity ''body''), s3)
                | (None, s3) \<Rightarrow> (Inr (\<lparr>pub_manifest = \<lparr>ref_key = dt_manifestKey dest, ref_hash = DigestBytes mb,
                    ref_size = int (length mb), ref_contentType = ManifestContentType\<rparr>, pub_body = am_body m, pub_schema = dt_schema dest\<rparr>, body), s3)))"
        unfolding ResolveJSON_def None g m(1) using m(2-6) h by (auto split: sum.splits prod.splits option.splits)
      show ?thesis
      proof (cases x2)
        case (Inl e)
        then show ?thesis using res run g1 h1 by auto
      next
        case (Inr obj)
        obtain bt b where obj: "obj = (bt, b)" by (cases obj)
        obtain e3 s3 where v: "validateCanonicalJSON ds f valid (dt_schema dest) b s2 = (e3, s3)"
          by (cases "validateCanonicalJSON ds f valid (dt_schema dest) b s2")
        note v1 = validate_step[OF h1(1) keys d(2) v]
        have bd: "view s (ref_key (am_body m)) = Some (bt, b)" using h1(3) Inr obj g1(2) by simp
        have mv: "view s (dt_manifestKey dest) = Some (ManifestContentType, mb)" using g1(3) m(1) by simp
        have sc: "e3 = None \<Longrightarrow> is_canonical f b \<and> schema_holds (view s) f valid (dt_schema dest) b"
          using v1(3) h1(2) g1(2) by (simp add: schema_holds_def)
        have "resolved_in (view s) f valid dest p (\<lparr>pub_manifest = \<lparr>ref_key = dt_manifestKey dest, ref_hash = DigestBytes mb,
                    ref_size = int (length mb), ref_contentType = ManifestContentType\<rparr>, pub_body = am_body m, pub_schema = dt_schema dest\<rparr>) b"
          if "bt = JSONContentType" "int (length b) = ref_size (am_body m)" "DigestBytes b = ref_hash (am_body m)" "e3 = None"
          using that None mv m(2-6) bd sc[OF that(4)] by (auto simp: resolved_in_def same_producer)
        then show ?thesis
          using res run Inr obj v v1 h1 g1 by (cases e3) (auto split: if_splits)
      qed
    qed
  qed
  then show "inv s'" "view s' = view s" "r = Inr (a, body) \<Longrightarrow> resolved_in (view s) f valid dest p a body" by auto
qed

end

context live_store
begin

lemma live_get:
  assumes "inv s" "good k" "calm s" "view s k = Some obj"
  obtains s' where "ds_get ds k s = (Inr obj, s')" "inv s'" "calm s'" "view s' = view s"
proof -
  obtain r s' where g: "ds_get ds k s = (r, s')" by (cases "ds_get ds k s")
  then show ?thesis
    using that get_live[OF assms] get_calm[OF assms(1-3)] get_step(1,2)[OF assms(1,2) g] by simp
qed

lemma resolve_live:
  assumes "inv s" "calm s" "publishes_good good ctype" and res: "resolved_in (view s) f valid dest p a body"
  shows "fst (ResolveJSON ds f valid dest p s) = Inr (a, body)"
proof -
  note R = res[unfolded resolved_in_def schema_holds_def]
  have None: "ValidateDestination dest p = None" using R by simp
  note d = destination_parts[OF None]
  obtain mb m where m: "view s (dt_manifestKey dest) = Some (ManifestContentType, mb)" "is_canonical f mb" "decode_manifest mb = Some m"
    "am_producer m = p" "am_schema m = dt_schema dest" "pub_body a = am_body m" "blobKey (ref_hash (am_body m)) = Inr (ref_key (am_body m))"
    "pub_manifest a = \<lparr>ref_key = dt_manifestKey dest, ref_hash = DigestBytes mb, ref_size = int (length mb), ref_contentType = ManifestContentType\<rparr>"
    using R by blast
  obtain t schema key where sch: "blobKey (dt_schema dest) = Inr key" "view s key = Some (t, schema)" "is_canonical f schema"
    "DigestBytes schema = dt_schema dest" "valid schema body" using R by blast
  have good: "good (dt_manifestKey dest)" "good (ref_key (am_body m))" "good key"
    using assms(3) d decoded_hash[OF m(3)] m(7) blob_of_ref[of "ref_hash (am_body m)"] sch(1) blob_of_ref[OF d(2)]
    by (auto simp: publishes_good_def)
  obtain s1 where s1: "ds_get ds (dt_manifestKey dest) s = (Inr (ManifestContentType, mb), s1)" "inv s1" "calm s1" "view s1 = view s"
    by (rule live_get[OF assms(1) good(1) assms(2) m(1)])
  have "view s1 (ref_key (am_body m)) = Some (JSONContentType, body)" using R m(6) s1(4) by simp
  then obtain s2 where s2: "ds_get ds (ref_key (am_body m)) s1 = (Inr (JSONContentType, body), s2)" "inv s2" "calm s2" "view s2 = view s"
    using live_get[OF s1(2) good(2) s1(3)] s1(4) by metis
  have "view s2 key = Some (t, schema)" using sch(2) s2(4) by simp
  then obtain s3 where s3: "ds_get ds key s2 = (Inr (t, schema), s3)"
    using live_get[OF s2(2) good(3) s2(3)] by metis
  have "validateCanonicalJSON ds f valid (dt_schema dest) body s2 = (None, s3)"
    using R sch s3 by (simp add: validateCanonicalJSON_def)
  then show ?thesis
    using None s1 s2 m R by (auto simp: ResolveJSON_def same_producer intro!: PublishedArtifact.equality)
qed

end

section \<open>Publication over the local store\<close>

definition plain_text :: "string \<Rightarrow> bool" where
  "plain_text v = (\<forall>c \<in> set v. 0 < byte c \<and> byte c < 128)"

lemma plain_text_append [simp]: "plain_text (a @ b) \<longleftrightarrow> plain_text a \<and> plain_text b"
  by (auto simp: plain_text_def)

lemma plain_text_Cons [simp]: "plain_text []" "plain_text (c # v) \<longleftrightarrow> 0 < byte c \<and> byte c < 128 \<and> plain_text v"
  by (auto simp: plain_text_def)

lemma plain_texts:
  "isSafePathSegment v \<Longrightarrow> plain_text v" "list_all is_lower_hex v \<Longrightarrow> plain_text v" "list_all is_digit v \<Longrightarrow> plain_text v"
  by (auto simp: plain_text_def isSafePathSegment_def list_all_iff segment_char_def is_letter_def is_lower_hex_def is_digit_def split: if_splits)

lemma local_key_text:
  assumes "plain_text (a @ slash # b @ slash # c)" "slash \<notin> set a" "slash \<notin> set c" "a \<noteq> localMetadataDirName" "\<not> has_prefix c ''.tmp-''"
  shows "local_key (a @ slash # b @ slash # c)"
proof -
  have "last (split_on slash (x @ slash # c)) = c \<and> tl (split_on slash (x @ slash # c)) \<noteq> []" for x
    using assms(3) by (induction x) (auto simp: split_on_no_sep split: list.split)
  from this[of b] have "last (split_on slash (a @ slash # b @ slash # c)) = c"
    by (simp add: split_on_append assms(2))
  moreover have "valid_utf8 (a @ slash # b @ slash # c)" "CHR 0x00 \<notin> set (a @ slash # b @ slash # c)"
    using assms(1) by (force simp: plain_text_def intro!: valid_utf8_ascii)+
  ultimately show ?thesis using assms(2,4,5) by (simp add: local_key_def split_on_append)
qed

lemma local_blob: "isHashRef h \<Longrightarrow> local_key (''blobs/sha256/'' @ drop 7 h)"
proof -
  assume h: "isHashRef h"
  then have x: "list_all is_lower_hex (drop 7 h)" "drop 7 h \<noteq> []" by (auto simp: isHashRef_def isLowerHex_def)
  have "slash \<notin> set (drop 7 h)" "CHR ''.'' \<notin> set (drop 7 h)" using x(1) by (auto simp: list_all_iff is_lower_hex_def)
  then show ?thesis
    using local_key_text[of "''blobs''" "''sha256''" "drop 7 h"] plain_texts(2)[OF x(1)] x(2)
    by (cases "drop 7 h") (auto simp: localMetadataDirName_def has_prefix_def)
qed

lemma scope_plain_text: "(\<And>fs. scope = Some fs \<Longrightarrow> list_all valid_frame fs) \<Longrightarrow> plain_text (scope_path scope)"
proof (cases scope)
  case (Some fs)
  assume "\<And>fs. scope = Some fs \<Longrightarrow> list_all valid_frame fs"
  then have "list_all valid_frame fs" using Some by simp
  then have "plain_text (concat (map (\<lambda>f. ''/maps/'' @ sf_map f @ ''/items/'' @ dec_int (sf_index f)) fs))"
  proof (induction fs)
    case (Cons fr fs)
    then have "plain_text (sf_map fr)" "plain_text (dec_int (sf_index fr))" using plain_texts(1,3) safe_int(3) by (auto simp: valid_frame_def)
    then show ?case using Cons by simp
  qed simp
  then show ?thesis using Some by (simp add: scope_path_def)
qed (simp add: scope_path_def)

lemma local_publishes: "publishes_good local_key plain_type"
proof -
  have "local_key k" if p: "valid_producer p" and k: "outputManifestKey p = Inr k" for p k
  proof -
    note v = valid_producerD[OF p]
    define mid where "mid = pr_projectKey p @ ''/runs/'' @ pr_runID p @ ''/steps/'' @ pr_nodeID p @ scope_path (pr_scope p) @ ''/'' @ dec_int (pr_attempt p)"
    have "pr_projectKey p = ''sha256-'' @ drop 7 (pr_projectKey p)"
      using v(1) append_take_drop_id[of 7 "pr_projectKey p"] by (simp only: isSafeProjectKey_def has_prefix_def) (simp add: numeral_eq_Suc)
    moreover have "plain_text (''sha256-'' @ drop 7 (pr_projectKey p))"
      using v(1) plain_texts(2)[of "drop 7 (pr_projectKey p)"] by (simp add: isSafeProjectKey_def isLowerHex_def)
    ultimately have "plain_text (pr_projectKey p)" by (simp only:)
    then have "plain_text mid"
      using plain_texts(1)[OF v(3)] plain_texts(1)[OF v(4)] scope_plain_text[of "pr_scope p"] v(7) plain_texts(3)[OF safe_int(3)] v(5,6)
      by (simp add: mid_def)
    moreover have "k = ''projects'' @ slash # mid @ slash # ''output-manifest.json''"
      using k by (auto simp: manifest_key ParseKey_Inr mid_def)
    ultimately show ?thesis
      by (simp only:) (rule local_key_text, auto simp: localMetadataDirName_def has_prefix_def)
  qed
  moreover have "plain_type JSONContentType" "plain_type ManifestContentType"
    by (auto simp: plain_type_def JSONContentType_def ManifestContentType_def valid_utf8_ascii runes_ascii)
  ultimately show ?thesis unfolding publishes_good_def using local_blob by blast
qed

text \<open>On a calm disk with room for its two objects a publication goes through, unless two keys share a metadata name.\<close>

lemma publish_live:
  assumes s: "disk_inv s" "calm_disk s" and f: "number_codec f" "exact_printer f" and size: "int (length body) \<le> MaxJSONSafeInteger"
    and dest: "ValidateDestination dest p = None" and body: "is_canonical f body" "schema_holds (on_disk s) f valid (dt_schema dest) body"
    and room: "room (''blobs/sha256/'' @ drop 7 (DigestBytes body)) (dk_nodes s)" "room (dt_manifestKey dest) (dk_nodes s)"
    and apart: "metadataPath (dt_manifestKey dest) \<noteq> metadataPath (''blobs/sha256/'' @ drop 7 (DigestBytes body))"
  shows "\<exists>a s'. PublishJSON local_store f valid dest p body s = (Inr a, s') \<and> calm_disk s'"
proof -
  let ?bk = "''blobs/sha256/'' @ drop 7 (DigestBytes body)" and ?mk = "dt_manifestKey dest"
  note d = destination_parts[OF dest]
  note keys = local_publishes[unfolded publishes_good_def]
  have good: "local_key ?bk" "local_key ?mk" "plain_type JSONContentType" "plain_type ManifestContentType"
    using keys d digest_is_ref[of body] by auto
  obtain t schema key where sch: "blobKey (dt_schema dest) = Inr key" "on_disk s key = Some (t, schema)" "is_canonical f schema"
    "DigestBytes schema = dt_schema dest" "valid schema body" using body(2) unfolding schema_holds_def by blast
  have "local_key key" using sch(1) blob_of_ref[OF d(2)] keys d(2) by auto
  then obtain s1 where s1: "ds_get local_store key s = (Inr (t, schema), s1)" "calm_disk s1"
    by (rule local.live_get[OF s(1) _ s(2) sch(2)])
  have n1: "dk_nodes s1 = dk_nodes s" using s1(1) get_quiet[of key s] by (simp add: local_store_def)
  have v: "validateCanonicalJSON local_store f valid (dt_schema dest) body s = (None, s1)"
    using body(1) sch s1(1) by (simp add: validateCanonicalJSON_def)
  define m where "m = \<lparr>am_producer = p, am_schema = dt_schema dest, am_body = \<lparr>ref_key = ?bk, ref_hash = DigestBytes body,
      ref_size = int (length body), ref_contentType = JSONContentType\<rparr>\<rparr>"
  have "manifest_ok m" using d size digest_is_ref[of body] by (simp add: manifest_ok_def m_def)
  then obtain mb where mb: "canonicalManifest f m = Inr mb" using manifest_bytes(1)[OF f] by blast
  obtain s2 where s2: "ds_put_new local_store ?bk body JSONContentType s1 = (None, s2)" "calm_disk s2"
    "dk_nodes s2 = stored ?bk JSONContentType body (dk_nodes s1)"
    using room(1) by (rule_tac put_live[OF good(1,3) s1(2)]) (auto simp: n1)
  obtain mid where mk: "?mk = ''projects'' @ slash # mid" "slash \<in> set mid"
    using d(3) by (auto simp: manifest_key ParseKey_Inr)
  have "hd (split_on slash ?mk) = ''projects''" "hd (split_on slash ?bk) = ''blobs''"
    "butlast (split_on slash ?mk) \<noteq> []"
    using split_on_append[of slash "''projects''" mid] split_on_append[of slash "''blobs''" "''sha256/'' @ drop 7 (DigestBytes body)"]
    by (simp_all add: mk(1))
  then have "room ?mk (dk_nodes s2)"
    unfolding s2(3) n1 by (intro room_elsewhere good apart room(2)) simp_all
  then obtain s3 where s3: "ds_put_new local_store ?mk mb ManifestContentType s2 = (None, s3)" "calm_disk s3"
    by (rule put_live[OF good(2,4) s2(2)])
  have p1: "putImmutable local_store ?bk body JSONContentType ArtBodyConflict s1 = (None, s2)"
    by (simp only: putImmutable_def s2(1) prod.case option.case)
  have p2: "putImmutable local_store ?mk mb ManifestContentType ArtManifestConflict s2 = (None, s3)"
    by (simp only: putImmutable_def s3(1) prod.case option.case)
  show ?thesis
    unfolding PublishJSON_def dest option.case v prod.case Let_def digest_blob sum.case mb[unfolded m_def] p1 p2
    using s3(2) by simp
qed

subsection \<open>An example\<close>

lemma print_integer_exact: "exact_printer print_integer"
  unfolding exact_printer_def
proof (intro allI impI)
  fix n :: int
  assume n: "0 \<le> n" "n \<le> MaxJSONSafeInteger"
  have dec: "dec_int n = dec_nat (nat n)" using n(1) by (simp add: dec_int_def)
  obtain d where d: "ParseFloat (dec_int n) = Some d" "print_integer d = Some (dec_int n)"
  proof (cases "nat n = 0")
    case True
    then show ?thesis
      using that ParseFloat_dec(1)[of 0] by (simp add: dec float_of_ratio_def print_integer_def dec_nat.simps digit_char_def char_of_def bit_0)
  next
    case False
    then have b: "0 < nat n" "nat n < 2 ^ 53" using n by (auto simp: MaxJSONSafeInteger_def)
    then show ?thesis
      using that ParseFloat_dec(1)[of "nat n"] float_of_integer[OF b, of False] print_integer_of[OF b, of False] by (simp add: dec)
  qed
  then show "\<exists>d. decode_number print_integer (dec_int n) = Inr d \<and> print_integer d = Some (dec_int n)"
    by (simp add: decode_number_def)
qed

text \<open>A calm disk that holds the schema \<^verbatim>\<open>true\<close>, and the output of a node \<open>n\<close> of a run \<open>r\<close>.\<close>

definition schema_key :: string where
  "schema_key = ''blobs/sha256/'' @ drop 7 (DigestBytes ''true'')"

definition example_producer :: Producer where
  "example_producer = \<lparr>pr_projectKey = NormalizeProjectKey ''p'', pr_planHash = DigestBytes ''plan'', pr_runID = ''r'', pr_nodeID = ''n'',
     pr_attempt = 1, pr_scope = None\<rparr>"

definition example_destination :: Destination where
  "example_destination =
     \<lparr>dt_manifestKey = join_with [slash] (run_segments (NormalizeProjectKey ''p'') ''r'' @ output_segments ''n'' None 1),
      dt_schema = DigestBytes ''true''\<rparr>"

definition schema_disk :: disk where
  "schema_disk = \<lparr>dk_nodes = stored schema_key JSONContentType ''true'' Map.empty, dk_faults = [], dk_ended = [], dk_uuids = [], dk_past = []\<rparr>"

definition example_blob :: string where
  "example_blob = ''blobs/sha256/'' @ drop 7 (DigestBytes ''1'')"

text \<open>The names that a collision of SHA-256 would merge.\<close>

definition names_collide :: bool where
  "names_collide =
     (schema_key = example_blob \<or> metadataPath schema_key = metadataPath example_blob
      \<or> metadataPath (dt_manifestKey example_destination) = metadataPath schema_key
      \<or> metadataPath (dt_manifestKey example_destination) = metadataPath example_blob)"

lemma example_valid: "ValidateDestination example_destination example_producer = None"
proof -
  have seg: "ValidSafePathSegment ''r''" "ValidSafePathSegment ''n''"
    by (simp_all add: ValidSafePathSegment_def segment_char_def is_letter_def ParseKey_def has_prefix_def
      isWindowsAbs_def bad_segment_def path_Clean_def Let_def)
  have "runOutputManifestKey (NormalizeProjectKey ''p'') ''r'' ''n'' None 1 = Some (dt_manifestKey example_destination)"
    using runOutputManifestKey_text[OF seg, of None "''p''" 1] by (simp add: item_scope_def example_destination_def)
  then have key: "outputManifestKey example_producer = Inr (dt_manifestKey example_destination)"
    by (simp add: runOutputManifestKey_def MustKey_def manifest_key example_producer_def split: sum.splits)
  have "isSafeProjectKey (NormalizeProjectKey ''p'')"
    by (simp add: isSafeProjectKey_def isLowerHex_def NormalizeProjectKey_def Let_def has_prefix_def Sum256_hex_form)
  then have "validateProducerIdentity example_producer = None"
    using digest_is_ref seg by (simp add: validateProducerIdentity_def example_producer_def ValidateExecutionScope_def safe_segment MaxJSONSafeInteger_def)
  then show ?thesis using key digest_is_ref by (simp add: ValidateDestination_def example_destination_def)
qed

lemma schema_key_split: "split_on slash schema_key = [''blobs'', ''sha256'', drop 7 (DigestBytes ''true'')]"
    "split_on slash example_blob = [''blobs'', ''sha256'', drop 7 (DigestBytes ''1'')]"
proof -
  have "slash \<notin> set (drop 7 (DigestBytes x))" for x
    using digest_is_ref[of x] by (auto simp: isHashRef_def isLowerHex_def list_all_iff is_lower_hex_def)
  then show "split_on slash schema_key = [''blobs'', ''sha256'', drop 7 (DigestBytes ''true'')]"
    "split_on slash example_blob = [''blobs'', ''sha256'', drop 7 (DigestBytes ''1'')]"
    by (simp_all add: schema_key_def example_blob_def split_on_no_sep)
qed

lemma schema_local: "local_key schema_key" "local_key example_blob" "local_key (dt_manifestKey example_destination)" "plain_type JSONContentType"
  using local_publishes[unfolded publishes_good_def] digest_is_ref destination_parts[OF example_valid] by (auto simp: schema_key_def example_blob_def)

lemma empty_room: "room k Map.empty"
  by (simp add: room_def no_temps_def way_free_def)

lemma schema_disk: "disk_inv schema_disk" "calm_disk schema_disk" "on_disk schema_disk schema_key = Some (JSONContentType, ''true'')"
proof -
  define s0 where "s0 = schema_disk\<lparr>dk_nodes := Map.empty\<rparr>"
  have s0: "disk_inv s0" "calm_disk s0" "room schema_key (dk_nodes s0)"
    using empty_room by (simp_all add: s0_def schema_disk_def disk_inv_def nodes_inv_def rooted_def calm_disk_def)
  obtain s1 where s1: "ds_put_new local_store schema_key ''true'' JSONContentType s0 = (None, s1)" "dk_nodes s1 = dk_nodes schema_disk"
    using put_live[OF schema_local(1,4) s0(2,3)] by (metis disk.select_convs(1) disk.surjective disk.update_convs(1) s0_def schema_disk_def)
  have "disk_inv s1" using local_objects.put_inv[OF s0(1) schema_local(1,4), of "''true''"] s1(1) by simp
  then show "disk_inv schema_disk" using s1(2) by (simp add: disk_inv_def)
  have "on_disk s1 schema_key = Some (JSONContentType, ''true'')"
    using local_objects.put_ok[OF s0(1) schema_local(1,4), of "''true''"] s1(1) by simp
  then show "on_disk schema_disk schema_key = Some (JSONContentType, ''true'')" using s1(2) by (simp add: on_disk_def)
  show "calm_disk schema_disk" by (simp add: schema_disk_def calm_disk_def)
qed

lemma example_docs: "is_canonical print_integer ''1''" "is_canonical print_integer ''true''"
  using pair_canonical by (simp_all add: is_canonical_def)

lemma example_schema: "schema_holds (on_disk schema_disk) print_integer (\<lambda>_ _. True) (dt_schema example_destination) ''1''"
  using schema_disk(3) example_docs(2) digest_blob[of "''true''"] unfolding schema_holds_def example_destination_def
  by (auto simp: schema_key_def)

lemma example_key_segments:
  "hd (split_on slash (dt_manifestKey example_destination)) = ''projects''" "butlast (split_on slash (dt_manifestKey example_destination)) \<noteq> []"
  by (simp_all add: example_destination_def run_segments_def output_segments_def scope_segments_def split_on_append)

lemma distinct_namesD:
  assumes "\<not> names_collide"
  shows "schema_key \<noteq> example_blob" "metadataPath schema_key \<noteq> metadataPath example_blob"
    "metadataPath (dt_manifestKey example_destination) \<noteq> metadataPath schema_key"
    "metadataPath (dt_manifestKey example_destination) \<noteq> metadataPath example_blob"
  using assms unfolding names_collide_def by blast+

lemma at_most_two: "(\<exists>i \<le> Suc (Suc 0). P i) \<longleftrightarrow> P 0 \<or> P 1 \<or> P 2" "(\<forall>i \<le> Suc (Suc 0). P i) \<longleftrightarrow> P 0 \<and> P 1 \<and> P 2"
  by (auto simp: le_Suc_eq numeral_2_eq_2)

lemma two_dirs:
  "with_dirs [a, b] n = n([] \<mapsto> Dir, [a] \<mapsto> Dir, [a, b] \<mapsto> Dir)"
  "way_free [a, b] n \<longleftrightarrow> n [] \<in> {None, Some Dir} \<and> n [a] \<in> {None, Some Dir} \<and> n [a, b] \<in> {None, Some Dir}"
  unfolding with_dirs_def way_free_def fun_eq_iff list.size add_0 add_Suc_right plus_nat.add_0 by (simp_all add: at_most_two)

lemma stored_alone:
  assumes "split_on slash k = [a, b, c]"
  shows "stored k t x Map.empty q = (if q = split_on slash k then Some (File x)
     else if q = metadataPath k then Some (File (encode_metadata t))
     else if q \<in> {[], [localMetadataDirName], [a], [a, b]} then Some Dir else None)"
proof -
  have "with_dirs [localMetadataDirName] (with_dirs [a, b] Map.empty) q
      = (if q \<in> {[], [localMetadataDirName], [a], [a, b]} then Some Dir else None)"
    unfolding with_dirs_single two_dirs(1) by simp
  then show ?thesis unfolding stored_def assms by simp
qed

lemma schema_nodes:
  "dk_nodes schema_disk q = (if q = split_on slash schema_key then Some (File ''true'')
     else if q = metadataPath schema_key then Some (File (encode_metadata JSONContentType))
     else if q \<in> {[], [localMetadataDirName], [''blobs''], [''blobs'', ''sha256'']} then Some Dir else None)"
  unfolding schema_disk_def disk.simps by (rule stored_alone[OF schema_key_split(1)])

lemma example_rooms:
  assumes "\<not> names_collide"
  shows "room example_blob (dk_nodes schema_disk)" "room (dt_manifestKey example_destination) (dk_nodes schema_disk)"
proof -
  note d = distinct_namesD[OF assms]
  have "hd (split_on slash schema_key) = ''blobs''" by (simp add: schema_key_split)
  then show "room (dt_manifestKey example_destination) (dk_nodes schema_disk)"
    unfolding schema_disk_def disk.simps
    by (intro room_elsewhere schema_local empty_room d(3)) (simp_all add: example_key_segments)
  have ne: "split_on slash example_blob \<noteq> split_on slash schema_key" using d(1) split_inject by metis
  have long: "length (split_on slash example_blob) = 3" "length (temp_body (split_on slash example_blob) u) = 3" for u
    by (simp_all add: schema_key_split temp_body_def)
  have tb: "temp_body (split_on slash example_blob) u \<noteq> split_on slash schema_key" for u
    using temp_body_scratch(1)[OF schema_local(2), of u] schema_local(1) unfolding scratch_def by blast
  have mp: "metadataPath example_blob \<noteq> metadataPath schema_key" "temp_metadata example_blob u \<noteq> metadataPath schema_key" for u
    using d(2) temp_metadata_scratch[of example_blob u] unfolding scratch_def by auto
  have short: "length p = 3 \<Longrightarrow> p \<notin> {metadataPath k, [], [localMetadataDirName], [''blobs''], [''blobs'', ''sha256'']}" for p k
    by (auto simp: metadataPath_def)
  have meta: "localMetadataDirName # p \<noteq> split_on slash schema_key" "[localMetadataDirName, x] \<notin> {[], [localMetadataDirName], [''blobs''], [''blobs'', ''sha256'']}" for p x
    by (auto simp: schema_key_split localMetadataDirName_def)
  have "dk_nodes schema_disk (split_on slash example_blob) = None"
    "dk_nodes schema_disk (temp_body (split_on slash example_blob) u) = None" for u
    using ne short[OF long(1), of schema_key] short[OF long(2), of u schema_key] tb by (simp_all add: schema_nodes)
  moreover have "dk_nodes schema_disk (metadataPath example_blob) = None" "dk_nodes schema_disk (temp_metadata example_blob u) = None" for u
    using mp meta by (simp_all add: schema_nodes) (simp_all add: metadataPath_def temp_metadata_def)
  moreover have "way_free (butlast (split_on slash example_blob)) (dk_nodes schema_disk)"
    by (simp add: two_dirs schema_nodes schema_key_split) (simp add: metadataPath_def)
  moreover have "dk_nodes schema_disk [localMetadataDirName] = Some Dir"
    using meta(1)[of "[]"] by (simp add: schema_nodes metadataPath_def)
  ultimately show "room example_blob (dk_nodes schema_disk)" by (simp add: room_def no_temps_def)
qed

lemma example_published:
  assumes "\<not> names_collide"
  obtains a s' where "PublishJSON local_store print_integer (\<lambda>_ _. True) example_destination example_producer ''1'' schema_disk = (Inr a, s')"
    "calm_disk s'" "disk_inv s'" "fst (ResolveJSON local_store print_integer (\<lambda>_ _. True) example_destination example_producer s') = Inr (a, ''1'')"
proof -
  obtain a s' where pub: "PublishJSON local_store print_integer (\<lambda>_ _. True) example_destination example_producer ''1'' schema_disk = (Inr a, s')"
    and calm: "calm_disk s'"
    using publish_live[OF schema_disk(1,2) print_integer_codec print_integer_exact _ example_valid example_docs(1) example_schema]
      example_rooms[OF assms] distinct_namesD(4)[OF assms] by (auto simp: example_blob_def MaxJSONSafeInteger_def)
  note step = local_objects.publish_step[OF schema_disk(1) local_publishes pub]
  have "resolved_in (on_disk s') print_integer (\<lambda>_ _. True) example_destination example_producer a ''1''"
    using step(3) published_resolved[OF print_integer_codec print_integer_exact] by (auto simp: MaxJSONSafeInteger_def)
  then show ?thesis using that pub calm step(1) local.resolve_live[OF step(1) calm local_publishes] by blast
qed

lemma fst_pair: "fst x = y \<Longrightarrow> x = (y, snd x)"
  by (cases x) simp

lemma one_size: "int (length ''1'') \<le> MaxJSONSafeInteger"
  by (simp add: MaxJSONSafeInteger_def)

section \<open>Properties\<close>

text \<open>
  C24. A publication completes: on a calm disk that holds the schema and has room for the body and the
  manifest, publishing canonical bytes that satisfy the schema succeeds, unless SHA-256 gives the metadata
  records of the two keys one name.
\<close>

theorem PublishJSON_completes:
  assumes "disk_inv s" "calm_disk s" "number_codec f" "exact_printer f" "int (length body) \<le> MaxJSONSafeInteger"
    and "ValidateDestination dest p = None" "is_canonical f body" "schema_holds (on_disk s) f valid (dt_schema dest) body"
    and "room (''blobs/sha256/'' @ drop 7 (DigestBytes body)) (dk_nodes s)" "room (dt_manifestKey dest) (dk_nodes s)"
  shows "metadataPath (dt_manifestKey dest) = metadataPath (''blobs/sha256/'' @ drop 7 (DigestBytes body))
    \<or> (\<exists>a s'. PublishJSON local_store f valid dest p body s = (Inr a, s'))"
  using publish_live[OF assms] by blast

theorem PublishJSON_completes_witness:
  "names_collide
    \<or> (\<exists>a s'. PublishJSON local_store print_integer (\<lambda>_ _. True) example_destination example_producer ''1'' schema_disk = (Inr a, s'))"
proof (cases names_collide)
  case False
  have "room (''blobs/sha256/'' @ drop 7 (DigestBytes ''1'')) (dk_nodes schema_disk)"
    using example_rooms(1)[OF False] by (simp only: example_blob_def)
  from PublishJSON_completes[OF schema_disk(1,2) print_integer_codec print_integer_exact one_size example_valid example_docs(1) example_schema this
      example_rooms(2)[OF False]]
  show ?thesis using distinct_namesD(4)[OF False] unfolding example_blob_def by blast
qed simp

text \<open>
  C5. What was published is what is resolved: after a publication that reported success, any later state of
  the local store that kept its objects resolves the output to the reported references and the same bytes.
\<close>

theorem PublishJSON_ResolveJSON:
  assumes "disk_inv s" "number_codec f" "exact_printer f" "int (length body) \<le> MaxJSONSafeInteger"
    and pub: "PublishJSON local_store f valid dest p body s = (Inr a, s')"
    and later: "disk_inv t" "calm_disk t" "extends local_key (on_disk s') (on_disk t)"
  shows "fst (ResolveJSON local_store f valid dest p t) = Inr (a, body)"
proof -
  obtain mb where "published_in (on_disk s') f valid dest p body mb" "a = published_ref dest body mb"
    using local_objects.publish_step(3)[OF assms(1) local_publishes pub] by blast
  then show ?thesis
    using published_resolved[OF assms(2-4)] resolved_mono[OF local_publishes later(3)] local.resolve_live[OF later(1,2) local_publishes] by blast
qed

theorem PublishJSON_ResolveJSON_witness:
  "names_collide \<or> (\<exists>a s'. PublishJSON local_store print_integer (\<lambda>_ _. True) example_destination example_producer ''1'' schema_disk = (Inr a, s')
    \<and> fst (ResolveJSON local_store print_integer (\<lambda>_ _. True) example_destination example_producer s') = Inr (a, ''1''))"
proof (cases names_collide)
  case False
  then obtain a s' where e: "PublishJSON local_store print_integer (\<lambda>_ _. True) example_destination example_producer ''1'' schema_disk = (Inr a, s')"
    "calm_disk s'" "disk_inv s'" by (rule example_published)
  have "extends local_key (on_disk s') (on_disk s')" by (simp add: extends_def)
  from PublishJSON_ResolveJSON[OF schema_disk(1) print_integer_codec print_integer_exact one_size e(1,3,2) this] e(1)
  show ?thesis by blast
qed simp

text \<open>
  C8. A resolved artifact is verified: resolution succeeds only with the canonical bytes stored under the
  reference of a canonical manifest at the destination, whose producer and schema are the expected ones,
  whose digest and size they have, and they satisfy the stored schema.
\<close>

theorem ResolveJSON_verified:
  assumes "disk_inv s" "ResolveJSON local_store f valid dest p s = (Inr (a, body), s')"
  shows "resolved_in (on_disk s) f valid dest p a body \<and> on_disk s' = on_disk s"
  using local_objects.resolve_step[OF assms(1) local_publishes assms(2)] by auto

theorem ResolveJSON_verified_witness:
  "names_collide \<or> (\<exists>a s s'. ResolveJSON local_store print_integer (\<lambda>_ _. True) example_destination example_producer s = (Inr (a, ''1''), s')
    \<and> resolved_in (on_disk s) print_integer (\<lambda>_ _. True) example_destination example_producer a ''1'')"
proof (cases names_collide)
  case False
  then obtain a s where e: "disk_inv s" "fst (ResolveJSON local_store print_integer (\<lambda>_ _. True) example_destination example_producer s) = Inr (a, ''1'')"
    by (rule example_published)
  then obtain s' where r: "ResolveJSON local_store print_integer (\<lambda>_ _. True) example_destination example_producer s = (Inr (a, ''1''), s')"
    by (cases "ResolveJSON local_store print_integer (\<lambda>_ _. True) example_destination example_producer s") simp
  from ResolveJSON_verified[OF e(1) r] r show ?thesis by blast
qed simp

text \<open>
  C7. Published artifacts are immutable: whatever is published next, whether it succeeds or fails at any
  step, an output that resolved before resolves to the same references and bytes afterwards.
\<close>

theorem PublishJSON_keeps_artifacts:
  assumes "disk_inv s" "fst (ResolveJSON local_store f valid dest p s) = Inr (a, body)" "calm_disk (snd (PublishJSON local_store g valid' dest' p' body' s))"
  shows "fst (ResolveJSON local_store f valid dest p (snd (PublishJSON local_store g valid' dest' p' body' s))) = Inr (a, body)"
proof -
  obtain r s' where pub: "PublishJSON local_store g valid' dest' p' body' s = (r, s')" by (cases "PublishJSON local_store g valid' dest' p' body' s")
  obtain s1 where res: "ResolveJSON local_store f valid dest p s = (Inr (a, body), s1)"
    using assms(2) by (cases "ResolveJSON local_store f valid dest p s") auto
  note step = local_objects.publish_step[OF assms(1) local_publishes pub]
  have "resolved_in (on_disk s') f valid dest p a body"
    using resolved_mono[OF local_publishes step(2)] local_objects.resolve_step(3)[OF assms(1) local_publishes res] by simp
  then show ?thesis using local.resolve_live[OF step(1) _ local_publishes] assms(3) pub by simp
qed

theorem PublishJSON_keeps_artifacts_witness:
  "names_collide \<or> (\<exists>a s. fst (ResolveJSON local_store print_integer (\<lambda>_ _. True) example_destination example_producer s) = Inr (a, ''1'')
    \<and> fst (ResolveJSON local_store print_integer (\<lambda>_ _. True) example_destination example_producer
        (snd (PublishJSON local_store print_integer (\<lambda>_ _. True) (example_destination\<lparr>dt_schema := []\<rparr>) example_producer ''true'' s))) = Inr (a, ''1''))"
proof (cases names_collide)
  case False
  then obtain a s where e: "calm_disk s" "disk_inv s"
      "fst (ResolveJSON local_store print_integer (\<lambda>_ _. True) example_destination example_producer s) = Inr (a, ''1'')"
    by (rule example_published)
  have "ValidateDestination (example_destination\<lparr>dt_schema := []\<rparr>) example_producer \<noteq> None"
    using example_valid by (auto simp: ValidateDestination_def isHashRef_def split: option.splits)
  then have "snd (PublishJSON local_store print_integer (\<lambda>_ _. True) (example_destination\<lparr>dt_schema := []\<rparr>) example_producer ''true'' s) = s"
    by (auto simp: PublishJSON_def)
  then have "calm_disk (snd (PublishJSON local_store print_integer (\<lambda>_ _. True) (example_destination\<lparr>dt_schema := []\<rparr>) example_producer ''true'' s))"
    using e(1) by simp
  from PublishJSON_keeps_artifacts[OF e(2,3) this] e(3) show ?thesis by blast
qed simp

text \<open>
  C6. An output has a single value: a second publication to the same destination, in any later state of the
  store, succeeds only with the same bytes, and then reports the same references.
\<close>

theorem PublishJSON_single_value:
  assumes "disk_inv s" "number_codec f" "exact_printer f" "int (length body) \<le> MaxJSONSafeInteger" "int (length body') \<le> MaxJSONSafeInteger"
    and first: "PublishJSON local_store f valid dest p body s = (Inr a, s')"
    and later: "disk_inv t" "extends local_key (on_disk s') (on_disk t)"
    and second: "PublishJSON local_store f valid' dest p body' t = (Inr a', t')"
  shows "body' = body \<and> a' = a"
proof -
  note p1 = local_objects.publish_step[OF assms(1) local_publishes first]
  note p2 = local_objects.publish_step[OF later(1) local_publishes second]
  have "resolved_in (on_disk s') f valid dest p a body"
    using p1(3) published_resolved[OF assms(2-4)] by blast
  then have "resolved_in (on_disk t') f valid dest p a body"
    using resolved_mono[OF local_publishes] later(2) p2(2) by blast
  moreover have "resolved_in (on_disk t') f valid' dest p a' body'"
    using p2(3) published_resolved[OF assms(2,3,5)] by blast
  ultimately show ?thesis using resolved_unique by blast
qed

theorem PublishJSON_single_value_witness:
  "names_collide \<or> (\<exists>a s'. PublishJSON local_store print_integer (\<lambda>_ _. True) example_destination example_producer ''1'' schema_disk = (Inr a, s')
    \<and> (\<exists>e. fst (PublishJSON local_store print_integer (\<lambda>_ _. True) example_destination example_producer ''true'' s') = Inl e))"
proof (cases names_collide)
  case False
  then obtain a s' where e: "PublishJSON local_store print_integer (\<lambda>_ _. True) example_destination example_producer ''1'' schema_disk = (Inr a, s')"
    "disk_inv s'" by (rule example_published)
  have ext: "extends local_key (on_disk s') (on_disk s')" by (simp add: extends_def)
  have "False" if "fst (PublishJSON local_store print_integer (\<lambda>_ _. True) example_destination example_producer ''true'' s') = Inr b" for b
  proof -
    from PublishJSON_single_value[OF schema_disk(1) print_integer_codec print_integer_exact one_size _ e(1,2) ext fst_pair[OF that]]
    show False by (simp add: MaxJSONSafeInteger_def)
  qed
  then have "\<exists>e. fst (PublishJSON local_store print_integer (\<lambda>_ _. True) example_destination example_producer ''true'' s') = Inl e"
    by (cases "fst (PublishJSON local_store print_integer (\<lambda>_ _. True) example_destination example_producer ''true'' s')") auto
  then show ?thesis using e(1) by blast
qed simp

text \<open>
  The runtime and the orchestrator agree on where an output is: for a valid producer the key the
  runtime requires is the one the orchestrator derives from the same identity, and it always exists for an
  identity with no scope or with one map item.
\<close>

theorem output_keys_agree:
  assumes "isSafePathSegment r" "isSafePathSegment n" "item_scope scope"
  shows "outputManifestKey \<lparr>pr_projectKey = NormalizeProjectKey project, pr_planHash = h, pr_runID = r, pr_nodeID = n,
      pr_attempt = attempt_no, pr_scope = scope\<rparr> = Inr (the (runOutputManifestKey (NormalizeProjectKey project) r n scope attempt_no))
    \<and> runOutputManifestKey (NormalizeProjectKey project) r n scope attempt_no \<noteq> None"
  using runOutputManifestKey_text[of r n scope project attempt_no] assms
  by (auto simp: runOutputManifestKey_def MustKey_def manifest_key safe_segment split: sum.splits)

theorem output_keys_agree_witness:
  "outputManifestKey \<lparr>pr_projectKey = NormalizeProjectKey ''p'', pr_planHash = [], pr_runID = ''r'', pr_nodeID = ''n'',
      pr_attempt = 2, pr_scope = None\<rparr> = Inr (the (runOutputManifestKey (NormalizeProjectKey ''p'') ''r'' ''n'' None 2))"
  using output_keys_agree[of "''r''" "''n''" None "''p''" "[]" 2]
  by (simp add: isSafePathSegment_def segment_char_def is_letter_def item_scope_def)

end
