(* ===== verification/StepRun.thy ===== *)
theory StepRun
  imports Exec Resolution Artifact
begin

text \<open>
  One step of a run: the retry loop of \<^verbatim>\<open>Run\<close> and the settlement of an invocation
  (\<^verbatim>\<open>internal/orchestrator/orchestrator.go\<close>). Everything outside the process (the store, the clock, the
  invoker and its runners, the artifact runtime, the caller's context) is an \<open>environment\<close>, a record of
  functions on a world of its own, so that any interleaving of their effects is one choice of it.
\<close>

section \<open>The environment\<close>

datatype hook_context = HookLive | HookTimedOut | HookCancelled

record 'w environment =
  en_open :: "string \<Rightarrow> 'w \<Rightarrow> go_error option \<times> 'w"
  en_uuid :: "'w \<Rightarrow> string \<times> 'w"
  en_now :: "'w \<Rightarrow> string \<times> 'w"
  en_ctx :: "'w \<Rightarrow> bool \<times> 'w"
  en_cause :: "'w \<Rightarrow> (string \<times> nat option) option"
  en_put :: "string \<Rightarrow> bytes \<Rightarrow> 'w \<Rightarrow> go_error option \<times> 'w"
  en_create :: "string \<Rightarrow> Manifest \<Rightarrow> 'w \<Rightarrow> (bool \<times> go_error) option \<times> 'w"
  en_write :: "bool \<Rightarrow> string \<Rightarrow> Manifest \<Rightarrow> 'w \<Rightarrow> go_error option \<times> 'w"
  en_invoke :: "StepInvocationDescriptor list \<Rightarrow> int \<Rightarrow> int \<Rightarrow> 'w \<Rightarrow> (StepInvocationOutcome list \<times> go_error option) \<times> 'w"
  en_after :: "bool \<Rightarrow> StepInvocationDescriptor \<Rightarrow> 'w \<Rightarrow> go_error option \<times> 'w"
  en_resolve :: "bool \<Rightarrow> Destination \<Rightarrow> Producer \<Rightarrow> 'w \<Rightarrow> (go_error + PublishedArtifact \<times> bytes) \<times> 'w"
  en_publish :: "Destination \<Rightarrow> Producer \<Rightarrow> bytes \<Rightarrow> 'w \<Rightarrow> go_error option \<times> 'w"
  en_wait :: "int \<Rightarrow> 'w \<Rightarrow> go_error option \<times> 'w"
  en_materialize :: "'w \<Rightarrow> (go_error + (string \<Rightarrow> sourcePackageArtifact option)) \<times> 'w"
  en_hookContext :: "'w \<Rightarrow> hook_context \<times> 'w"
  en_validates :: "string \<Rightarrow> bytes \<Rightarrow> bool"
  en_number :: number_printer
  en_text :: "resolve_error \<Rightarrow> string"

record 'w run_state =
  rn_world :: 'w
  rn_manifest :: Manifest
  rn_log :: "Manifest list"
  rn_resolver :: executionResolver
  rn_dispatched :: "string list"
  rn_active :: string

record run_identity =
  id_planHash :: string
  id_projectKey :: string
  id_runID :: string
  id_manifestKey :: string

section \<open>Effects\<close>

definition io :: "('w \<Rightarrow> 'a \<times> 'w) \<Rightarrow> ('w run_state, 'a) exec" where
  "io f s = (Ok (fst (f (rn_world s))), s\<lparr>rn_world := snd (f (rn_world s))\<rparr>)"

definition journal :: "(Manifest \<Rightarrow> Manifest) \<Rightarrow> ('w run_state, unit) exec" where
  "journal f = modify (\<lambda>s. s\<lparr>rn_manifest := f (rn_manifest s)\<rparr>)"

definition journal_must :: "(Manifest \<Rightarrow> Manifest option) \<Rightarrow> ('w run_state, unit) exec" where
  "journal_must f = bnd (gets (\<lambda>s. f (rn_manifest s))) (\<lambda>x. bnd (must x) (\<lambda>m. journal (\<lambda>_. m)))"

definition set_output :: "string \<Rightarrow> nodeOutput \<Rightarrow> ('w run_state, unit) exec" where
  "set_output node out = modify (\<lambda>s. s\<lparr>rn_resolver := (rn_resolver s)\<lparr>er_outputs := (er_outputs (rn_resolver s))(node \<mapsto> out)\<rparr>\<rparr>)"

definition dispatched :: "string \<Rightarrow> ('w run_state, unit) exec" where
  "dispatched node = modify (\<lambda>s. s\<lparr>rn_dispatched := node # rn_dispatched s\<rparr>)"

definition ctx_Err :: "'w environment \<Rightarrow> ('w run_state, bool) exec" where
  "ctx_Err env = io (en_ctx env)"

text \<open>\<^verbatim>\<open>writeRunManifest\<close>; the log records every journal that is handed to the store.\<close>

definition writeRunManifest :: "'w environment \<Rightarrow> run_identity \<Rightarrow> bool \<Rightarrow> ('w run_state, unit) exec" where
  "writeRunManifest env idn detached =
     bnd (gets rn_manifest) (\<lambda>m.
     bnd (io (en_write env detached (id_manifestKey idn) m)) (\<lambda>e.
     thn (modify (\<lambda>s. s\<lparr>rn_log := rn_log s @ [m]\<rparr>)) (check_err e)))"

section \<open>Settlement\<close>

definition nodeOutputFromPublished :: "PublishedArtifact \<Rightarrow> bytes \<Rightarrow> nodeOutput" where
  "nodeOutputFromPublished p body =
     \<lparr>no_artifact = \<lparr>da_key = ref_key (pub_body p), da_hash = ref_hash (pub_body p), da_contentType = ref_contentType (pub_body p),
        da_schema = pub_schema p\<rparr>, no_published = p, no_body = body\<rparr>"

definition resolveOutputArtifact ::
    "'w environment \<Rightarrow> bool \<Rightarrow> StepInvocationDescriptor \<Rightarrow> executionIndex \<Rightarrow> ('w run_state, nodeOutput) exec" where
  "resolveOutputArtifact env detached d ix =
     (if \<not> ix_schemaRefs ix (ds_outputSchema d) then raise (plain_error ''output schema ref is not present in the plan'')
      else bnd (of_result (\<lambda>_. plain_error ''invalid datastore key'') (ParseKey (ds_outputManifestKey d))) (\<lambda>key.
        bnd (io (en_resolve env detached \<lparr>dt_manifestKey = key, dt_schema = ds_outputSchema d\<rparr>
          \<lparr>pr_projectKey = ds_projectKey d, pr_planHash = ds_planHash d, pr_runID = ds_runID d, pr_nodeID = ds_nodeID d,
           pr_attempt = ds_attempt d, pr_scope = ds_scope d\<rparr>)) (\<lambda>r.
        of_result id (case r of Inl e \<Rightarrow> Inl e | Inr (p, body) \<Rightarrow> Inr (nodeOutputFromPublished p body)))))"

definition settleInvocation ::
    "'w environment \<Rightarrow> StepInvocationDescriptor \<Rightarrow> executionIndex \<Rightarrow> ('w run_state, nodeOutput) exec" where
  "settleInvocation env d ix =
     (let detached = (kind_of (ix_nodes ix) (ds_nodeID d) \<noteq> NodeKindExitHook) in
      bnd (io (en_after env detached d)) (\<lambda>e. thn (check_err e) (resolveOutputArtifact env detached d ix)))"

section \<open>The attempts of a step\<close>

definition descriptor_error_text :: "descriptor_error \<Rightarrow> go_error" where
  "descriptor_error_text e =
     (case e of
        MissingSymbol s \<Rightarrow> plain_error (''missing symbol '' @ s)
      | MissingPackage s \<Rightarrow> plain_error (''missing source package '' @ s)
      | MissingContract s \<Rightarrow> plain_error (''missing execution contract '' @ s)
      | DescriptorPanic \<Rightarrow> plain_error [])"

text \<open>Building a descriptor panics where \<^verbatim>\<open>MustKey\<close> does.\<close>

definition descriptor_exec :: "(descriptor_error, 'a) result \<Rightarrow> ('s, 'a) exec" where
  "descriptor_exec r =
     (case r of Inl DescriptorPanic \<Rightarrow> must None | Inl e \<Rightarrow> raise (descriptor_error_text e) | Inr d \<Rightarrow> ret d)"

definition failure_record :: "StepInvocationOutcome \<Rightarrow> string \<times> string" where
  "failure_record oc =
     (if so_status oc = StatusCancelled then (StatusCancelled, ''invocation cancelled'')
      else if so_status oc = StatusInfraFailed then (StatusFailed, ''invocation infrastructure failed'')
      else (StatusFailed, durableRunnerDiagnostic oc))"

text \<open>
  The end of a failed attempt that is not retried: which error the run returns. The context is read
  only for a cancelled outcome.
\<close>

definition attempt_error ::
    "'w environment \<Rightarrow> executionPolicy \<Rightarrow> int \<Rightarrow> StepInvocationOutcome \<Rightarrow> go_error option \<Rightarrow> ('w run_state, 'a) exec" where
  "attempt_error env policy n oc invokeErr =
     (case so_fatal oc of
        Some f \<Rightarrow> raise (fatal_error f)
      | None \<Rightarrow>
        (case invokeErr of
           Some e \<Rightarrow> raise e
         | None \<Rightarrow>
           (let failed = plain_error (runnerDiagnostic oc @ attemptSuffix n policy) in
            if so_status oc = StatusCancelled
            then bnd (ctx_Err env) (\<lambda>c. raise (if c then ctx_error else failed))
            else raise failed)))"

definition step_outcome ::
    "'w environment \<Rightarrow> run_identity \<Rightarrow> GraphNode \<Rightarrow> executionPolicy \<Rightarrow> (int \<Rightarrow> ('w run_state, unit) exec) option
      \<Rightarrow> int \<Rightarrow> StepInvocationDescriptor \<Rightarrow> StepInvocationOutcome \<Rightarrow> go_error option \<Rightarrow> ('w run_state, unit) exec" where
  "step_outcome env idn node policy retry n d oc invokeErr =
     (if so_status oc \<noteq> StatusSucceeded then
        (let (status, diagnostic) = failure_record oc in
         case (if invokeErr = None \<and> retryableOutcome oc then retry else None) of
           Some again \<Rightarrow>
             thn (journal (markAttemptRetrying (node_id node) diagnostic))
             (thn (writeRunManifest env idn False)
             (bnd (io (en_wait env (delayBefore policy (n + 1)))) (\<lambda>e.
              thn (check_err e) (again (n + 1)))))
         | None \<Rightarrow>
             thn (journal (markAttemptTerminal (node_id node) status diagnostic))
               (attempt_error env policy n oc invokeErr))
      else
        bnd (gets (\<lambda>s. er_index (rn_resolver s))) (\<lambda>ix.
        bnd (attempt (settleInvocation env d ix)) (\<lambda>res.
        case res of
          Inl e \<Rightarrow>
            thn (journal (markAttemptTerminal (node_id node) StatusFailed ''output verification failed'')) (raise e)
        | Inr out \<Rightarrow>
            thn (set_output (node_id node) out)
            (thn (journal_must (markAttemptSucceeded (node_id node) (no_published out)))
            (thn (writeRunManifest env idn True) (check_err invokeErr))))))"

definition step_attempt ::
    "'w environment \<Rightarrow> run_identity \<Rightarrow> GraphNode \<Rightarrow> DataArtifact \<Rightarrow> executionPolicy
      \<Rightarrow> (int \<Rightarrow> ('w run_state, unit) exec) option \<Rightarrow> int \<Rightarrow> ('w run_state, unit) exec" where
  "step_attempt env idn node input policy retry n =
     bnd (gets (\<lambda>s. er_index (rn_resolver s))) (\<lambda>ix.
     bnd (descriptor_exec (descriptorForStep (id_planHash idn) (id_projectKey idn) (id_runID idn) node input ix n)) (\<lambda>d.
     thn (journal (markAttemptRunning (node_id node) n input))
     (thn (writeRunManifest env idn False)
     (bnd (io (en_invoke env [d] (xp_timeout policy) 0)) (\<lambda>(outcomes, invokeErr).
      case outcomes of
        [oc] \<Rightarrow> thn (dispatched (node_id node)) (step_outcome env idn node policy retry n d oc invokeErr)
      | [] \<Rightarrow>
          (case invokeErr of
             Some e \<Rightarrow> thn (journal (dropAttempt (node_id node))) (raise e)
           | None \<Rightarrow> raise (plain_error ''step invoker returned 0 outcomes, want 1''))
      | _ \<Rightarrow> raise (plain_error ''step invoker returned several outcomes, want 1''))))))"

text \<open>
  The loop \<^verbatim>\<open>for attempt := 1; ; attempt++\<close>: it continues only while the attempt is below the policy's
  maximum, so the number of attempts left decides whether a retry is available.
\<close>

primrec step_attempts ::
    "'w environment \<Rightarrow> run_identity \<Rightarrow> GraphNode \<Rightarrow> DataArtifact \<Rightarrow> executionPolicy \<Rightarrow> nat \<Rightarrow> int \<Rightarrow> ('w run_state, unit) exec" where
  "step_attempts env idn node input policy 0 = step_attempt env idn node input policy None"
| "step_attempts env idn node input policy (Suc left) =
     step_attempt env idn node input policy (Some (step_attempts env idn node input policy left))"

text \<open>The step case of the node loop.\<close>

definition run_step :: "'w environment \<Rightarrow> run_identity \<Rightarrow> GraphNode \<Rightarrow> ('w run_state, unit) exec" where
  "run_step env idn node =
     bnd (gets rn_resolver) (\<lambda>r.
     bnd (of_result (\<lambda>e. plain_error (en_text env e)) (inputForNode (en_number env) r node)) (\<lambda>body.
     bnd (must (runInputKey (id_projectKey idn) (id_runID idn) (node_id node) None)) (\<lambda>key.
     let input = \<lparr>da_key = key, da_hash = DigestBytes body, da_contentType = jsonContentType, da_schema = node_inputSchema node\<rparr> in
     bnd (io (en_put env key body)) (\<lambda>e.
     thn (check_err e)
       (let policy = policyForContract (ix_contracts (er_index r) (node_contractRef node)) in
        step_attempts env idn node input policy (nat (xp_maxAttempts policy - 1)) 1)))))"

section \<open>What the executor relies on\<close>

abbreviation quiet :: "go_error \<Rightarrow> bool" where
  "quiet e \<equiv> err_fatal e = None"

text \<open>
  The contract of the environment: only an invocation reports a fatal run, as a failed outcome that
  names the node it was dispatched for, and the error beside the outcomes is fatal only when one of them is.
  \<^verbatim>\<open>Pool\<close> shows that \<^verbatim>\<open>ProcessStepInvoker.InvokeSteps\<close> keeps it.
\<close>

definition honest :: "'w environment \<Rightarrow> bool" where
  "honest env =
     ((\<forall>k b w e. fst (en_put env k b w) = Some e \<longrightarrow> quiet e)
      \<and> (\<forall>d k m w e. fst (en_write env d k m w) = Some e \<longrightarrow> quiet e)
      \<and> (\<forall>c d w e. fst (en_after env c d w) = Some e \<longrightarrow> quiet e)
      \<and> (\<forall>c d p w e. fst (en_resolve env c d p w) = Inl e \<longrightarrow> quiet e)
      \<and> (\<forall>d p b w e. fst (en_publish env d p b w) = Some e \<longrightarrow> quiet e)
      \<and> (\<forall>t w e. fst (en_wait env t w) = Some e \<longrightarrow> quiet e)
      \<and> (\<forall>w e. fst (en_materialize env w) = Inl e \<longrightarrow> quiet e)
      \<and> (\<forall>ds t c w. (\<forall>e f. snd (fst (en_invoke env ds t c w)) = Some e \<longrightarrow> err_fatal e = Some f \<longrightarrow>
             (\<exists>oc \<in> set (fst (fst (en_invoke env ds t c w))). so_fatal oc = Some f))
           \<and> (\<forall>oc \<in> set (fst (fst (en_invoke env ds t c w))). \<forall>f. so_fatal oc = Some f \<longrightarrow>
                so_status oc = StatusFailed \<and> (\<exists>d \<in> set ds. ff_node f = ds_nodeID d))))"

lemma honestD:
  assumes "honest env"
  shows "fst (en_put env k b w) = Some e \<Longrightarrow> quiet e" "fst (en_write env dt k m w) = Some e \<Longrightarrow> quiet e"
    "fst (en_after env c d w) = Some e \<Longrightarrow> quiet e" "fst (en_resolve env c dest p w) = Inl e \<Longrightarrow> quiet e"
    "fst (en_publish env dest p b w) = Some e \<Longrightarrow> quiet e"
    "fst (en_wait env t w) = Some e \<Longrightarrow> quiet e" "fst (en_materialize env w) = Inl e \<Longrightarrow> quiet e"
    "snd (fst (en_invoke env ds t i w)) = Some e \<Longrightarrow> err_fatal e = Some f \<Longrightarrow>
      \<exists>oc \<in> set (fst (fst (en_invoke env ds t i w))). so_fatal oc = Some f"
    "oc \<in> set (fst (fst (en_invoke env ds t i w))) \<Longrightarrow> so_fatal oc = Some f \<Longrightarrow>
      so_status oc = StatusFailed \<and> (\<exists>d \<in> set ds. ff_node f = ds_nodeID d)"
  using assms unfolding honest_def by (metis, metis, metis, metis, metis, metis, metis, metis, metis)

lemma quiet_simps [simp]: "quiet (plain_error t)" "quiet ctx_error" "err_fatal (fatal_error f) = Some f"
  by (simp_all add: plain_error_def ctx_error_def fatal_error_def)

section \<open>Assertions on the journal\<close>

definition assn :: "(Manifest \<Rightarrow> executionResolver \<Rightarrow> bool) \<Rightarrow> 'w run_state \<Rightarrow> bool" where
  "assn A s = ((\<forall>m \<in> set (rn_log s). check_manifest m = None) \<and> A (rn_manifest s) (rn_resolver s))"

lemma assn_mono: "assn A s \<Longrightarrow> (\<And>m r. A m r \<Longrightarrow> B m r) \<Longrightarrow> assn B s"
  by (simp add: assn_def)

lemma triple_io: "triple (assn A) (io f) (\<lambda>x. assn (\<lambda>m r. A m r \<and> (\<exists>w. x = fst (f w)))) E"
  by (auto simp: triple_def io_def assn_def)

lemma then_io:
  fixes f :: "'w \<Rightarrow> 'x \<times> 'w"
  assumes "\<And>x w. x = fst (f w) \<Longrightarrow> triple (assn A) (k x) Q E"
  shows "triple (assn A) (bnd (io f) k) Q E"
proof (rule tripleI)
  fix s :: "'w run_state" assume "assn A s"
  then have "assn A (snd (io f s))" by (simp add: io_def assn_def)
  then show "case bnd (io f) k s of (Ok x, s') \<Rightarrow> Q x s' | (Fail e, s') \<Rightarrow> E e s' | (Panic, _) \<Rightarrow> False"
    using assms[OF refl, of "rn_world s"] by (simp add: bnd_def io_def triple_def)
qed

lemma triple_journal: "triple (assn (\<lambda>m r. A (f m) r)) (journal f) (\<lambda>_. assn A) E"
  by (simp add: triple_def journal_def modify_def assn_def)

lemma triple_journal_must: "triple (assn (\<lambda>m r. \<exists>m'. f m = Some m' \<and> A m' r)) (journal_must f) (\<lambda>_. assn A) E"
  by (auto simp: triple_def journal_must_def bnd_def gets_def must_def journal_def modify_def assn_def)

lemma then_journal:
  "(\<And>m r. A m r \<Longrightarrow> B (f m) r) \<Longrightarrow> triple (assn B) k Q E \<Longrightarrow> triple (assn A) (thn (journal f) k) Q E"
  by (auto simp: triple_def thn_def bnd_def journal_def modify_def assn_def)

lemma then_journal_must:
  "(\<And>m r. A m r \<Longrightarrow> \<exists>m'. f m = Some m' \<and> B m' r) \<Longrightarrow> triple (assn B) k Q E \<Longrightarrow>
   triple (assn A) (thn (journal_must f) k) Q E"
  by (rule triple_thn[OF triple_pre[OF triple_journal_must[where A = B]]]) (auto simp: assn_def)

lemma triple_set_output:
  "triple (assn (\<lambda>m r. A m (r\<lparr>er_outputs := (er_outputs r)(node \<mapsto> out)\<rparr>))) (set_output node out) (\<lambda>_. assn A) E"
  by (simp add: triple_def set_output_def modify_def assn_def)

lemma triple_dispatched: "triple (assn A) (dispatched node) (\<lambda>_. assn A) E"
  by (simp add: triple_def dispatched_def modify_def assn_def)

lemma triple_gets_resolver: "triple (assn A) (gets (\<lambda>s. g (rn_resolver s))) (\<lambda>x. assn (\<lambda>m r. A m r \<and> x = g r)) E"
  by (simp add: triple_def gets_def assn_def)

lemma triple_assn_raise: "(\<And>m r. A m r \<Longrightarrow> X e m r) \<Longrightarrow> triple (assn A) (raise e) Q (\<lambda>e. assn (X e))"
  by (simp add: triple_def raise_def assn_def)

lemma triple_assn_ret: "(\<And>m r. A m r \<Longrightarrow> B x m r) \<Longrightarrow> triple (assn A) (ret x) (\<lambda>x. assn (B x)) E"
  by (simp add: triple_def ret_def assn_def)

lemma triple_assn_pre: "triple (assn A) m Q E \<Longrightarrow> (\<And>m r. B m r \<Longrightarrow> A m r) \<Longrightarrow> triple (assn B) m Q E"
  by (erule triple_pre) (simp add: assn_def)

lemma triple_assn_fact: "(\<And>m r. A m r \<Longrightarrow> C) \<Longrightarrow> (C \<Longrightarrow> triple (assn A) m Q E) \<Longrightarrow> triple (assn A) m Q E"
  by (rule triple_fact[where C = C]) (auto simp: assn_def)

lemma triple_assn_check_err:
  assumes "\<And>m r. e = None \<Longrightarrow> A m r \<Longrightarrow> B m r" "\<And>m r x. e = Some x \<Longrightarrow> A m r \<Longrightarrow> X x m r"
  shows "triple (assn A) (check_err e) (\<lambda>_. assn B) (\<lambda>e. assn (X e))"
  using assms by (cases e) (auto simp: triple_def check_err_def ret_def raise_def assn_def)

lemma triple_assn_must:
  assumes "x = Some y" "\<And>m r. A m r \<Longrightarrow> B y m r"
  shows "triple (assn A) (must x) (\<lambda>y. assn (B y)) E"
  using assms by (auto simp: triple_def must_def assn_def)

lemma triple_assn_of_result:
  assumes "\<And>m r x. res = Inl x \<Longrightarrow> A m r \<Longrightarrow> X (h x) m r" "\<And>m r y. res = Inr y \<Longrightarrow> A m r \<Longrightarrow> B y m r"
  shows "triple (assn A) (of_result h res) (\<lambda>y. assn (B y)) (\<lambda>e. assn (X e))"
  using assms by (cases res) (auto simp: triple_def of_result_def ret_def raise_def assn_def)

lemma triple_write:
  assumes "honest env" "\<And>m r. A m r \<Longrightarrow> check_manifest m = None" "\<And>e m r. quiet e \<Longrightarrow> A m r \<Longrightarrow> X e m r"
  shows "triple (assn A) (writeRunManifest env idn detached) (\<lambda>_. assn A) (\<lambda>e. assn (X e))"
proof (rule tripleI)
  fix s :: "'a run_state"
  assume a: "assn A s"
  let ?e = "fst (en_write env detached (id_manifestKey idn) (rn_manifest s) (rn_world s))"
  have "check_manifest (rn_manifest s) = None" using a assms(2) by (auto simp: assn_def)
  moreover have "?e = Some x \<Longrightarrow> X x (rn_manifest s) (rn_resolver s)" for x
    using a assms(3) honestD(2)[OF assms(1)] by (auto simp: assn_def)
  ultimately show "case writeRunManifest env idn detached s of (Ok x, s') \<Rightarrow> assn A s' | (Fail e, s') \<Rightarrow> assn (X e) s' | (Panic, _) \<Rightarrow> False"
    using a by (cases ?e) (auto simp: writeRunManifest_def bnd_def thn_def gets_def io_def modify_def check_err_def
        ret_def raise_def assn_def)
qed

section \<open>The life of a step\<close>

definition running_manifest :: "Manifest \<Rightarrow> bool" where
  "running_manifest m = (journal_inv m \<and> mf_status m = StatusRunning \<and> mf_failure m = None \<and> mf_exitHook m = None)"

text \<open>What every error leaves behind: a journal that can be terminated, and whose fatal cause is named.\<close>

definition closable :: "go_error \<Rightarrow> Manifest \<Rightarrow> bool" where
  "closable e m =
     (journal_inv m \<and> mf_failure m = None \<and> mf_exitHook m = None
      \<and> (\<forall>f. err_fatal e = Some f \<longrightarrow> list_ex (fatal_named f) (mf_steps m)))"

definition others :: "string \<Rightarrow> Manifest \<Rightarrow> Manifest \<Rightarrow> bool" where
  "others node m0 m = (map st_node (mf_steps m) = map st_node (mf_steps m0)
     \<and> (\<forall>j. j \<noteq> node \<longrightarrow> findManifestStep m j = findManifestStep m0 j))"

lemma running_checks: "running_manifest m \<Longrightarrow> check_manifest m = None"
  by (rule check_manifest_None) (auto simp: running_manifest_def failure_named_def hook_ok_def)

lemma running_closable: "running_manifest m \<Longrightarrow> quiet e \<Longrightarrow> closable e m"
  by (simp add: running_manifest_def closable_def)

lemma update_step_simps [simp]:
  "mf_status (update_step node f m) = mf_status m" "mf_failure (update_step node f m) = mf_failure m"
  "mf_exitHook (update_step node f m) = mf_exitHook m"
  by (simp_all add: update_step_def)

lemma running_update: "running_manifest m \<Longrightarrow> journal_inv (update_step node f m) \<Longrightarrow> running_manifest (update_step node f m)"
  by (simp add: running_manifest_def)

lemma others_refl [simp]: "others node m m"
  by (simp add: others_def)

lemma others_update:
  assumes "others node m0 m" "\<And>s. st_node (f s) = st_node s"
  shows "others node m0 (update_step node f m)"
  using assms map_update_first[of st_node f "\<lambda>s. st_node s = node" "mf_steps m", OF assms(2)]
    find_step_other[OF assms(2), of _ node m]
  by (simp add: others_def) (simp add: update_step_def)

definition step_at :: "executionIndex \<Rightarrow> Manifest \<Rightarrow> string \<Rightarrow> (Step \<Rightarrow> bool) \<Rightarrow> Manifest \<Rightarrow> executionResolver \<Rightarrow> bool" where
  "step_at ix m0 node P m r =
     (er_index r = ix \<and> running_manifest m \<and> others node m0 m \<and> (\<exists>st. findManifestStep m node = Some st \<and> P st))"

definition waiting :: "int \<Rightarrow> Step \<Rightarrow> bool" where
  "waiting n st = (st_items st = None \<and> awaiting st \<and> n = int (length (st_attempts st)) + 1)"

definition flying :: "int \<Rightarrow> Step \<Rightarrow> bool" where
  "flying n st = (st_items st = None \<and> in_flight st \<and> n = int (length (st_attempts st)))"

definition succeeded :: "Step \<Rightarrow> bool" where
  "succeeded st = (st_status st = StatusSucceeded)"

lemma step_at_checks: "step_at ix m0 node P m r \<Longrightarrow> check_manifest m = None"
  by (simp add: step_at_def running_checks)

lemma step_at_closable: "step_at ix m0 node P m r \<Longrightarrow> quiet e \<Longrightarrow> closable e m"
  by (simp add: step_at_def running_closable)

lemma step_at_update:
  assumes "step_at ix m0 node P m r" "\<And>s. st_node (f s) = st_node s"
    and "journal_inv (update_step node f m)" "\<And>st. findManifestStep m node = Some st \<Longrightarrow> P st \<Longrightarrow> Q (f st)"
  shows "step_at ix m0 node Q (update_step node f m) r"
  using assms running_update others_update find_step_update[OF assms(2), of node m]
  by (auto simp: step_at_def)

lemma start_flying:
  assumes "step_at ix m0 node (waiting n) m r"
  shows "step_at ix m0 node (flying n) (markAttemptRunning node n input m) r"
proof -
  obtain st where st: "findManifestStep m node = Some st" "waiting n st" "journal_inv m"
    using assms by (auto simp: step_at_def running_manifest_def)
  then have "journal_inv (markAttemptRunning node n input m)"
    by (intro markAttemptRunning_inv) (auto simp: waiting_def unexpanded_def)
  then show ?thesis
    unfolding markAttemptRunning_def
    by (rule step_at_update[OF assms, rotated]) (auto simp: waiting_def flying_def in_flight_def new_attempt_def)
qed

lemma retry_waiting:
  assumes "step_at ix m0 node (flying n) m r"
  shows "step_at ix m0 node (waiting (n + 1)) (markAttemptRetrying node diagnostic m) r"
proof -
  obtain st where st: "findManifestStep m node = Some st" "flying n st" "journal_inv m"
    using assms by (auto simp: step_at_def running_manifest_def)
  then have "journal_inv (markAttemptRetrying node diagnostic m)"
    by (intro markAttemptRetrying_inv) (auto simp: flying_def in_flight_def unexpanded_def)
  then show ?thesis
    unfolding markAttemptRetrying_def
    by (rule step_at_update[OF assms, rotated])
      (auto simp: waiting_def flying_def in_flight_def awaiting_def close_attempt_def update_last_def)
qed

lemma terminal_closable:
  assumes "step_at ix m0 node (flying n) m r" "status = StatusFailed \<or> status = StatusCancelled"
    and "\<And>f. err_fatal e = Some f \<Longrightarrow> status = StatusFailed \<and> ff_node f = node"
  shows "closable e (markAttemptTerminal node status diagnostic m)"
proof -
  let ?m = "markAttemptTerminal node status diagnostic m"
  obtain st where st: "findManifestStep m node = Some st" "flying n st" and m: "running_manifest m"
    using assms(1) by (auto simp: step_at_def)
  have inv: "journal_inv ?m"
    using st m by (intro markAttemptTerminal_inv[OF _ assms(2)]) (auto simp: running_manifest_def flying_def)
  have f: "findManifestStep ?m node = Some (st\<lparr>st_status := status, st_attempts := close_last status diagnostic (st_attempts st)\<rparr>)"
    using st unfolding markAttemptTerminal_def by (subst find_step_update) auto
  have "list_ex (fatal_named g) (mf_steps ?m)" if "err_fatal e = Some g" for g
  proof -
    let ?st = "st\<lparr>st_status := status, st_attempts := close_last status diagnostic (st_attempts st)\<rparr>"
    have "fatal_named g ?st"
      using assms(3)[OF that] findManifestStep_inv(3)[OF inv f] st(2)
      by (simp add: fatal_named_def flying_def close_last_def)
    moreover have "?st \<in> set (mf_steps ?m)" using findManifestStep_inv(2)[OF inv f] .
    ultimately show ?thesis by (auto simp: list_ex_iff)
  qed
  then show ?thesis using inv m by (simp add: closable_def running_manifest_def markAttemptTerminal_def)
qed

lemma succeed_step:
  assumes "step_at ix m0 node (flying n) m r"
  shows "\<exists>m'. markAttemptSucceeded node output m = Some m' \<and> step_at ix m0 node succeeded m' r"
proof -
  obtain st where st: "findManifestStep m node = Some st" "flying n st" and m: "running_manifest m"
    using assms by (auto simp: step_at_def)
  let ?f = "\<lambda>s. s\<lparr>st_status := StatusSucceeded, st_attempts :=
      update_last (\<lambda>a. a\<lparr>at_status := StatusSucceeded, at_output := Some output\<rparr>) (st_attempts s)\<rparr>"
  have eq: "markAttemptSucceeded node output m = Some (update_step node ?f m)"
    using st by (auto simp: markAttemptSucceeded_def flying_def in_flight_def)
  have "\<exists>m'. markAttemptSucceeded node output m = Some m' \<and> journal_inv m'"
    using st m by (intro ex_forward[OF markAttemptSucceeded_inv[of m node st]])
      (auto simp: flying_def in_flight_def running_manifest_def)
  then have "journal_inv (update_step node ?f m)" using eq by auto
  then have "step_at ix m0 node succeeded (update_step node ?f m) r"
    by (rule step_at_update[OF assms, rotated]) (auto simp: succeeded_def)
  then show ?thesis using eq by blast
qed

lemma drop_closable:
  assumes "step_at ix m0 node (flying n) m r" "quiet e"
  shows "closable e (dropAttempt node m)"
proof -
  have "journal_inv (dropAttempt node m)"
    using assms(1) by (intro dropAttempt_inv)
      (auto simp: step_at_def running_manifest_def flying_def in_flight_def unexpanded_def)
  then show ?thesis using assms by (simp add: closable_def step_at_def running_manifest_def dropAttempt_def)
qed

section \<open>The triple of a step\<close>

definition closes :: "go_error \<Rightarrow> 'w run_state \<Rightarrow> bool" where
  "closes e = assn (\<lambda>m r. closable e m)"

lemma closes_assn: "assn A s \<Longrightarrow> (\<And>m r. A m r \<Longrightarrow> closable e m) \<Longrightarrow> closes e s"
  by (auto simp: closes_def assn_def)

lemma raise_closes: "(\<And>m r. A m r \<Longrightarrow> closable e m) \<Longrightarrow> triple (assn A) (raise e) Q closes"
  by (auto simp: triple_def raise_def closes_def assn_def)

lemma write_closes:
  assumes "honest env" "\<And>m r. A m r \<Longrightarrow> running_manifest m"
  shows "triple (assn A) (writeRunManifest env idn detached) (\<lambda>_. assn A) closes"
proof -
  have "triple (assn A) (writeRunManifest env idn detached) (\<lambda>_. assn A) (\<lambda>e. assn (\<lambda>m r. closable e m))"
    by (rule triple_write[OF assms(1)]) (use assms(2) running_checks running_closable in blast)+
  then show ?thesis by (simp add: closes_def[abs_def])
qed

lemma triple_observe: "triple P (gets f) (\<lambda>_. P) E"
  by (simp add: triple_def gets_def assn_def)

lemma checked_io:
  assumes "\<And>w e. fst (f w) = Some e \<Longrightarrow> quiet e" "\<And>m r. A m r \<Longrightarrow> running_manifest m" "triple (assn A) k Q closes"
  shows "triple (assn A) (bnd (io f) (\<lambda>e. thn (check_err e) k)) Q closes"
proof -
  have "triple (assn (\<lambda>m r. A m r \<and> (\<exists>w. e = fst (f w)))) (check_err e) (\<lambda>_. assn A) closes" for e
    unfolding closes_def[abs_def]
    by (rule triple_assn_check_err) (use assms(1,2) running_closable in \<open>auto simp: eq_commute[of "Some _"]\<close>)
  then show ?thesis using assms(3) by (intro triple_bnd[OF triple_io] triple_thn)
qed

lemma settle_triple:
  assumes "honest env"
  shows "triple (assn A) (settleInvocation env d ix) (\<lambda>_. assn A) (\<lambda>e. assn (\<lambda>m r. A m r \<and> quiet e))"
proof -
  have res: "triple (assn A) (resolveOutputArtifact env c d ix) (\<lambda>_. assn A) (\<lambda>e. assn (\<lambda>m r. A m r \<and> quiet e))" for c
    unfolding resolveOutputArtifact_def
    by (intro triple_cases_if triple_assn_raise triple_bnd[OF triple_assn_of_result[where B = "\<lambda>_. A"]]
        triple_bnd[OF triple_io] triple_assn_of_result)
      (auto dest: honestD(4)[OF assms] split: sum.splits)
  show ?thesis
    unfolding settleInvocation_def Let_def
    by (intro triple_bnd[OF triple_io] triple_thn[OF triple_assn_check_err res])
      (auto dest!: sym[where t = "fst _"] intro: honestD(3)[OF assms])
qed

lemma attempt_error_triple:
  assumes "\<And>e m r. A m r \<Longrightarrow> (quiet e \<or> (\<exists>f. so_fatal oc = Some f \<and> err_fatal e = Some f)) \<Longrightarrow> closable e m"
    and "\<And>e. invokeErr = Some e \<Longrightarrow> so_fatal oc = None \<Longrightarrow> quiet e"
  shows "triple (assn A) (attempt_error env policy n oc invokeErr) Q closes"
  unfolding attempt_error_def Let_def ctx_Err_def
  by (intro triple_cases_option triple_cases_if triple_bnd[OF triple_io] raise_closes)
    (auto intro!: assms(1) dest: assms(2))

lemma step_outcome_triple:
  assumes env: "honest env"
    and fatal: "\<And>f. so_fatal oc = Some f \<Longrightarrow> so_status oc = StatusFailed \<and> ff_node f = node_id node"
    and err: "\<And>e. invokeErr = Some e \<Longrightarrow> so_fatal oc = None \<Longrightarrow> quiet e"
    and again: "\<And>again. retry = Some again \<Longrightarrow>
      triple (assn (step_at ix m0 (node_id node) (waiting (n + 1)))) (again (n + 1)) (\<lambda>_. assn (step_at ix m0 (node_id node) succeeded)) closes"
  shows "triple (assn (step_at ix m0 (node_id node) (flying n))) (step_outcome env idn node policy retry n d oc invokeErr)
    (\<lambda>_. assn (step_at ix m0 (node_id node) succeeded)) closes"
proof (cases "so_status oc = StatusSucceeded")
  case False
  obtain status diagnostic where rec: "failure_record oc = (status, diagnostic)" by (cases "failure_record oc")
  have st: "status = StatusFailed \<or> status = StatusCancelled" "\<And>f. so_fatal oc = Some f \<Longrightarrow> status = StatusFailed"
    using rec fatal by (auto simp: failure_record_def StatusInfraFailed_def status_defs split: if_splits)
  have retrying: "triple (assn (step_at ix m0 (node_id node) (flying n)))
      (thn (journal (markAttemptRetrying (node_id node) diagnostic)) (thn (writeRunManifest env idn False)
        (bnd (io (en_wait env (delayBefore policy (n + 1)))) (\<lambda>e. thn (check_err e) (k (n + 1))))))
      (\<lambda>_. assn (step_at ix m0 (node_id node) succeeded)) closes" if "retry = Some k" for k
    by (intro then_journal[where B = "step_at ix m0 (node_id node) (waiting (n + 1))"] retry_waiting triple_thn[OF write_closes[OF env]]
        checked_io again[OF that])
      (auto simp: step_at_def dest: honestD(6)[OF env])
  have terminal: "triple (assn (step_at ix m0 (node_id node) (flying n)))
      (thn (journal (markAttemptTerminal (node_id node) status diagnostic)) (attempt_error env policy n oc invokeErr))
      (\<lambda>_. assn (step_at ix m0 (node_id node) succeeded)) closes"
    by (rule then_journal[where B = "\<lambda>m r. \<forall>e. (quiet e \<or> (\<exists>f. so_fatal oc = Some f \<and> err_fatal e = Some f)) \<longrightarrow> closable e m",
          OF _ attempt_error_triple])
      (use st fatal err in \<open>auto intro!: terminal_closable\<close>)
  show ?thesis
    using False rec retrying terminal by (auto simp: step_outcome_def intro!: triple_cases_option split: if_splits)
next
  case True
  have quiet: "quiet x" if "invokeErr = Some x" for x
    using err[OF that] fatal True by (cases "so_fatal oc") (auto simp: status_defs)
  have "triple (assn (step_at ix m0 (node_id node) (flying n)))
     (bnd (gets (\<lambda>s. er_index (rn_resolver s))) (\<lambda>ix. bnd (attempt (settleInvocation env d ix)) (\<lambda>res.
        case res of
          Inl e \<Rightarrow> thn (journal (markAttemptTerminal (node_id node) StatusFailed ''output verification failed'')) (raise e)
        | Inr out \<Rightarrow>
            thn (set_output (node_id node) out)
            (thn (journal_must (markAttemptSucceeded (node_id node) (no_published out)))
            (thn (writeRunManifest env idn True) (check_err invokeErr))))))
     (\<lambda>_. assn (step_at ix m0 (node_id node) succeeded)) closes"
    (is "triple ?P _ ?Q _")
  proof (rule triple_bnd, rule triple_gets_resolver, rule triple_bnd)
    fix x
    show "triple (assn (\<lambda>m r. step_at ix m0 (node_id node) (flying n) m r \<and> x = er_index r)) (attempt (settleInvocation env d x))
      (\<lambda>res. assn (\<lambda>m r. step_at ix m0 (node_id node) (flying n) m r \<and> (\<forall>e. res = Inl e \<longrightarrow> quiet e))) closes"
      by (rule triple_attempt[OF triple_conseq[OF settle_triple[OF env]]]) (auto elim!: assn_mono)
  next
    fix res :: "go_error + nodeOutput"
    have "triple (assn (\<lambda>m r. step_at ix m0 (node_id node) (flying n) m r \<and> quiet e))
        (thn (journal (markAttemptTerminal (node_id node) StatusFailed ''output verification failed'')) (raise e)) ?Q closes" for e
      by (rule then_journal[where B = "\<lambda>m r. closable e m", OF _ raise_closes])
        (auto intro: terminal_closable)
    moreover have "triple ?P
        (thn (set_output (node_id node) out) (thn (journal_must (markAttemptSucceeded (node_id node) (no_published out)))
            (thn (writeRunManifest env idn True) (check_err invokeErr)))) ?Q closes" for out
    proof (rule triple_thn[OF triple_assn_pre[OF triple_set_output[where A = "step_at ix m0 (node_id node) (flying n)"]]])
      show "triple ?P (thn (journal_must (markAttemptSucceeded (node_id node) (no_published out)))
            (thn (writeRunManifest env idn True) (check_err invokeErr))) ?Q closes"
        by (intro then_journal_must[where B = "step_at ix m0 (node_id node) succeeded"] succeed_step triple_thn[OF write_closes[OF env]])
          (auto simp: step_at_def closes_def[abs_def] quiet intro!: triple_assn_check_err running_closable)
    qed (auto simp: step_at_def)
    ultimately show "triple (assn (\<lambda>m r. step_at ix m0 (node_id node) (flying n) m r \<and> (\<forall>e. res = Inl e \<longrightarrow> quiet e)))
       (case res of
          Inl e \<Rightarrow> thn (journal (markAttemptTerminal (node_id node) StatusFailed ''output verification failed'')) (raise e)
        | Inr out \<Rightarrow>
            thn (set_output (node_id node) out)
            (thn (journal_must (markAttemptSucceeded (node_id node) (no_published out)))
            (thn (writeRunManifest env idn True) (check_err invokeErr)))) ?Q closes"
      by (cases res) (auto intro: triple_assn_pre)
  qed
  then show ?thesis using True by (simp add: step_outcome_def)
qed

lemma descriptor_triple:
  assumes "r \<noteq> Inl DescriptorPanic" "\<And>m s. A m s \<Longrightarrow> running_manifest m"
  shows "triple (assn A) (descriptor_exec r) (\<lambda>d. assn (\<lambda>m s. A m s \<and> r = Inr d)) closes"
  using assms running_closable
  by (auto simp: descriptor_exec_def triple_def closes_def assn_def ret_def raise_def descriptor_error_text_def
      split: sum.splits descriptor_error.splits)

lemma descriptorForStep_node: "descriptorForStep h p r node input ix n = Inr d \<Longrightarrow> ds_nodeID d = node_id node"
  by (auto simp: descriptorForStep_def split: option.splits)

abbreviation safe_identity :: "run_identity \<Rightarrow> bool" where
  "safe_identity idn \<equiv> ValidSafePathSegment (id_runID idn) \<and> (\<exists>p. id_projectKey idn = NormalizeProjectKey p)"

lemma step_attempt_triple:
  assumes env: "honest env" and idn: "safe_identity idn" and node: "ValidSafePathSegment (node_id node)"
    and again: "\<And>again. retry = Some again \<Longrightarrow>
      triple (assn (step_at ix m0 (node_id node) (waiting (n + 1)))) (again (n + 1)) (\<lambda>_. assn (step_at ix m0 (node_id node) succeeded)) closes"
  shows "triple (assn (step_at ix m0 (node_id node) (waiting n))) (step_attempt env idn node input policy retry n)
    (\<lambda>_. assn (step_at ix m0 (node_id node) succeeded)) closes" (is "triple ?P _ ?Q _")
proof -
  let ?F = "step_at ix m0 (node_id node) (flying n)"
  let ?k = "\<lambda>d (outcomes, invokeErr). case outcomes of
        [oc] \<Rightarrow> thn (dispatched (node_id node)) (step_outcome env idn node policy retry n d oc invokeErr)
      | [] \<Rightarrow> (case invokeErr of
             Some e \<Rightarrow> thn (journal (dropAttempt (node_id node))) (raise e)
           | None \<Rightarrow> raise (plain_error ''step invoker returned 0 outcomes, want 1''))
      | _ \<Rightarrow> raise (plain_error ''step invoker returned several outcomes, want 1'')"
  have drop: "triple (assn ?F) (thn (journal (dropAttempt (node_id node))) (raise e)) ?Q closes" if "quiet e" for e
    by (rule then_journal[where B = "\<lambda>m r. closable e m", OF _ raise_closes]) (use that in \<open>auto intro: drop_closable\<close>)
  have raised: "triple (assn ?F) (raise (plain_error t)) ?Q closes" for t
    by (rule raise_closes) (auto intro: step_at_closable)
  have settle: "triple (assn ?F) (?k d x) ?Q closes"
    if d: "ds_nodeID d = node_id node" and x: "x = fst (en_invoke env [d] t c w)" for d x t c w
  proof -
    obtain os e where xe: "x = (os, e)" by (cases x)
    have e: "\<And>y f. e = Some y \<Longrightarrow> err_fatal y = Some f \<Longrightarrow> \<exists>oc \<in> set os. so_fatal oc = Some f" and o: "\<And>oc f. oc \<in> set os \<Longrightarrow> so_fatal oc = Some f \<Longrightarrow> so_status oc = StatusFailed \<and> ff_node f = node_id node"
      using honestD(8,9)[OF env, where ds = "[d]" and t = t and i = c and w = w] x xe d by fastforce+
    have one: "triple (assn ?F) (thn (dispatched (node_id node)) (step_outcome env idn node policy retry n d oc e)) ?Q closes"
      if "os = [oc]" for oc
    proof (intro triple_thn[OF triple_dispatched] step_outcome_triple[OF env])
      show "quiet y" if "e = Some y" "so_fatal oc = None" for y
        using e[OF that(1)] that(2) \<open>os = [oc]\<close> by (cases "err_fatal y") auto
    qed (use o[of oc] that again in auto)
    show ?thesis
    proof (cases os)
      case Nil
      have "quiet y" if "e = Some y" for y using e[OF that] Nil by (cases "err_fatal y") auto
      then show ?thesis using Nil raised drop unfolding xe by (cases e) simp_all
    next
      case (Cons oc more)
      then show ?thesis using raised one[of oc] unfolding xe by (cases more) simp_all
    qed
  qed
  have started: "triple (assn ?F) (thn (writeRunManifest env idn False)
      (bnd (io (en_invoke env [d] (xp_timeout policy) 0)) (?k d))) ?Q closes" if "ds_nodeID d = node_id node" for d
  proof (rule triple_thn[OF write_closes[OF env]])
    show "triple (assn ?F) (bnd (io (en_invoke env [d] (xp_timeout policy) 0)) (?k d)) ?Q closes"
    proof (rule triple_bnd[OF triple_io])
      fix x
      show "triple (assn (\<lambda>m r. ?F m r \<and> (\<exists>w. x = fst (en_invoke env [d] (xp_timeout policy) 0 w)))) (?k d x) ?Q closes"
        by (rule triple_assn_fact[where C = "\<exists>w. x = fst (en_invoke env [d] (xp_timeout policy) 0 w)"], blast)
          (blast intro: triple_assn_pre settle[OF that])
    qed
  qed (simp add: step_at_def)
  show ?thesis
    unfolding step_attempt_def
  proof (rule triple_bnd[OF triple_gets_resolver], rule triple_bnd)
    fix x d
    let ?r = "descriptorForStep (id_planHash idn) (id_projectKey idn) (id_runID idn) node input x n"
    show "triple (assn (\<lambda>m r. step_at ix m0 (node_id node) (waiting n) m r \<and> x = er_index r)) (descriptor_exec ?r)
      (\<lambda>d. assn (\<lambda>m r. step_at ix m0 (node_id node) (waiting n) m r \<and> ?r = Inr d)) closes"
      by (rule triple_conseq[OF descriptor_triple]) (use descriptorForStep_no_panic idn node in \<open>auto simp: step_at_def elim!: assn_mono\<close>)
    show "triple (assn (\<lambda>m r. step_at ix m0 (node_id node) (waiting n) m r \<and> ?r = Inr d))
      (thn (journal (markAttemptRunning (node_id node) n input)) (thn (writeRunManifest env idn False)
         (bnd (io (en_invoke env [d] (xp_timeout policy) 0)) (?k d)))) ?Q closes"
      by (rule triple_assn_fact[where C = "ds_nodeID d = node_id node"])
        (auto dest: descriptorForStep_node intro!: then_journal[where B = ?F] start_flying started)
  qed
qed

lemma step_attempts_triple:
  assumes "honest env" "safe_identity idn" "ValidSafePathSegment (node_id node)"
  shows "triple (assn (step_at ix m0 (node_id node) (waiting n))) (step_attempts env idn node input policy left n)
    (\<lambda>_. assn (step_at ix m0 (node_id node) succeeded)) closes"
  using assms by (induction left arbitrary: n) (auto intro!: step_attempt_triple)

lemma run_step_triple:
  assumes env: "honest env" and idn: "safe_identity idn" and node: "ValidSafePathSegment (node_id node)"
  shows "triple (assn (step_at ix m0 (node_id node) (waiting 1))) (run_step env idn node)
    (\<lambda>_. assn (step_at ix m0 (node_id node) succeeded)) closes" (is "triple (assn ?W) _ ?Q _")
proof -
  obtain key where key: "runInputKey (id_projectKey idn) (id_runID idn) (node_id node) None = Some key"
    using runInputKey_text[OF _ node, of "id_runID idn" None] idn by (auto simp: item_scope_def)
  have res: "triple (assn ?W) (of_result (\<lambda>e. plain_error (en_text env e)) res) (\<lambda>_. assn ?W) closes" for res
    unfolding closes_def[abs_def] by (rule triple_assn_of_result) (auto intro: step_at_closable)
  show ?thesis
    unfolding run_step_def Let_def key
    by (intro triple_bnd[OF triple_observe] triple_bnd[OF res] triple_bnd[OF triple_assn_must[OF refl, where B = "\<lambda>_. ?W"]]
        checked_io step_attempts_triple[OF assms])
      (auto simp: step_at_def dest: honestD(1)[OF env])
qed

end
