(* ===== verification/MapRun.thy ===== *)
theory MapRun
  imports StepRun
begin

text \<open>
  One map of a run: \<^verbatim>\<open>runMapNode\<close> and \<^verbatim>\<open>mapOutcomesByIndex\<close> of
  \<^verbatim>\<open>internal/orchestrator/orchestrator.go\<close>. Item indices are positions of the input array. The Go map of
  collected failures is a list in insertion order; \<open>CollectOutcomes_order\<close> says that its order is immaterial.
\<close>

section \<open>Outcomes by index\<close>

datatype outcomes_error =
    OutcomeCount nat nat
  | OutcomeUnscoped
  | OutcomeOutside
  | OutcomeDuplicate int
  | OutcomeOmitted

fun index_outcomes ::
    "string \<Rightarrow> int \<Rightarrow> nat list \<Rightarrow> StepInvocationOutcome list \<Rightarrow> (int \<times> StepInvocationOutcome) list
      \<Rightarrow> (outcomes_error, (int \<times> StepInvocationOutcome) list) result" where
  "index_outcomes mapID n wanted [] byIndex = Inr byIndex"
| "index_outcomes mapID n wanted (oc # ocs) byIndex =
     (if so_nodeID oc \<noteq> mapID \<or> so_attempt oc \<noteq> n then Inl OutcomeUnscoped
      else case so_scope oc of
        Some [frame] \<Rightarrow>
          if sf_kind frame \<noteq> ''map-item'' \<or> sf_map frame \<noteq> mapID \<or> sf_index frame \<notin> int ` set wanted then Inl OutcomeOutside
          else if map_of byIndex (sf_index frame) \<noteq> None then Inl (OutcomeDuplicate (sf_index frame))
          else index_outcomes mapID n wanted ocs ((sf_index frame, oc) # byIndex)
      | _ \<Rightarrow> Inl OutcomeUnscoped)"

definition mapOutcomesByIndex ::
    "string \<Rightarrow> int \<Rightarrow> StepInvocationOutcome list \<Rightarrow> nat list \<Rightarrow> bool
      \<Rightarrow> (outcomes_error, nat \<Rightarrow> StepInvocationOutcome option) result" where
  "mapOutcomesByIndex mapID n outcomes wanted requireComplete =
     (if requireComplete \<and> length outcomes \<noteq> length wanted then Inl (OutcomeCount (length outcomes) (length wanted))
      else bindE (index_outcomes mapID n wanted outcomes []) (\<lambda>byIndex.
        if requireComplete \<and> length byIndex \<noteq> length wanted then Inl OutcomeOmitted
        else Inr (\<lambda>i. map_of byIndex (int i))))"

section \<open>The rounds of a map\<close>

record map_acc =
  ma_results :: "Result list"
  ma_failures :: "(nat \<times> Failure) list"
  ma_first :: string

record round_acc = map_acc +
  ra_retry :: "(nat \<times> string) list"
  ra_terminal :: bool

definition raise_map :: "'w environment \<Rightarrow> GraphNode \<Rightarrow> string \<Rightarrow> go_error \<Rightarrow> ('w run_state, 'a) exec" where
  "raise_map env node diagnostic e =
     bnd (ctx_Err env) (\<lambda>c. thn (journal (failMapNode (c \<and> err_is_ctx e) (node_id node) diagnostic)) (raise e))"

definition guard_map :: "'w environment \<Rightarrow> GraphNode \<Rightarrow> string \<Rightarrow> (go_error, 'a) result \<Rightarrow> ('w run_state, 'a) exec" where
  "guard_map env node diagnostic r = (case r of Inl e \<Rightarrow> raise_map env node diagnostic e | Inr x \<Rightarrow> ret x)"

definition item_input :: "run_identity \<Rightarrow> GraphNode \<Rightarrow> string \<Rightarrow> bytes \<Rightarrow> DataArtifact" where
  "item_input idn node key body =
     \<lparr>da_key = key, da_hash = DigestBytes body, da_contentType = jsonContentType, da_schema = node_itemInputSchema node\<rparr>"

text \<open>The input of every item is stored before any item runs.\<close>

definition put_item ::
    "'w environment \<Rightarrow> run_identity \<Rightarrow> GraphNode \<Rightarrow> DataArtifact list \<Rightarrow> Item \<Rightarrow> ('w run_state, DataArtifact list) exec" where
  "put_item env idn node inputs item =
     bnd (must (runInputKey (id_projectKey idn) (id_runID idn) (node_id node) (Some [item_frame (node_id node) (int (item_index item))]))) (\<lambda>key.
     bnd (io (en_put env key (item_body item))) (\<lambda>e.
     case e of
       Some err \<Rightarrow> raise_map env node ''map item input publication failed'' err
     | None \<Rightarrow> ret (inputs @ [item_input idn node key (item_body item)])))"

definition item_descriptor ::
    "'w environment \<Rightarrow> run_identity \<Rightarrow> GraphNode \<Rightarrow> DataArtifact list \<Rightarrow> int \<Rightarrow> StepInvocationDescriptor list \<Rightarrow> nat
      \<Rightarrow> ('w run_state, StepInvocationDescriptor list) exec" where
  "item_descriptor env idn node inputs n ds i =
     bnd (gets (\<lambda>s. er_index (rn_resolver s))) (\<lambda>ix.
     bnd (attempt (descriptor_exec
       (descriptorForMapItem (id_planHash idn) (id_projectKey idn) (id_runID idn) node (inputs ! i) ix (int i) n))) (\<lambda>r.
     case r of
       Inl e \<Rightarrow> raise_map env node ''map item descriptor construction failed'' e
     | Inr d \<Rightarrow> ret (ds @ [d])))"

text \<open>Every reported dispatch is recorded before verification can fail.\<close>

definition record_dispatch ::
    "GraphNode \<Rightarrow> DataArtifact list \<Rightarrow> int \<Rightarrow> (nat \<Rightarrow> StepInvocationOutcome option) \<Rightarrow> unit \<Rightarrow> nat \<Rightarrow> ('w run_state, unit) exec" where
  "record_dispatch node inputs n byIndex u i =
     (case byIndex i of
        None \<Rightarrow> ret ()
      | Some oc \<Rightarrow>
          thn (journal (markMapItemRunning (node_id node) i n (inputs ! i)))
          (if so_status oc = StatusCancelled
           then journal (markMapItemTerminal (node_id node) i StatusCancelled ''invocation cancelled'')
           else if so_status oc = StatusInfraFailed
           then journal (markMapItemTerminal (node_id node) i StatusFailed ''invocation infrastructure failed'')
           else ret ()))"

definition first_failure :: "string \<Rightarrow> string \<Rightarrow> string" where
  "first_failure old new = (if old = [] then new else old)"

definition settle_item ::
    "'w environment \<Rightarrow> GraphNode \<Rightarrow> executionPolicy \<Rightarrow> bool \<Rightarrow> int \<Rightarrow> (nat \<Rightarrow> StepInvocationOutcome option)
      \<Rightarrow> round_acc \<Rightarrow> nat \<times> StepInvocationDescriptor \<Rightarrow> ('w run_state, round_acc) exec" where
  "settle_item env node policy mayRetry n byIndex acc = (\<lambda>(i, d).
     let terminal = (\<lambda>diagnostic. journal (markMapItemTerminal (node_id node) i StatusFailed diagnostic)) in
     case byIndex i of
       None \<Rightarrow> ret acc
     | Some oc \<Rightarrow>
         if so_status oc \<noteq> StatusSucceeded then
           if so_status oc = StatusCancelled \<or> so_status oc = StatusInfraFailed then ret acc
           else
             (let diagnostic = durableRunnerDiagnostic oc in
              if mayRetry \<and> retryableOutcome oc then
                thn (journal (markMapItemRetrying (node_id node) i diagnostic))
                  (ret (acc\<lparr>ra_retry := ra_retry acc @ [(i, diagnostic)]\<rparr>))
              else case (if node_itemFailures node = MapItemFailuresCollect then mapItemFailure oc n else None) of
                Some failure \<Rightarrow> thn (terminal diagnostic) (ret (acc\<lparr>ma_failures := ma_failures acc @ [(i, failure)]\<rparr>))
              | None \<Rightarrow>
                  thn (terminal diagnostic)
                    (ret (acc\<lparr>ra_terminal := True, ma_first := first_failure (ma_first acc) (runnerDiagnostic oc @ attemptSuffix n policy)\<rparr>)))
         else
           bnd (gets (\<lambda>s. er_index (rn_resolver s))) (\<lambda>ix.
           bnd (attempt (settleInvocation env d ix)) (\<lambda>res.
           case res of
             Inl e \<Rightarrow>
               thn (terminal ''map item output verification failed'')
                 (ret (acc\<lparr>ra_terminal := True, ma_first := first_failure (ma_first acc) (err_text e)\<rparr>))
           | Inr out \<Rightarrow>
               thn (journal_must (markMapItemSucceeded (node_id node) i (no_published out)))
                 (ret (acc\<lparr>ma_results := ma_results acc @ [\<lparr>res_index = int i, res_body = no_body out\<rparr>]\<rparr>)))))"

definition abandon_item :: "GraphNode \<Rightarrow> unit \<Rightarrow> nat \<times> string \<Rightarrow> ('w run_state, unit) exec" where
  "abandon_item node u = (\<lambda>(i, diagnostic). journal (markMapItemTerminal (node_id node) i StatusFailed diagnostic))"

definition invocation_error :: "StepInvocationOutcome list \<Rightarrow> go_error option \<Rightarrow> go_error option" where
  "invocation_error outcomes invokeErr =
     (case find (\<lambda>oc. so_fatal oc \<noteq> None) outcomes of
        Some oc \<Rightarrow> map_option fatal_error (so_fatal oc)
      | None \<Rightarrow> invokeErr)"

definition invocation_diagnostic :: "bool \<Rightarrow> go_error \<Rightarrow> string" where
  "invocation_diagnostic cancelled e =
     (case err_fatal e of
        Some f \<Rightarrow> err_text (fatal_error f)
      | None \<Rightarrow> if cancelled \<and> err_is_ctx e then ''map execution cancelled'' else ''map invocation infrastructure failed'')"

text \<open>
  One round: dispatch the pending items, record and settle what is reported, and decide what the next
  round retries. \<open>mayRetry\<close> says that the attempt is below the policy's maximum.
\<close>

definition settle_reported ::
    "'w environment \<Rightarrow> GraphNode \<Rightarrow> DataArtifact list \<Rightarrow> executionPolicy \<Rightarrow> bool \<Rightarrow> int \<Rightarrow> nat list
      \<Rightarrow> StepInvocationDescriptor list \<Rightarrow> StepInvocationOutcome list \<Rightarrow> go_error option \<Rightarrow> map_acc
      \<Rightarrow> (nat \<Rightarrow> StepInvocationOutcome option) \<Rightarrow> ('w run_state, round_acc) exec" where
  "settle_reported env node inputs policy mayRetry n pending ds outcomes invokeErr acc byIndex =
     thn (each (record_dispatch node inputs n byIndex) () pending)
     (bnd (each (settle_item env node policy mayRetry n byIndex) (map_acc.extend acc \<lparr>ra_retry = [], ra_terminal = False\<rparr>) (zip pending ds)) (\<lambda>racc.
     case invocation_error outcomes invokeErr of
       Some e \<Rightarrow> bnd (ctx_Err env) (\<lambda>c. raise_map env node (invocation_diagnostic c e) e)
     | None \<Rightarrow>
         bnd (ctx_Err env) (\<lambda>c.
         if c then raise_map env node ''map execution cancelled'' ctx_error
         else if ra_terminal racc
         then thn (each (abandon_item node) () (ra_retry racc)) (ret (racc\<lparr>ra_retry := []\<rparr>))
         else ret racc)))"

definition settle_round ::
    "'w environment \<Rightarrow> GraphNode \<Rightarrow> DataArtifact list \<Rightarrow> executionPolicy \<Rightarrow> bool \<Rightarrow> int \<Rightarrow> nat list
      \<Rightarrow> StepInvocationDescriptor list \<Rightarrow> StepInvocationOutcome list \<Rightarrow> go_error option \<Rightarrow> map_acc \<Rightarrow> ('w run_state, round_acc) exec" where
  "settle_round env node inputs policy mayRetry n pending ds outcomes invokeErr acc =
     bnd (guard_map env node ''map invocation protocol failed''
       (map_sum (\<lambda>_. plain_error ''map invoker broke the protocol'') id
         (mapOutcomesByIndex (node_id node) n outcomes pending (invokeErr = None))))
       (settle_reported env node inputs policy mayRetry n pending ds outcomes invokeErr acc)"

definition map_round ::
    "'w environment \<Rightarrow> run_identity \<Rightarrow> GraphNode \<Rightarrow> DataArtifact list \<Rightarrow> executionPolicy
      \<Rightarrow> (int \<Rightarrow> nat list \<Rightarrow> map_acc \<Rightarrow> ('w run_state, map_acc) exec) option
      \<Rightarrow> int \<Rightarrow> nat list \<Rightarrow> map_acc \<Rightarrow> ('w run_state, map_acc) exec" where
  "map_round env idn node inputs policy again n pending acc =
     (if pending = [] then ret acc
      else
        thn (if 1 < n
             then thn (writeRunManifest env idn False)
               (bnd (io (en_wait env (delayBefore policy n))) (\<lambda>e.
                case e of Some err \<Rightarrow> raise_map env node ''map execution cancelled'' err | None \<Rightarrow> ret ()))
             else ret ())
        (bnd (each (item_descriptor env idn node inputs n) [] pending) (\<lambda>ds.
         bnd (io (en_invoke env ds (xp_timeout policy) (int (node_maxConcurrency node)))) (\<lambda>(outcomes, invokeErr).
         bnd (settle_round env node inputs policy (again \<noteq> None) n pending ds outcomes invokeErr acc) (\<lambda>racc.
         case again of
           None \<Rightarrow> ret (map_acc.truncate racc)
         | Some k \<Rightarrow> k (n + 1) (map fst (ra_retry racc)) (map_acc.truncate racc))))))"

primrec map_rounds ::
    "'w environment \<Rightarrow> run_identity \<Rightarrow> GraphNode \<Rightarrow> DataArtifact list \<Rightarrow> executionPolicy \<Rightarrow> nat
      \<Rightarrow> int \<Rightarrow> nat list \<Rightarrow> map_acc \<Rightarrow> ('w run_state, map_acc) exec" where
  "map_rounds env idn node inputs policy 0 = map_round env idn node inputs policy None"
| "map_rounds env idn node inputs policy (Suc left) =
     map_round env idn node inputs policy (Some (map_rounds env idn node inputs policy left))"

section \<open>The map\<close>

definition collect_map ::
    "'w environment \<Rightarrow> GraphNode \<Rightarrow> nat \<Rightarrow> map_acc \<Rightarrow> (map_error, bytes) result" where
  "collect_map env node cnt acc =
     (if node_itemFailures node = MapItemFailuresCollect
      then CollectOutcomes (en_number env) (int cnt)
        (map (\<lambda>r. \<lparr>oc_index = res_index r, oc_value = Some (res_body r), oc_failure = None\<rparr>) (ma_results acc)
         @ map (\<lambda>(i, f). \<lparr>oc_index = int i, oc_value = None, oc_failure = Some f\<rparr>) (ma_failures acc))
      else Collect_map (en_number env) (int cnt) (ma_results acc))"

definition publish_map ::
    "'w environment \<Rightarrow> run_identity \<Rightarrow> GraphNode \<Rightarrow> bytes \<Rightarrow> ('w run_state, nodeOutput) exec" where
  "publish_map env idn node body =
     bnd (must (runOutputManifestKey (id_projectKey idn) (id_runID idn) (node_id node) None 1)) (\<lambda>key.
     let destination = \<lparr>dt_manifestKey = key, dt_schema = node_outputSchema node\<rparr>;
         producer = \<lparr>pr_projectKey = id_projectKey idn, pr_planHash = id_planHash idn, pr_runID = id_runID idn,
           pr_nodeID = node_id node, pr_attempt = 1, pr_scope = None\<rparr> in
     bnd (io (en_publish env destination producer body)) (\<lambda>e.
     thn (guard_map env node ''map collection publication failed'' (case e of Some err \<Rightarrow> Inl err | None \<Rightarrow> Inr ()))
     (bnd (io (en_resolve env False destination producer)) (\<lambda>r.
      bnd (guard_map env node ''map collection verification failed'' r) (\<lambda>(published, verified).
      ret (nodeOutputFromPublished published verified))))))"

definition finish_map ::
    "'w environment \<Rightarrow> run_identity \<Rightarrow> GraphNode \<Rightarrow> nat \<Rightarrow> map_acc \<Rightarrow> ('w run_state, nodeOutput) exec" where
  "finish_map env idn node cnt acc =
     bnd (gets rn_manifest) (\<lambda>m.
     if mapHasFailedItem m (node_id node) (int ` fst ` set (ma_failures acc))
     then raise_map env node ''one or more map items failed'' (plain_error (first_failure (ma_first acc) ''one or more map items failed''))
     else
       bnd (guard_map env node ''map collection failed''
         (map_sum (\<lambda>_. plain_error ''map collection failed'') id (collect_map env node cnt acc))) (\<lambda>body.
       bnd (publish_map env idn node body) (\<lambda>out.
       thn (journal_must (markAttemptSucceeded (node_id node) (no_published out)))
       (thn (writeRunManifest env idn False) (ret out)))))"

definition MaxInt :: int where
  "MaxInt = 2 ^ 63 - 1"

definition run_items ::
    "'w environment \<Rightarrow> run_identity \<Rightarrow> GraphNode \<Rightarrow> Item list \<Rightarrow> ('w run_state, nodeOutput) exec" where
  "run_items env idn node items =
     thn (journal (markMapItemsPending (node_id node) (length items)))
     (bnd (each (put_item env idn node) [] items) (\<lambda>inputs.
      thn (writeRunManifest env idn False)
      (if MaxInt < int (node_maxConcurrency node)
       then raise_map env node ''map concurrency is unsupported by this executor'' (plain_error ''map maxConcurrency exceeds the local executor integer range'')
       else
         bnd (gets (\<lambda>s. er_index (rn_resolver s))) (\<lambda>ix.
         let policy = policyForContract (ix_contracts ix (node_contractRef node)) in
         bnd (map_rounds env idn node inputs policy (nat (xp_maxAttempts policy - 1)) 1 [0..<length items]
           \<lparr>ma_results = [], ma_failures = [], ma_first = []\<rparr>) (\<lambda>acc.
         finish_map env idn node (length items) acc)))))"

definition runMapNode :: "'w environment \<Rightarrow> run_identity \<Rightarrow> GraphNode \<Rightarrow> ('w run_state, nodeOutput) exec" where
  "runMapNode env idn node =
     bnd (gets rn_resolver) (\<lambda>r.
     bnd (of_result (\<lambda>e. plain_error (en_text env e)) (inputForNode (en_number env) r node)) (\<lambda>body.
     bnd (must (runInputKey (id_projectKey idn) (id_runID idn) (node_id node) None)) (\<lambda>key.
     let input = \<lparr>da_key = key, da_hash = DigestBytes body, da_contentType = jsonContentType, da_schema = node_inputSchema node\<rparr> in
     bnd (io (en_put env key body)) (\<lambda>e.
     thn (check_err e)
     (thn (journal (markAttemptRunning (node_id node) 1 input))
     (thn (writeRunManifest env idn False)
     (bnd (guard_map env node ''map input expansion failed''
        (map_sum (\<lambda>_. plain_error ''map input expansion failed'') id (Expand (en_number env) body))) (\<lambda>items.
      run_items env idn node items))))))))"

section \<open>What the index of outcomes says\<close>

lemma index_outcomes_Inr:
  assumes "index_outcomes mapID n wanted ocs acc = Inr byIndex" "distinct (map fst acc)" "fst ` set acc \<subseteq> int ` set wanted"
  shows "distinct (map fst byIndex) \<and> fst ` set byIndex \<subseteq> int ` set wanted \<and> length byIndex = length ocs + length acc
    \<and> set byIndex = set acc \<union> {(sf_index frame, oc) | frame oc. oc \<in> set ocs \<and> so_scope oc = Some [frame]}
    \<and> (\<forall>oc \<in> set ocs. so_nodeID oc = mapID \<and> so_attempt oc = n \<and> (\<exists>frame. so_scope oc = Some [frame] \<and> sf_index frame \<in> int ` set wanted))"
  using assms
proof (induction ocs arbitrary: acc)
  case (Cons oc ocs)
  obtain frame where fr: "so_scope oc = Some [frame]" "so_nodeID oc = mapID" "so_attempt oc = n"
    "sf_index frame \<in> int ` set wanted" "map_of acc (sf_index frame) = None"
    and rest: "index_outcomes mapID n wanted ocs ((sf_index frame, oc) # acc) = Inr byIndex"
    using Cons.prems(1) by (auto split: if_splits option.splits list.splits)
  then show ?case
    using Cons.IH[OF rest] Cons.prems(2,3) by (auto simp: map_of_eq_None_iff)
qed auto

lemma mapOutcomesByIndex_reports:
  assumes "mapOutcomesByIndex mapID n outcomes wanted c = Inr byIndex" "oc \<in> set outcomes"
  shows "\<exists>i \<in> set wanted. byIndex i = Some oc"
proof -
  obtain b where b: "index_outcomes mapID n wanted outcomes [] = Inr b" "byIndex = (\<lambda>i. map_of b (int i))"
    using assms(1) by (auto simp: mapOutcomesByIndex_def bindE_def split: if_splits sum.splits)
  note f = index_outcomes_Inr[OF b(1)]
  then obtain frame where fr: "so_scope oc = Some [frame]" "sf_index frame \<in> int ` set wanted" "(sf_index frame, oc) \<in> set b"
    using assms(2) by auto
  then have "map_of b (sf_index frame) = Some oc" using f by (auto intro: map_of_is_SomeI)
  then show ?thesis using fr(2) b(2) by auto
qed

lemma mapOutcomesByIndex_complete:
  assumes "mapOutcomesByIndex mapID n outcomes wanted True = Inr byIndex" "distinct wanted" "i \<in> set wanted"
  shows "byIndex i \<noteq> None"
proof -
  obtain b where b: "index_outcomes mapID n wanted outcomes [] = Inr b" "byIndex = (\<lambda>i. map_of b (int i))" "length b = length wanted"
    using assms(1) by (auto simp: mapOutcomesByIndex_def bindE_def split: if_splits sum.splits)
  note f = index_outcomes_Inr[OF b(1)]
  have "card (fst ` set b) = length wanted" using f b(3) by (metis distinct_card length_map list.set_map list.map(1) distinct.simps(1) empty_subsetI image_empty list.set(1))
  moreover have "card (int ` set wanted) = length wanted" using assms(2) by (simp add: card_image distinct_card)
  moreover have "fst ` set b \<subseteq> int ` set wanted" using f by auto
  ultimately have "fst ` set b = int ` set wanted" by (metis card_subset_eq finite_imageI finite_set)
  then have "int i \<in> fst ` set b" using assms(3) by blast
  then show ?thesis using b(2) by (simp add: map_of_eq_None_iff)
qed

lemma mapOutcomesByIndex_Some:
  assumes "mapOutcomesByIndex mapID n outcomes wanted c = Inr byIndex" "byIndex i = Some oc"
  shows "oc \<in> set outcomes"
proof -
  obtain b where b: "index_outcomes mapID n wanted outcomes [] = Inr b" "byIndex = (\<lambda>i. map_of b (int i))"
    using assms(1) by (auto simp: mapOutcomesByIndex_def bindE_def split: if_splits sum.splits)
  then have "(int i, oc) \<in> set b" using assms(2) by (auto dest: map_of_SomeD)
  then show ?thesis using index_outcomes_Inr[OF b(1)] by auto
qed

section \<open>The life of a map's items\<close>

datatype phase = Waiting int | Flying int | Closed string

primrec in_phase :: "phase \<Rightarrow> MapItem \<Rightarrow> bool" where
  "in_phase (Waiting n) it = (item_awaiting it \<and> n = int (length (it_attempts it)) + 1)"
| "in_phase (Flying n) it = (it_status it = StatusRunning \<and> it_attempts it \<noteq> [] \<and> n = int (length (it_attempts it)))"
| "in_phase (Closed s) it = (it_status it = s \<and> s \<noteq> StatusNotStarted \<and> it_attempts it \<noteq> [])"

definition mapping :: "nat \<Rightarrow> string \<Rightarrow> (nat \<Rightarrow> phase) \<Rightarrow> Step \<Rightarrow> bool" where
  "mapping cnt fails shape st =
     (in_flight st \<and> st_itemFailures st = fails
      \<and> (\<exists>its. st_items st = Some its \<and> length its = cnt \<and> (\<forall>i < cnt. in_phase (shape i) (its ! i))))"

lemma in_phase_started: "in_phase p it \<Longrightarrow> it_status it \<noteq> StatusNotStarted"
  by (cases p) (auto simp: item_awaiting_def)

lemma close_last_nonempty [simp]: "close_last status diagnostic as \<noteq> []"
  by (simp add: close_last_def)

lemma length_update_last [simp]: "length (update_last f as) = length as"
  by (simp add: update_last_def)

lemma update_item_at:
  assumes at: "step_at ix m0 node (mapping cnt fails shape) m r" and i: "i < cnt"
    and f: "\<And>it. item_inv it \<Longrightarrow> in_phase (shape i) it \<Longrightarrow> item_inv (f it) \<and> it_index (f it) = it_index it \<and> in_phase q (f it)"
  shows "step_at ix m0 node (mapping cnt fails (shape(i := q))) (update_item node i f m) r"
proof -
  obtain st its where st: "findManifestStep m node = Some st" "mapping cnt fails shape st" "journal_inv m"
    and its: "st_items st = Some its" "length its = cnt" "\<forall>i < cnt. in_phase (shape i) (its ! i)"
    using at by (auto simp: step_at_def running_manifest_def mapping_def)
  have inv: "journal_inv (update_item node i f m)"
    by (rule update_item_inv[OF st(3,1)])
      (use st its i f in_phase_started in \<open>auto simp: mapping_def in_flight_def\<close>)
  then show ?thesis
    unfolding update_item_def update_items_def
  proof (rule step_at_update[OF at, rotated])
    fix st' assume f': "findManifestStep m node = Some st'" and p: "mapping cnt fails shape st'"
    have "item_inv (its ! i)"
      using findManifestStep_inv(1)[OF st(3,1)] its i by (auto simp: step_inv_def items_inv_def)
    then show "mapping cnt fails (shape(i := q)) (st'\<lparr>st_items := map_option (\<lambda>its. if i < length its then its[i := f (its ! i)] else its) (st_items st')\<rparr>)"
      using f' p st(1) its i f by (auto simp: mapping_def in_flight_def nth_list_update)
  qed simp
qed

lemma item_start:
  assumes "step_at ix m0 node (mapping cnt fails shape) m r" "i < cnt" "shape i = Waiting n"
  shows "step_at ix m0 node (mapping cnt fails (shape(i := Flying n))) (markMapItemRunning node i n input m) r"
  unfolding markMapItemRunning_def
  by (rule update_item_at[OF assms(1,2)]) (use assms(3) item_running in auto)

lemma item_close:
  assumes "step_at ix m0 node (mapping cnt fails shape) m r" "i < cnt" "status = StatusFailed \<or> status = StatusCancelled"
  shows "step_at ix m0 node (mapping cnt fails (shape(i := Closed status))) (markMapItemTerminal node i status diagnostic m) r"
  unfolding markMapItemTerminal_def
  by (rule update_item_at[OF assms(1,2)]) (use assms(3) item_closed in auto)

lemma item_retry:
  assumes "step_at ix m0 node (mapping cnt fails shape) m r" "i < cnt" "shape i = Flying n"
  shows "step_at ix m0 node (mapping cnt fails (shape(i := Waiting (n + 1)))) (markMapItemRetrying node i diagnostic m) r"
  unfolding markMapItemRetrying_def
  by (rule update_item_at[OF assms(1,2)])
    (use assms(3) item_retrying in \<open>auto simp: item_awaiting_def close_attempt_def\<close>)

lemma item_succeed:
  assumes "step_at ix m0 node (mapping cnt fails shape) m r" "i < cnt" "shape i = Flying n"
  shows "\<exists>m'. markMapItemSucceeded node i output m = Some m'
    \<and> step_at ix m0 node (mapping cnt fails (shape(i := Closed StatusSucceeded))) m' r"
proof -
  obtain st its where "findManifestStep m node = Some st" "st_items st = Some its" "length its = cnt" "in_phase (shape i) (its ! i)"
    using assms(1,2) by (auto simp: step_at_def mapping_def)
  then have "markMapItemSucceeded node i output m = Some (update_item node i (\<lambda>it. it\<lparr>it_status := StatusSucceeded,
      it_attempts := update_last (\<lambda>a. a\<lparr>at_status := StatusSucceeded, at_output := Some output\<rparr>) (it_attempts it)\<rparr>) m)"
    using assms(2,3) by (simp add: markMapItemSucceeded_def)
  moreover have "step_at ix m0 node (mapping cnt fails (shape(i := Closed StatusSucceeded))) (update_item node i (\<lambda>it. it\<lparr>it_status := StatusSucceeded,
      it_attempts := update_last (\<lambda>a. a\<lparr>at_status := StatusSucceeded, at_output := Some output\<rparr>) (it_attempts it)\<rparr>) m) r"
    by (rule update_item_at[OF assms(1,2)]) (use assms(3) item_succeeded in auto)
  ultimately show ?thesis by blast
qed

section \<open>Failing a map\<close>

lemma failMapNode_simps [simp]:
  "mf_status (failMapNode c node d m) = mf_status m" "mf_failure (failMapNode c node d m) = mf_failure m"
  "mf_exitHook (failMapNode c node d m) = mf_exitHook m"
  by (simp_all add: failMapNode_step Let_def)

lemma raise_map_closes:
  assumes "quiet e" "\<And>m r. A m r \<Longrightarrow> running_manifest m"
  shows "triple (assn A) (raise_map env node diagnostic e) Q closes"
  unfolding raise_map_def ctx_Err_def
  by (intro triple_bnd[OF triple_io] then_journal[where B = "\<lambda>m r. closable e m"] raise_closes)
    (use assms in \<open>auto simp: closable_def running_manifest_def dest!: assms(2) intro: failMapNode_inv\<close>)

lemma guard_map_triple:
  assumes "\<And>e. res = Inl e \<Longrightarrow> quiet e" "\<And>m r. A m r \<Longrightarrow> running_manifest m"
  shows "triple (assn A) (guard_map env node diagnostic res) (\<lambda>x. assn (\<lambda>m r. A m r \<and> res = Inr x)) closes"
proof (cases res)
  case (Inl e)
  then show ?thesis using assms by (simp add: guard_map_def raise_map_closes)
next
  case (Inr x)
  then show ?thesis by (auto simp: guard_map_def intro: triple_assn_ret)
qed

text \<open>A fatal item outcome names its map.\<close>

lemma fatal_closable:
  assumes at: "step_at ix m0 node (mapping cnt fails shape) m r" and i: "i < cnt"
    and ph: "shape i = Closed StatusFailed \<or> (\<exists>k \<ge> 2. shape i = Waiting k)" and e: "\<And>g. err_fatal e = Some g \<Longrightarrow> ff_node g = node"
  shows "closable e (failMapNode False node diagnostic m)"
proof -
  let ?m = "failMapNode False node diagnostic m"
  obtain st its where st: "findManifestStep m node = Some st" "journal_inv m" "mf_failure m = None" "mf_exitHook m = None"
    and its: "st_items st = Some its" "length its = cnt" "in_phase (shape i) (its ! i)"
    using at i by (auto simp: step_at_def running_manifest_def mapping_def)
  have "item_inv (its ! i)"
    using findManifestStep_inv(1)[OF st(2,1)] its i by (auto simp: step_inv_def items_inv_def)
  let ?st = "st\<lparr>st_items := map_option (map (finish_item StatusFailed)) (st_items st), st_status := StatusFailed,
        st_attempts := close_last StatusFailed diagnostic (st_attempts st)\<rparr>"
  have inv: "journal_inv ?m" using st(2) by (rule failMapNode_inv)
  have f: "findManifestStep ?m node = Some ?st"
    using st(1) by (simp add: failMapNode_step)
  have "it_status (finish_item StatusFailed (its ! i)) = StatusFailed \<and> it_attempts (finish_item StatusFailed (its ! i)) \<noteq> []"
    using ph its(3) \<open>item_inv (its ! i)\<close> by (auto simp: finish_item_def item_awaiting_def item_inv_def)
  then have "fatal_named g ?st" if "err_fatal e = Some g" for g
    using e[OF that] findManifestStep_inv(3)[OF inv f] its i by (auto simp: fatal_named_def intro!: bexI[of _ "its ! i"])
  then show ?thesis
    using findManifestStep_inv(2)[OF inv f] inv st by (auto simp: closable_def list_ex_iff)
qed

lemma raise_map_fatal:
  assumes "\<And>m r. A m r \<Longrightarrow> \<exists>shape i. step_at ix m0 (node_id node) (mapping cnt fails shape) m r \<and> i < cnt
      \<and> (shape i = Closed StatusFailed \<or> (\<exists>k \<ge> 2. shape i = Waiting k))"
    and "\<And>g. err_fatal e = Some g \<Longrightarrow> ff_node g = node_id node" "\<not> err_is_ctx e"
  shows "triple (assn A) (raise_map env node diagnostic e) Q closes"
  unfolding raise_map_def ctx_Err_def
  by (intro triple_bnd[OF triple_io] then_journal[where B = "\<lambda>m r. closable e m"] raise_closes)
    (use assms in \<open>auto dest!: assms(1) intro: fatal_closable\<close>)

section \<open>The triples of a round\<close>

definition maps ::
    "executionIndex \<Rightarrow> Manifest \<Rightarrow> string \<Rightarrow> nat \<Rightarrow> string \<Rightarrow> ((nat \<Rightarrow> phase) \<Rightarrow> bool) \<Rightarrow> Manifest \<Rightarrow> executionResolver \<Rightarrow> bool" where
  "maps ix m0 node cnt fails S m r = (\<exists>shape. step_at ix m0 node (mapping cnt fails shape) m r \<and> S shape)"

lemma maps_running: "maps ix m0 node cnt fails S m r \<Longrightarrow> running_manifest m"
  by (auto simp: maps_def step_at_def)

definition at_dispatch :: "(nat \<Rightarrow> StepInvocationOutcome option) \<Rightarrow> int \<Rightarrow> nat \<Rightarrow> phase" where
  "at_dispatch byIndex n i =
     (case byIndex i of
        None \<Rightarrow> Waiting n
      | Some oc \<Rightarrow> if so_status oc = StatusCancelled then Closed StatusCancelled
          else if so_status oc = StatusInfraFailed then Closed StatusFailed else Flying n)"

definition settled_rest :: "nat \<Rightarrow> nat list \<Rightarrow> nat set \<Rightarrow> (nat \<Rightarrow> phase) \<Rightarrow> bool" where
  "settled_rest cnt pending collected shape =
     ((\<forall>i < cnt. i \<notin> set pending \<longrightarrow> (\<exists>s. shape i = Closed s)) \<and> (\<forall>i \<in> collected. shape i = Closed StatusFailed))"

definition pend :: "nat \<Rightarrow> int \<Rightarrow> nat list \<Rightarrow> nat set \<Rightarrow> (nat \<Rightarrow> phase) \<Rightarrow> bool" where
  "pend cnt n pending collected shape = ((\<forall>i \<in> set pending. shape i = Waiting n) \<and> settled_rest cnt pending collected shape)"

definition item_settled :: "(nat \<Rightarrow> StepInvocationOutcome option) \<Rightarrow> int \<Rightarrow> nat set \<Rightarrow> nat \<Rightarrow> phase \<Rightarrow> bool" where
  "item_settled byIndex n retry i p =
     (case byIndex i of
        None \<Rightarrow> p = Waiting n \<and> i \<notin> retry
      | Some oc \<Rightarrow> (if i \<in> retry then p = Waiting (n + 1) else \<exists>s. p = Closed s \<and> (so_status oc = StatusFailed \<longrightarrow> s = StatusFailed)))"

definition settling ::
    "nat \<Rightarrow> string \<Rightarrow> bool \<Rightarrow> (nat \<Rightarrow> StepInvocationOutcome option) \<Rightarrow> int \<Rightarrow> nat list \<Rightarrow> nat list \<Rightarrow> round_acc \<Rightarrow> (nat \<Rightarrow> phase) \<Rightarrow> bool" where
  "settling cnt fails mayRetry byIndex n pending ys racc shape =
     ((\<forall>i \<in> set pending - set ys. shape i = at_dispatch byIndex n i)
      \<and> (\<forall>i \<in> set ys. item_settled byIndex n (fst ` set (ra_retry racc)) i (shape i))
      \<and> settled_rest cnt pending (fst ` set (ma_failures racc)) shape
      \<and> fst ` set (ra_retry racc) \<subseteq> set ys \<and> distinct (map fst (ra_retry racc))
      \<and> (ma_failures racc \<noteq> [] \<longrightarrow> fails = MapItemFailuresCollect) \<and> (\<not> mayRetry \<longrightarrow> ra_retry racc = []))"

lemma maps_mono: "maps ix m0 node cnt fails S m r \<Longrightarrow> (\<And>shape. S shape \<Longrightarrow> T shape) \<Longrightarrow> maps ix m0 node cnt fails T m r"
  by (auto simp: maps_def)

lemma maps_start:
  assumes "maps ix m0 node cnt fails S m r" "i < cnt" "\<And>shape. S shape \<Longrightarrow> shape i = Waiting n \<and> T (shape(i := Flying n))"
  shows "maps ix m0 node cnt fails T (markMapItemRunning node i n input m) r"
  using assms item_start unfolding maps_def by blast

lemma maps_close:
  assumes "maps ix m0 node cnt fails S m r" "i < cnt" "status = StatusFailed \<or> status = StatusCancelled"
    and "\<And>shape. S shape \<Longrightarrow> T (shape(i := Closed status))"
  shows "maps ix m0 node cnt fails T (markMapItemTerminal node i status diagnostic m) r"
  using assms(1,4) item_close[OF _ assms(2,3)] unfolding maps_def by blast

lemma maps_retry:
  assumes "maps ix m0 node cnt fails S m r" "i < cnt" "\<And>shape. S shape \<Longrightarrow> shape i = Flying n \<and> T (shape(i := Waiting (n + 1)))"
  shows "maps ix m0 node cnt fails T (markMapItemRetrying node i diagnostic m) r"
  using assms item_retry unfolding maps_def by blast

lemma maps_succeed:
  assumes "maps ix m0 node cnt fails S m r" "i < cnt" "\<And>shape. S shape \<Longrightarrow> shape i = Flying n \<and> T (shape(i := Closed StatusSucceeded))"
  shows "\<exists>m'. markMapItemSucceeded node i output m = Some m' \<and> maps ix m0 node cnt fails T m' r"
  using assms item_succeed unfolding maps_def by blast

definition recording :: "nat \<Rightarrow> nat list \<Rightarrow> nat set \<Rightarrow> (nat \<Rightarrow> StepInvocationOutcome option) \<Rightarrow> int \<Rightarrow> nat list \<Rightarrow> (nat \<Rightarrow> phase) \<Rightarrow> bool" where
  "recording cnt pending collected byIndex n ys shape =
     ((\<forall>i \<in> set pending. shape i = (if i \<in> set ys then at_dispatch byIndex n i else Waiting n)) \<and> settled_rest cnt pending collected shape)"

lemma recording_step:
  assumes "recording cnt pending collected byIndex n ys shape" "x \<in> set pending" "x \<notin> set ys"
  shows "shape x = Waiting n" "recording cnt pending collected byIndex n (ys @ [x]) (shape(x := at_dispatch byIndex n x))"
  using assms by (auto simp: recording_def settled_rest_def)

lemma record_dispatch_triple:
  assumes "distinct pending" "set pending \<subseteq> {..<cnt}"
  shows "triple (assn (maps ix m0 (node_id node) cnt fails (pend cnt n pending collected)))
    (each (record_dispatch node inputs n byIndex) () pending)
    (\<lambda>_. assn (maps ix m0 (node_id node) cnt fails (recording cnt pending collected byIndex n pending))) closes"
proof -
  let ?M = "maps ix m0 (node_id node) cnt fails"
  let ?R = "recording cnt pending collected byIndex n"
  have "triple (assn (?M (?R ys))) (record_dispatch node inputs n byIndex u x) (\<lambda>_. assn (?M (?R (ys @ [x])))) closes"
    if p: "pending = ys @ x # zs" for ys x zs u
  proof -
    have x: "x \<notin> set ys" "x < cnt" "x \<in> set pending" using p assms by auto
    let ?F = "\<lambda>shape. shape x = Flying n \<and> ?R (ys @ [x]) (shape(x := at_dispatch byIndex n x))"
    have start: "?M ?F (markMapItemRunning (node_id node) x n (inputs ! x) m) r" if "?M (?R ys) m r" for m r
      by (rule maps_start[OF that x(2)]) (use recording_step[OF _ x(3,1)] in auto)
    have close: "triple (assn (?M ?F)) (journal (markMapItemTerminal (node_id node) x s d)) (\<lambda>_. assn (?M (?R (ys @ [x])))) closes"
      if s: "s = StatusFailed \<or> s = StatusCancelled" "at_dispatch byIndex n x = Closed s" for s d
      by (rule triple_assn_pre[OF triple_journal[where A = "?M (?R (ys @ [x]))"]], rule maps_close[where S = ?F]) (use x s in auto)
    have fly: "?M ?F m r \<Longrightarrow> at_dispatch byIndex n x = Flying n \<Longrightarrow> ?M (?R (ys @ [x])) m r" for m r
      by (erule maps_mono) (metis fun_upd_triv)
    have skip: "?M (?R ys) m r \<Longrightarrow> at_dispatch byIndex n x = Waiting n \<Longrightarrow> ?M (?R (ys @ [x])) m r" for m r
      by (erule maps_mono) (metis fun_upd_triv recording_step[OF _ x(3,1)])
    show ?thesis
    proof (cases "byIndex x")
      case None
      then show ?thesis using skip by (simp add: record_dispatch_def at_dispatch_def) (rule triple_assn_ret)
    next
      case (Some oc)
      have "triple (assn (?M ?F))
        (if so_status oc = StatusCancelled then journal (markMapItemTerminal (node_id node) x StatusCancelled ''invocation cancelled'')
           else if so_status oc = StatusInfraFailed
           then journal (markMapItemTerminal (node_id node) x StatusFailed ''invocation infrastructure failed'')
           else ret ()) (\<lambda>_. assn (?M (?R (ys @ [x])))) closes"
        using Some fly by (intro triple_cases_if close triple_assn_ret) (auto simp: at_dispatch_def)
      then show ?thesis unfolding record_dispatch_def Some option.case by (rule then_journal[rotated]) (rule start)
    qed
  qed
  then have "triple (assn (?M (?R []))) (each (record_dispatch node inputs n byIndex) () pending) (\<lambda>_. assn (?M (?R pending))) closes"
    by (rule triple_each[where I = "\<lambda>ys _. assn (?M (?R ys))"])
  then show ?thesis by (rule triple_assn_pre) (auto simp: recording_def pend_def elim!: maps_mono)
qed

lemma item_settled_other: "i \<noteq> x \<Longrightarrow> item_settled byIndex n (insert x R) i p = item_settled byIndex n R i p"
  by (simp add: item_settled_def split: option.splits)

lemma settling_at:
  assumes "settling cnt fails mayRetry byIndex n pending ys racc shape" "x \<in> set pending" "x \<notin> set ys"
  shows "shape x = at_dispatch byIndex n x" "x \<notin> fst ` set (ra_retry racc)"
  using assms by (auto simp: settling_def)

text \<open>One more item settled: its phase \<open>p\<close> replaces the one its dispatch left.\<close>

lemma settling_step:
  assumes s: "settling cnt fails mayRetry byIndex n pending ys racc shape" and x: "x \<in> set pending" "x \<notin> set ys"
    and p: "at_dispatch byIndex n x = Flying n \<or> p = at_dispatch byIndex n x"
    and R: "ra_retry racc' = ra_retry racc \<or> (mayRetry \<and> (\<exists>d. ra_retry racc' = ra_retry racc @ [(x, d)]))"
    and F: "ma_failures racc' = ma_failures racc
      \<or> (p = Closed StatusFailed \<and> fails = MapItemFailuresCollect \<and> (\<exists>g. ma_failures racc' = ma_failures racc @ [(x, g)]))"
    and settled: "item_settled byIndex n (fst ` set (ra_retry racc')) x p"
  shows "settling cnt fails mayRetry byIndex n pending (ys @ [x]) racc' (shape(x := p))"
  unfolding settling_def
proof (intro conjI)
  note at = settling_at[OF s x]
  show "\<forall>i \<in> set pending - set (ys @ [x]). (shape(x := p)) i = at_dispatch byIndex n i"
    using s by (auto simp: settling_def)
  have "item_settled byIndex n (fst ` set (ra_retry racc')) i (shape i)" if "i \<in> set ys" for i
  proof -
    have "item_settled byIndex n (fst ` set (ra_retry racc)) i (shape i)" "i \<noteq> x" using s x(2) that by (auto simp: settling_def)
    moreover have "fst ` set (ra_retry racc') \<in> {fst ` set (ra_retry racc), insert x (fst ` set (ra_retry racc))}"
      using R by auto
    ultimately show ?thesis using item_settled_other by fastforce
  qed
  then show "\<forall>i \<in> set (ys @ [x]). item_settled byIndex n (fst ` set (ra_retry racc')) i ((shape(x := p)) i)"
    using settled x(2) by auto
  have "settled_rest cnt pending (fst ` set (ma_failures racc)) shape" using s by (simp add: settling_def)
  then have "settled_rest cnt pending (fst ` set (ma_failures racc)) (shape(x := p))"
    using p at(1) x(1) by (auto simp: settled_rest_def)
  moreover have "fst ` set (ma_failures racc') = fst ` set (ma_failures racc)
      \<or> fst ` set (ma_failures racc') = insert x (fst ` set (ma_failures racc)) \<and> p = Closed StatusFailed"
    using F by auto
  ultimately show "settled_rest cnt pending (fst ` set (ma_failures racc')) (shape(x := p))"
    unfolding settled_rest_def by (elim disjE conjE) simp_all
  show "fst ` set (ra_retry racc') \<subseteq> set (ys @ [x])" "distinct (map fst (ra_retry racc'))" "\<not> mayRetry \<longrightarrow> ra_retry racc' = []"
  proof -
    have "fst ` set (ra_retry racc) \<subseteq> set ys" "distinct (map fst (ra_retry racc))" "\<not> mayRetry \<longrightarrow> ra_retry racc = []"
      using s by (auto simp: settling_def)
    then show "fst ` set (ra_retry racc') \<subseteq> set (ys @ [x])" "distinct (map fst (ra_retry racc'))" "\<not> mayRetry \<longrightarrow> ra_retry racc' = []"
      using R at(2) by (elim disjE; force)+
  qed
  show "ma_failures racc' \<noteq> [] \<longrightarrow> fails = MapItemFailuresCollect"
    using F s by (auto simp: settling_def)
qed

lemma journal_ret: "(\<And>m r. A m r \<Longrightarrow> B x (f m) r) \<Longrightarrow> triple (assn A) (thn (journal f) (ret x)) (\<lambda>x. assn (B x)) E"
  by (rule then_journal[where B = "B x"]) (auto intro: triple_assn_ret)

lemma journal_must_ret:
  "(\<And>m r. A m r \<Longrightarrow> \<exists>m'. f m = Some m' \<and> B x m' r) \<Longrightarrow> triple (assn A) (thn (journal_must f) (ret x)) (\<lambda>x. assn (B x)) E"
  by (rule then_journal_must[where B = "B x"]) (auto intro: triple_assn_ret)

text \<open>The four ways one item settles.\<close>

definition settled_maps ::
    "executionIndex \<Rightarrow> Manifest \<Rightarrow> string \<Rightarrow> nat \<Rightarrow> string \<Rightarrow> bool \<Rightarrow> (nat \<Rightarrow> StepInvocationOutcome option) \<Rightarrow> int
      \<Rightarrow> nat list \<Rightarrow> nat list \<Rightarrow> round_acc \<Rightarrow> Manifest \<Rightarrow> executionResolver \<Rightarrow> bool" where
  "settled_maps ix m0 node cnt fails mayRetry byIndex n pending ys acc =
     maps ix m0 node cnt fails (settling cnt fails mayRetry byIndex n pending ys acc)"

lemma settle_stay:
  assumes x: "x \<in> set pending" "x \<notin> set ys"
    and p: "\<And>R. x \<notin> R \<Longrightarrow> item_settled byIndex n R x (at_dispatch byIndex n x)"
  shows "triple (assn (settled_maps ix m0 node cnt fails mayRetry byIndex n pending ys acc)) (ret acc)
    (\<lambda>acc. assn (settled_maps ix m0 node cnt fails mayRetry byIndex n pending (ys @ [x]) acc)) E"
  unfolding settled_maps_def
proof (rule triple_assn_ret, erule maps_mono)
  fix shape assume s: "settling cnt fails mayRetry byIndex n pending ys acc shape"
  have "settling cnt fails mayRetry byIndex n pending (ys @ [x]) acc (shape(x := at_dispatch byIndex n x))"
    by (rule settling_step[OF s x]) (use p settling_at(2)[OF s x] in auto)
  then show "settling cnt fails mayRetry byIndex n pending (ys @ [x]) acc shape"
    using settling_at(1)[OF s x] by (metis fun_upd_triv)
qed

lemma settle_terminal:
  assumes x: "x \<in> set pending" "x \<notin> set ys" "x < cnt" and fly: "at_dispatch byIndex n x = Flying n" "byIndex x = Some oc"
    and R: "ra_retry acc' = ra_retry acc"
    and F: "ma_failures acc' = ma_failures acc \<or> fails = MapItemFailuresCollect \<and> (\<exists>g. ma_failures acc' = ma_failures acc @ [(x, g)])"
  shows "triple (assn (settled_maps ix m0 node cnt fails mayRetry byIndex n pending ys acc))
    (thn (journal (markMapItemTerminal node x StatusFailed diagnostic)) (ret acc'))
    (\<lambda>acc. assn (settled_maps ix m0 node cnt fails mayRetry byIndex n pending (ys @ [x]) acc)) E"
  unfolding settled_maps_def
proof (rule journal_ret, erule maps_close)
  fix shape assume s: "settling cnt fails mayRetry byIndex n pending ys acc shape"
  show "settling cnt fails mayRetry byIndex n pending (ys @ [x]) acc' (shape(x := Closed StatusFailed))"
    by (rule settling_step[OF s x(1,2)]) (use fly R F settling_at(2)[OF s x(1,2)] in \<open>auto simp: item_settled_def\<close>)
qed (use x in auto)

lemma settle_retry:
  assumes x: "x \<in> set pending" "x \<notin> set ys" "x < cnt" and fly: "at_dispatch byIndex n x = Flying n" "byIndex x = Some oc" and mayRetry
  shows "triple (assn (settled_maps ix m0 node cnt fails mayRetry byIndex n pending ys acc))
    (thn (journal (markMapItemRetrying node x diagnostic)) (ret (acc\<lparr>ra_retry := ra_retry acc @ [(x, diagnostic)]\<rparr>)))
    (\<lambda>acc. assn (settled_maps ix m0 node cnt fails mayRetry byIndex n pending (ys @ [x]) acc)) E"
  unfolding settled_maps_def
proof (rule journal_ret, erule maps_retry[where n = n])
  fix shape assume s: "settling cnt fails mayRetry byIndex n pending ys acc shape"
  have "settling cnt fails mayRetry byIndex n pending (ys @ [x]) (acc\<lparr>ra_retry := ra_retry acc @ [(x, diagnostic)]\<rparr>) (shape(x := Waiting (n + 1)))"
    by (rule settling_step[OF s x(1,2)]) (use fly \<open>mayRetry\<close> in \<open>auto simp: item_settled_def\<close>)
  then show "shape x = Flying n \<and> settling cnt fails mayRetry byIndex n pending (ys @ [x]) (acc\<lparr>ra_retry := ra_retry acc @ [(x, diagnostic)]\<rparr>) (shape(x := Waiting (n + 1)))"
    using settling_at(1)[OF s x(1,2)] fly by simp
qed (use x in auto)

lemma settle_success:
  assumes x: "x \<in> set pending" "x \<notin> set ys" "x < cnt" and fly: "at_dispatch byIndex n x = Flying n" "byIndex x = Some oc"
    and oc: "so_status oc = StatusSucceeded" and acc: "ra_retry acc' = ra_retry acc" "ma_failures acc' = ma_failures acc"
  shows "triple (assn (settled_maps ix m0 node cnt fails mayRetry byIndex n pending ys acc))
    (thn (journal_must (markMapItemSucceeded node x out)) (ret acc'))
    (\<lambda>acc. assn (settled_maps ix m0 node cnt fails mayRetry byIndex n pending (ys @ [x]) acc)) E"
  unfolding settled_maps_def
proof (rule journal_must_ret, erule maps_succeed[where n = n])
  fix shape assume s: "settling cnt fails mayRetry byIndex n pending ys acc shape"
  have "settling cnt fails mayRetry byIndex n pending (ys @ [x]) acc' (shape(x := Closed StatusSucceeded))"
    by (rule settling_step[OF s x(1,2)]) (use fly oc acc settling_at(2)[OF s x(1,2)] in \<open>auto simp: item_settled_def\<close>)
  then show "shape x = Flying n \<and> settling cnt fails mayRetry byIndex n pending (ys @ [x]) acc' (shape(x := Closed StatusSucceeded))"
    using settling_at(1)[OF s x(1,2)] fly by simp
qed (use x in auto)

lemma settle_item_triple:
  assumes env: "honest env" and x: "x \<in> set pending" "x \<notin> set ys" "x < cnt" and fails: "fails = node_itemFailures node"
  shows "triple (assn (settled_maps ix m0 (node_id node) cnt fails mayRetry byIndex n pending ys acc))
    (settle_item env node policy mayRetry n byIndex acc (x, d))
    (\<lambda>acc. assn (settled_maps ix m0 (node_id node) cnt fails mayRetry byIndex n pending (ys @ [x]) acc)) closes"
    (is "triple ?P _ ?Q _")
proof (cases "byIndex x")
  case None
  then show ?thesis
    unfolding settle_item_def Let_def prod.case None option.case
    by (intro settle_stay[OF x(1,2)]) (simp add: None item_settled_def at_dispatch_def)
next
  case (Some oc)
  show ?thesis
  proof (cases "so_status oc = StatusCancelled \<or> so_status oc = StatusInfraFailed")
    case True
    then have "so_status oc \<noteq> StatusSucceeded" "so_status oc \<noteq> StatusFailed"
      by (auto simp: StatusInfraFailed_def status_defs)
    then have "settle_item env node policy mayRetry n byIndex acc (x, d) = ret acc"
      using Some True by (simp add: settle_item_def)
    then show ?thesis
      using Some True \<open>so_status oc \<noteq> StatusFailed\<close>
      by (simp only:) (rule settle_stay[OF x(1,2)], auto simp: item_settled_def at_dispatch_def)
  next
    case False
    then have fly: "at_dispatch byIndex n x = Flying n" using Some by (simp add: at_dispatch_def)
    have settle: "triple ?P (bnd (attempt (settleInvocation env d jx)) (\<lambda>res.
           case res of
             Inl e \<Rightarrow>
               thn (journal (markMapItemTerminal (node_id node) x StatusFailed ''map item output verification failed''))
                 (ret (acc\<lparr>ra_terminal := True, ma_first := first_failure (ma_first acc) (err_text e)\<rparr>))
           | Inr out \<Rightarrow>
               thn (journal_must (markMapItemSucceeded (node_id node) x (no_published out)))
                 (ret (acc\<lparr>ma_results := ma_results acc @ [\<lparr>res_index = int x, res_body = no_body out\<rparr>]\<rparr>)))) ?Q closes"
      if "so_status oc = StatusSucceeded" for jx
    proof (rule triple_bnd[OF triple_attempt[where Q = "\<lambda>_. ?P"]])
      show "triple ?P (settleInvocation env d jx) (\<lambda>x. ?P) (\<lambda>e. ?P)"
        by (rule triple_conseq[OF settle_triple[OF env]]) (auto elim: assn_mono)
    qed (intro triple_cases_sum settle_terminal[OF x fly Some] settle_success[OF x fly Some that], simp_all)
    show ?thesis
      unfolding settle_item_def Let_def prod.case Some option.case
      using False fails
      by (intro triple_cases_if settle_retry[OF x fly Some] triple_cases_option settle_terminal[OF x fly Some] settle
          triple_bnd[OF triple_observe]) (auto split: if_splits)
  qed
qed

lemma settle_items_triple:
  assumes env: "honest env" and p: "distinct pending" "set pending \<subseteq> {..<cnt}" "length ds = length pending"
    and fails: "fails = node_itemFailures node"
  shows "triple (assn (settled_maps ix m0 (node_id node) cnt fails mayRetry byIndex n pending [] acc))
    (each (settle_item env node policy mayRetry n byIndex) acc (zip pending ds))
    (\<lambda>acc. assn (settled_maps ix m0 (node_id node) cnt fails mayRetry byIndex n pending pending acc)) closes"
proof -
  let ?I = "\<lambda>(zs :: (nat \<times> StepInvocationDescriptor) list) acc. assn (settled_maps ix m0 (node_id node) cnt fails mayRetry byIndex n pending (map fst zs) acc)"
  have "triple (?I zs acc) (settle_item env node policy mayRetry n byIndex acc z) (?I (zs @ [z])) closes"
    if z: "zip pending ds = zs @ z # us" for acc zs z us
  proof (cases z)
    case (Pair x d)
    have "pending = map fst zs @ x # map fst us"
      using arg_cong[OF z, of "map fst"] p(3) Pair by simp
    then have "x \<in> set pending" "x \<notin> set (map fst zs)" "x < cnt" using p(1,2) by auto
    from settle_item_triple[OF env this fails] show ?thesis using Pair by simp
  qed
  then have "triple (?I [] acc) (each (settle_item env node policy mayRetry n byIndex) acc (zip pending ds)) (?I (zip pending ds)) closes"
    by (rule triple_each[where I = ?I])
  then show ?thesis using p(3) by simp
qed

lemma abandon_triple:
  assumes R: "set (map fst R) \<subseteq> {..<cnt}" "set (map fst R) \<inter> collected = {}"
  shows "triple (assn (maps ix m0 (node_id node) cnt fails (\<lambda>shape.
        (\<forall>i < cnt. i \<notin> set (map fst R) \<longrightarrow> (\<exists>s. shape i = Closed s)) \<and> (\<forall>i \<in> collected. shape i = Closed StatusFailed))))
     (each (abandon_item node) () R)
     (\<lambda>_. assn (maps ix m0 (node_id node) cnt fails (\<lambda>shape. (\<forall>i < cnt. \<exists>s. shape i = Closed s) \<and> (\<forall>i \<in> collected. shape i = Closed StatusFailed)))) closes"
proof -
  let ?S = "\<lambda>(ys :: (nat \<times> string) list) shape. (\<forall>i < cnt. i \<notin> set (map fst R) - set (map fst ys) \<longrightarrow> (\<exists>s. shape i = Closed s)) \<and> (\<forall>i \<in> collected. shape i = Closed StatusFailed)"
  let ?I = "\<lambda>ys (u :: unit). assn (maps ix m0 (node_id node) cnt fails (?S ys))"
  have "triple (?I ys u) (abandon_item node u y) (?I (ys @ [y])) closes" if "R = ys @ y # zs" for u ys y zs
  proof (cases y)
    case (Pair x d)
    have x: "x < cnt" "x \<notin> collected" using R that Pair by auto
    have "maps ix m0 (node_id node) cnt fails (?S (ys @ [y])) (markMapItemTerminal (node_id node) x StatusFailed d m) r"
      if "maps ix m0 (node_id node) cnt fails (?S ys) m r" for m r
      by (rule maps_close[OF that x(1)]) (use x Pair in auto)
    then show ?thesis
      using Pair by (auto simp: abandon_item_def intro!: triple_assn_pre[OF triple_journal])
  qed
  then have "triple (?I [] ()) (each (abandon_item node) () R) (?I R) closes" by (rule triple_each[where I = ?I])
  then show ?thesis by (rule triple_conseq) (auto elim!: assn_mono maps_mono)
qed

text \<open>After a round: what is left to retry waits for the next attempt, everything else is closed.\<close>

definition round_done :: "nat \<Rightarrow> string \<Rightarrow> bool \<Rightarrow> int \<Rightarrow> round_acc \<Rightarrow> (nat \<Rightarrow> phase) \<Rightarrow> bool" where
  "round_done cnt fails mayRetry n racc shape =
     (pend cnt (n + 1) (map fst (ra_retry racc)) (fst ` set (ma_failures racc)) shape
      \<and> distinct (map fst (ra_retry racc)) \<and> set (map fst (ra_retry racc)) \<subseteq> {..<cnt}
      \<and> (ma_failures racc \<noteq> [] \<longrightarrow> fails = MapItemFailuresCollect) \<and> (\<not> mayRetry \<longrightarrow> ra_retry racc = []))"

lemma settling_round_done:
  assumes s: "settling cnt fails mayRetry byIndex n pending pending racc shape" and all: "\<And>i. i \<in> set pending \<Longrightarrow> byIndex i \<noteq> None"
    and p: "set pending \<subseteq> {..<cnt}"
  shows "round_done cnt fails mayRetry n racc shape"
proof -
  have ret: "fst ` set (ra_retry racc) \<subseteq> set pending" and rest: "settled_rest cnt pending (fst ` set (ma_failures racc)) shape"
    using s by (auto simp: settling_def)
  have item: "item_settled byIndex n (fst ` set (ra_retry racc)) i (shape i)" if "i \<in> set pending" for i
    using s that by (simp add: settling_def)
  have "shape i = Waiting (n + 1)" if "i \<in> fst ` set (ra_retry racc)" for i
  proof -
    have "i \<in> set pending" using ret that by blast
    moreover then obtain oc where "byIndex i = Some oc" using all by blast
    ultimately show ?thesis using item[of i] that by (simp add: item_settled_def)
  qed
  moreover have "\<exists>s. shape i = Closed s" if "i < cnt" "i \<notin> fst ` set (ra_retry racc)" for i
    using item[of i] all[of i] rest that by (cases "i \<in> set pending") (auto simp: item_settled_def settled_rest_def split: option.splits)
  ultimately have "pend cnt (n + 1) (map fst (ra_retry racc)) (fst ` set (ma_failures racc)) shape"
    using rest by (auto simp: pend_def settled_rest_def)
  then show ?thesis using s ret p by (auto simp: settling_def round_done_def)
qed

lemma fatal_item:
  assumes s: "settling cnt fails mayRetry byIndex n pending pending racc shape" and i: "i \<in> set pending" "byIndex i = Some oc"
    and "so_status oc = StatusFailed" "1 \<le> n"
  shows "shape i = Closed StatusFailed \<or> (\<exists>k \<ge> 2. shape i = Waiting k)"
proof -
  have "item_settled byIndex n (fst ` set (ra_retry racc)) i (shape i)" using s i by (simp add: settling_def)
  then show ?thesis using i assms(4,5) by (auto simp: item_settled_def split: if_splits)
qed

lemma invocation_error_cases:
  assumes "invocation_error outcomes invokeErr = Some e"
  obtains (fatal) oc f where "oc \<in> set outcomes" "so_fatal oc = Some f" "e = fatal_error f"
    | (invoke) "invokeErr = Some e" "find (\<lambda>oc. so_fatal oc \<noteq> None) outcomes = None"
  using assms by (auto simp: invocation_error_def dest!: find_Some_first split: option.splits)

lemma fatal_not_ctx: "\<not> err_is_ctx (fatal_error f)"
  by (simp add: fatal_error_def)

definition ready :: "nat \<Rightarrow> string \<Rightarrow> int \<Rightarrow> nat list \<Rightarrow> (nat \<times> Failure) list \<Rightarrow> (nat \<Rightarrow> phase) \<Rightarrow> bool" where
  "ready cnt fails n pending failures shape =
     (pend cnt n pending (fst ` set failures) shape \<and> distinct pending \<and> set pending \<subseteq> {..<cnt} \<and> 1 \<le> n
      \<and> (failures \<noteq> [] \<longrightarrow> fails = MapItemFailuresCollect))"

lemma round_done_ready:
  "round_done cnt fails mayRetry n racc shape \<Longrightarrow> 1 \<le> n \<Longrightarrow>
   ready cnt fails (n + 1) (map fst (ra_retry racc)) (ma_failures racc) shape"
  by (auto simp: round_done_def ready_def)

lemma abandoned_triple:
  "triple (assn (maps ix m0 (node_id node) cnt fails (round_done cnt fails mayRetry n racc)))
     (thn (each (abandon_item node) () (ra_retry racc)) (ret (racc\<lparr>ra_retry := []\<rparr>)))
     (\<lambda>racc. assn (maps ix m0 (node_id node) cnt fails (round_done cnt fails mayRetry n racc))) closes"
proof (rule triple_assn_fact)
  let ?F = "fst ` set (ma_failures racc)"
  let ?C = "set (map fst (ra_retry racc)) \<subseteq> {..<cnt} \<and> set (map fst (ra_retry racc)) \<inter> ?F = {}
    \<and> (ma_failures racc \<noteq> [] \<longrightarrow> fails = MapItemFailuresCollect)"
  show ?C if at: "maps ix m0 (node_id node) cnt fails (round_done cnt fails mayRetry n racc) m r" for m r
  proof -
    obtain shape where s: "round_done cnt fails mayRetry n racc shape" using at by (auto simp: maps_def)
    then have "\<forall>i \<in> set (map fst (ra_retry racc)). shape i = Waiting (n + 1)" "\<forall>i \<in> ?F. shape i = Closed StatusFailed"
      unfolding round_done_def pend_def settled_rest_def by blast+
    then have "set (map fst (ra_retry racc)) \<inter> ?F = {}" by fastforce
    then show ?thesis using s by (simp add: round_done_def)
  qed
  assume C: ?C
  show "triple (assn (maps ix m0 (node_id node) cnt fails (round_done cnt fails mayRetry n racc)))
     (thn (each (abandon_item node) () (ra_retry racc)) (ret (racc\<lparr>ra_retry := []\<rparr>)))
     (\<lambda>racc. assn (maps ix m0 (node_id node) cnt fails (round_done cnt fails mayRetry n racc))) closes"
  proof (rule triple_thn[OF triple_assn_pre[OF abandon_triple[where collected = ?F]] triple_assn_ret])
    show "maps ix m0 (node_id node) cnt fails (round_done cnt fails mayRetry n (racc\<lparr>ra_retry := []\<rparr>)) m r"
      if "maps ix m0 (node_id node) cnt fails (\<lambda>shape. (\<forall>i < cnt. \<exists>s. shape i = Closed s) \<and> (\<forall>i \<in> ?F. shape i = Closed StatusFailed)) m r" for m r
      using that C by (elim maps_mono) (simp add: round_done_def pend_def settled_rest_def)
    show "maps ix m0 (node_id node) cnt fails (\<lambda>shape. (\<forall>i < cnt. i \<notin> set (map fst (ra_retry racc)) \<longrightarrow> (\<exists>s. shape i = Closed s))
        \<and> (\<forall>i \<in> ?F. shape i = Closed StatusFailed)) m r" if "maps ix m0 (node_id node) cnt fails (round_done cnt fails mayRetry n racc) m r" for m r
      using that by (elim maps_mono) (simp add: round_done_def pend_def settled_rest_def)
  qed (use C in auto)
qed

lemma after_settling_triple:
  assumes env: "honest env" and p: "distinct pending" "set pending \<subseteq> {..<cnt}" "1 \<le> n"
    and idx: "mapOutcomesByIndex (node_id node) n outcomes pending (invokeErr = None) = Inr byIndex"
    and e: "\<And>y. invokeErr = Some y \<Longrightarrow> find (\<lambda>oc. so_fatal oc \<noteq> None) outcomes = None \<Longrightarrow> quiet y"
    and o: "\<And>oc f. oc \<in> set outcomes \<Longrightarrow> so_fatal oc = Some f \<Longrightarrow> so_status oc = StatusFailed \<and> ff_node f = node_id node"
  shows "triple (assn (settled_maps ix m0 (node_id node) cnt fails mayRetry byIndex n pending pending racc))
    (case invocation_error outcomes invokeErr of
       Some e \<Rightarrow> bnd (ctx_Err env) (\<lambda>c. raise_map env node (invocation_diagnostic c e) e)
     | None \<Rightarrow>
         bnd (ctx_Err env) (\<lambda>c.
         if c then raise_map env node ''map execution cancelled'' ctx_error
         else if ra_terminal racc
         then thn (each (abandon_item node) () (ra_retry racc)) (ret (racc\<lparr>ra_retry := []\<rparr>))
         else ret racc))
    (\<lambda>racc. assn (maps ix m0 (node_id node) cnt fails (round_done cnt fails mayRetry n racc))) closes"
    (is "triple (assn ?S) _ ?Q _")
proof -
  have running: "?S m r \<Longrightarrow> running_manifest m" for m r by (simp add: settled_maps_def maps_running)
  show ?thesis
  proof (cases "invocation_error outcomes invokeErr")
    case (Some x)
    then have "triple (assn ?S) (raise_map env node d x) ?Q closes" for d
    proof (cases rule: invocation_error_cases)
      case (fatal oc f)
      then obtain i where i: "i \<in> set pending" "byIndex i = Some oc" using mapOutcomesByIndex_reports[OF idx] by blast
      show ?thesis
      proof (rule raise_map_fatal)
        fix m r assume "?S m r"
        then obtain shape where at: "step_at ix m0 (node_id node) (mapping cnt fails shape) m r"
            and s: "settling cnt fails mayRetry byIndex n pending pending racc shape" by (auto simp: settled_maps_def maps_def)
        have "shape i = Closed StatusFailed \<or> (\<exists>k \<ge> 2. shape i = Waiting k)"
          using fatal_item[OF s i conjunct1[OF o[OF fatal(1,2)]] p(3)] .
        then show "\<exists>shape i. step_at ix m0 (node_id node) (mapping cnt fails shape) m r \<and> i < cnt
            \<and> (shape i = Closed StatusFailed \<or> (\<exists>k \<ge> 2. shape i = Waiting k))"
          using at i(1) p(2) by blast
      qed (use fatal o fatal_not_ctx in auto)
    next
      case invoke
      then show ?thesis using e running by (intro raise_map_closes) auto
    qed
    then show ?thesis unfolding Some option.case ctx_Err_def by (rule then_io)
  next
    case None
    then have all: "byIndex i \<noteq> None" if "i \<in> set pending" for i
      using mapOutcomesByIndex_complete[of "node_id node" n outcomes pending byIndex i] idx p(1) that
      by (auto simp: invocation_error_def dest: find_Some_first split: option.splits)
    let ?D = "maps ix m0 (node_id node) cnt fails (round_done cnt fails mayRetry n racc)"
    have settled: "?S m r \<Longrightarrow> ?D m r" for m r
      unfolding settled_maps_def by (erule maps_mono) (rule settling_round_done[OF _ all p(2)])
    have abandon: "triple (assn ?D) (thn (each (abandon_item node) () (ra_retry racc)) (ret (racc\<lparr>ra_retry := []\<rparr>))) ?Q closes"
      by (rule abandoned_triple)
    show ?thesis
      unfolding None option.case ctx_Err_def
      by (rule triple_assn_pre[where A = ?D], intro then_io triple_cases_if raise_map_closes abandon triple_assn_ret)
        (auto simp: settled maps_running)
  qed
qed

lemma settle_reported_triple:
  assumes env: "honest env" and fails: "fails = node_itemFailures node" and ds: "length ds = length pending"
    and idx: "mapOutcomesByIndex (node_id node) n outcomes pending (invokeErr = None) = Inr byIndex"
    and e: "\<And>y. invokeErr = Some y \<Longrightarrow> find (\<lambda>oc. so_fatal oc \<noteq> None) outcomes = None \<Longrightarrow> quiet y"
    and o: "\<And>oc f. oc \<in> set outcomes \<Longrightarrow> so_fatal oc = Some f \<Longrightarrow> so_status oc = StatusFailed \<and> ff_node f = node_id node"
    and p: "distinct pending" "set pending \<subseteq> {..<cnt}" "1 \<le> n" "ma_failures acc \<noteq> [] \<longrightarrow> fails = MapItemFailuresCollect"
  shows "triple (assn (maps ix m0 (node_id node) cnt fails (pend cnt n pending (fst ` set (ma_failures acc)))))
    (settle_reported env node inputs policy mayRetry n pending ds outcomes invokeErr acc byIndex)
    (\<lambda>racc. assn (maps ix m0 (node_id node) cnt fails (round_done cnt fails mayRetry n racc))) closes"
proof -
  let ?acc = "map_acc.extend acc \<lparr>ra_retry = [], ra_terminal = False\<rparr>"
  have start: "settled_maps ix m0 (node_id node) cnt fails mayRetry byIndex n pending [] ?acc m r"
    if "maps ix m0 (node_id node) cnt fails (recording cnt pending (fst ` set (ma_failures acc)) byIndex n pending) m r" for m r
    using that p(4) unfolding settled_maps_def
    by (elim maps_mono) (simp add: settling_def recording_def map_acc.defs)
  show ?thesis
    unfolding settle_reported_def
  proof (rule triple_thn)
    show "triple (assn (maps ix m0 (node_id node) cnt fails (pend cnt n pending (fst ` set (ma_failures acc)))))
      (each (record_dispatch node inputs n byIndex) () pending)
      (\<lambda>_. assn (maps ix m0 (node_id node) cnt fails (recording cnt pending (fst ` set (ma_failures acc)) byIndex n pending))) closes"
      by (rule record_dispatch_triple[OF p(1,2)])
  qed (intro triple_bnd[OF triple_assn_pre[OF settle_items_triple[OF env p(1,2) ds fails] start]]
      after_settling_triple[OF env p(1,2,3) idx e o])
qed

lemma settle_round_triple:
  assumes env: "honest env" and fails: "fails = node_itemFailures node" and ds: "length ds = length pending"
    and e: "\<And>y. invokeErr = Some y \<Longrightarrow> find (\<lambda>oc. so_fatal oc \<noteq> None) outcomes = None \<Longrightarrow> quiet y"
    and o: "\<And>oc f. oc \<in> set outcomes \<Longrightarrow> so_fatal oc = Some f \<Longrightarrow> so_status oc = StatusFailed \<and> ff_node f = node_id node"
  shows "triple (assn (maps ix m0 (node_id node) cnt fails (ready cnt fails n pending (ma_failures acc))))
    (settle_round env node inputs policy mayRetry n pending ds outcomes invokeErr acc)
    (\<lambda>racc. assn (maps ix m0 (node_id node) cnt fails (round_done cnt fails mayRetry n racc))) closes"
    (is "triple (assn ?R) _ ?Q _")
proof -
  let ?res = "map_sum (\<lambda>_. plain_error ''map invoker broke the protocol'') id
         (mapOutcomesByIndex (node_id node) n outcomes pending (invokeErr = None))"
  have "triple (assn (\<lambda>m r. ?R m r \<and> ?res = Inr byIndex))
    (settle_reported env node inputs policy mayRetry n pending ds outcomes invokeErr acc byIndex) ?Q closes" for byIndex
  proof (rule triple_assn_fact)
    let ?C = "mapOutcomesByIndex (node_id node) n outcomes pending (invokeErr = None) = Inr byIndex
      \<and> distinct pending \<and> set pending \<subseteq> {..<cnt} \<and> 1 \<le> n \<and> (ma_failures acc \<noteq> [] \<longrightarrow> fails = MapItemFailuresCollect)"
    show "?R m r \<and> ?res = Inr byIndex \<Longrightarrow> ?C" for m r
      by (cases "mapOutcomesByIndex (node_id node) n outcomes pending (invokeErr = None)") (auto simp: maps_def ready_def)
    assume C: ?C
    show "triple (assn (\<lambda>m r. ?R m r \<and> ?res = Inr byIndex))
      (settle_reported env node inputs policy mayRetry n pending ds outcomes invokeErr acc byIndex) ?Q closes"
      by (rule triple_assn_pre[OF settle_reported_triple[OF env fails ds _ e o]])
        (use C e o in \<open>auto simp: maps_def ready_def\<close>)
  qed
  then show ?thesis
    unfolding settle_round_def
    by (intro triple_bnd[OF guard_map_triple]) (auto simp: map_sum_def maps_running split: sum.splits)
qed

section \<open>The triple of a map\<close>

lemma descriptor_attempt:
  assumes "r \<noteq> Inl DescriptorPanic"
  shows "triple (assn A) (attempt (descriptor_exec r))
    (\<lambda>x. assn (\<lambda>m s. A m s \<and> (\<forall>e. x = Inl e \<longrightarrow> quiet e) \<and> (\<forall>d. x = Inr d \<longrightarrow> r = Inr d))) E"
  using assms
  by (auto simp: attempt_def descriptor_exec_def triple_def assn_def ret_def raise_def descriptor_error_text_def
      split: sum.splits descriptor_error.splits)

lemma descriptorForMapItem_node: "descriptorForMapItem h p r node input ix i n = Inr d \<Longrightarrow> ds_nodeID d = node_id node"
  using descriptorForStep_node by (auto simp: descriptorForMapItem_def bindE_eq_Inr Let_def split: option.splits)

lemma item_descriptors_triple:
  assumes idn: "safe_identity idn" and node: "ValidSafePathSegment (node_id node)" and run: "\<And>m r. A m r \<Longrightarrow> running_manifest m"
  shows "triple (assn A) (each (item_descriptor env idn node inputs n) [] pending)
    (\<lambda>ds. assn (\<lambda>m r. A m r \<and> length ds = length pending \<and> (\<forall>d \<in> set ds. ds_nodeID d = node_id node))) closes"
proof -
  let ?I = "\<lambda>(ys :: nat list) (ds :: StepInvocationDescriptor list). assn (\<lambda>m r. A m r \<and> length ds = length ys \<and> (\<forall>d \<in> set ds. ds_nodeID d = node_id node))"
  have step: "triple (?I ys ds) (item_descriptor env idn node inputs n ds i) (?I (ys @ [i])) closes" for ys ds and i :: nat
    unfolding item_descriptor_def
  proof (rule triple_bnd[OF triple_observe], rule triple_bnd)
    fix x and r :: "go_error + StepInvocationDescriptor"
    let ?d = "descriptorForMapItem (id_planHash idn) (id_projectKey idn) (id_runID idn) node (inputs ! i) x (int i) n"
    have "?d \<noteq> Inl DescriptorPanic" using descriptorForMapItem_no_panic idn node by auto
    then show "triple (?I ys ds) (attempt (descriptor_exec ?d))
        (\<lambda>r. assn (\<lambda>m s. (A m s \<and> length ds = length ys \<and> (\<forall>d \<in> set ds. ds_nodeID d = node_id node))
          \<and> (\<forall>e. r = Inl e \<longrightarrow> quiet e) \<and> (\<forall>d. r = Inr d \<longrightarrow> ?d = Inr d))) closes"
      by (rule descriptor_attempt)
    show "triple (assn (\<lambda>m s. (A m s \<and> length ds = length ys \<and> (\<forall>d \<in> set ds. ds_nodeID d = node_id node))
          \<and> (\<forall>e. r = Inl e \<longrightarrow> quiet e) \<and> (\<forall>d. r = Inr d \<longrightarrow> ?d = Inr d)))
        (case r of Inl e \<Rightarrow> raise_map env node ''map item descriptor construction failed'' e | Inr d \<Rightarrow> ret (ds @ [d])) (?I (ys @ [i])) closes"
    proof (cases r)
      case (Inl e)
      show ?thesis
        unfolding Inl sum.case
        by (rule triple_assn_fact[where C = "quiet e"], simp) (rule raise_map_closes, auto dest: run)
    next
      case (Inr d)
      show ?thesis unfolding Inr sum.case by (rule triple_assn_ret) (auto dest: descriptorForMapItem_node)
    qed
  qed
  have "triple (?I [] []) (each (item_descriptor env idn node inputs n) [] pending) (?I pending) closes"
    by (rule triple_each[where I = ?I]) (rule step)
  then show ?thesis by (rule triple_assn_pre) simp
qed

lemma put_items_triple:
  assumes env: "honest env" and idn: "safe_identity idn" and node: "ValidSafePathSegment (node_id node)"
    and run: "\<And>m r. A m r \<Longrightarrow> running_manifest m"
  shows "triple (assn A) (each (put_item env idn node) [] items) (\<lambda>_. assn A) closes"
proof (rule triple_each[where I = "\<lambda>_ _. assn A"])
  fix inputs :: "DataArtifact list" and it :: Item
  obtain key where key: "runInputKey (id_projectKey idn) (id_runID idn) (node_id node) (Some [item_frame (node_id node) (int (item_index it))]) = Some key"
    using runInputKey_text[OF _ node item_frame_scope[OF node], of "id_runID idn"] idn by auto
  show "triple (assn A) (put_item env idn node inputs it) (\<lambda>_. assn A) closes"
    unfolding put_item_def key
    by (intro triple_bnd[OF triple_assn_must[OF refl, where B = "\<lambda>_. A"]] then_io triple_cases_option raise_map_closes triple_assn_ret)
      (auto dest: run honestD(1)[OF env, OF sym])
qed

definition all_closed :: "nat \<Rightarrow> string \<Rightarrow> (nat \<times> Failure) list \<Rightarrow> (nat \<Rightarrow> phase) \<Rightarrow> bool" where
  "all_closed cnt fails failures shape =
     ((\<forall>i < cnt. \<exists>s. shape i = Closed s) \<and> (\<forall>i \<in> fst ` set failures. shape i = Closed StatusFailed)
      \<and> (failures \<noteq> [] \<longrightarrow> fails = MapItemFailuresCollect))"

lemma ready_closed: "ready cnt fails n [] failures shape \<Longrightarrow> all_closed cnt fails failures shape"
  by (simp add: ready_def pend_def settled_rest_def all_closed_def)

lemma map_round_triple:
  assumes env: "honest env" and idn: "safe_identity idn" and node: "ValidSafePathSegment (node_id node)"
    and fails: "fails = node_itemFailures node"
    and again: "\<And>k pending acc. again = Some k \<Longrightarrow>
      triple (assn (maps ix m0 (node_id node) cnt fails (ready cnt fails (n + 1) pending (ma_failures acc)))) (k (n + 1) pending acc)
        (\<lambda>acc. assn (maps ix m0 (node_id node) cnt fails (all_closed cnt fails (ma_failures acc)))) closes"
  shows "triple (assn (maps ix m0 (node_id node) cnt fails (ready cnt fails n pending (ma_failures acc))))
    (map_round env idn node inputs policy again n pending acc)
    (\<lambda>acc. assn (maps ix m0 (node_id node) cnt fails (all_closed cnt fails (ma_failures acc)))) closes"
    (is "triple (assn ?R) _ ?Q _")
proof -
  have running: "?R m r \<Longrightarrow> running_manifest m" for m r by (rule maps_running)
  have wait: "triple (assn ?R) (if 1 < n
             then thn (writeRunManifest env idn False)
               (bnd (io (en_wait env (delayBefore policy n))) (\<lambda>e.
                case e of Some err \<Rightarrow> raise_map env node ''map execution cancelled'' err | None \<Rightarrow> ret ()))
             else ret ()) (\<lambda>_. assn ?R) closes"
    by (intro triple_cases_if triple_thn[OF write_closes[OF env]] then_io triple_cases_option raise_map_closes triple_assn_ret)
      (auto dest: running honestD(6)[OF env, OF sym])
  have next_round: "triple (assn (\<lambda>m r. maps ix m0 (node_id node) cnt fails (round_done cnt fails (again \<noteq> None) n racc) m r \<and> 1 \<le> n))
      (case again of None \<Rightarrow> ret (map_acc.truncate racc)
         | Some k \<Rightarrow> k (n + 1) (map fst (ra_retry racc)) (map_acc.truncate racc)) ?Q closes" for racc
  proof (cases again)
    case None
    have "round_done cnt fails False n racc shape \<Longrightarrow> all_closed cnt fails (ma_failures racc) shape" for shape
      by (auto simp: round_done_def pend_def settled_rest_def all_closed_def)
    then show ?thesis
      using None by (auto simp: map_acc.defs intro!: triple_assn_ret elim!: maps_mono)
  next
    case (Some k)
    then show ?thesis
      unfolding Some option.case
      by (intro triple_assn_pre[OF again[OF Some]]) (auto simp: map_acc.defs elim!: maps_mono intro: round_done_ready)
  qed
  have dispatch: "triple (assn ?R) (bnd (io (en_invoke env ds (xp_timeout policy) (int (node_maxConcurrency node)))) (\<lambda>(outcomes, invokeErr).
         bnd (settle_round env node inputs policy (again \<noteq> None) n pending ds outcomes invokeErr acc) (\<lambda>racc.
         case again of
           None \<Rightarrow> ret (map_acc.truncate racc)
         | Some k \<Rightarrow> k (n + 1) (map fst (ra_retry racc)) (map_acc.truncate racc)))) ?Q closes"
    if ds: "length ds = length pending" "\<forall>d \<in> set ds. ds_nodeID d = node_id node" and n: "1 \<le> n" for ds
  proof (rule then_io)
    fix x w assume x: "x = fst (en_invoke env ds (xp_timeout policy) (int (node_maxConcurrency node)) w)"
    obtain os e where xe: "x = (os, e)" by (cases x)
    have err: "\<And>y f. e = Some y \<Longrightarrow> err_fatal y = Some f \<Longrightarrow> \<exists>oc \<in> set os. so_fatal oc = Some f" and o: "\<And>oc f. oc \<in> set os \<Longrightarrow> so_fatal oc = Some f \<Longrightarrow> so_status oc = StatusFailed \<and> ff_node f = node_id node"
      using honestD(8,9)[OF env, where ds = ds and t = "xp_timeout policy" and i = "int (node_maxConcurrency node)" and w = w] x xe ds(2) by fastforce+
    have e: "quiet y" if "e = Some y" "find (\<lambda>oc. so_fatal oc \<noteq> None) os = None" for y
      using err[OF that(1)] that(2) by (cases "err_fatal y") (auto simp: find_None_iff)
    show "triple (assn ?R) (case x of (outcomes, invokeErr) \<Rightarrow>
         bnd (settle_round env node inputs policy (again \<noteq> None) n pending ds outcomes invokeErr acc) (\<lambda>racc.
         case again of
           None \<Rightarrow> ret (map_acc.truncate racc)
         | Some k \<Rightarrow> k (n + 1) (map fst (ra_retry racc)) (map_acc.truncate racc))) ?Q closes"
      unfolding xe prod.case
      by (rule triple_bnd[OF settle_round_triple[OF env fails ds(1) e o]]) (use n in \<open>auto intro: triple_assn_pre[OF next_round]\<close>)
  qed
  show ?thesis
  proof (cases "pending = []")
    case True
    then show ?thesis
      by (simp add: map_round_def) (rule triple_assn_ret, auto elim!: maps_mono dest: ready_closed)
  next
    case False
    have "triple (assn (\<lambda>m r. ?R m r \<and> length ds = length pending \<and> (\<forall>d \<in> set ds. ds_nodeID d = node_id node)))
       (bnd (io (en_invoke env ds (xp_timeout policy) (int (node_maxConcurrency node)))) (\<lambda>(outcomes, invokeErr).
         bnd (settle_round env node inputs policy (again \<noteq> None) n pending ds outcomes invokeErr acc) (\<lambda>racc.
         case again of
           None \<Rightarrow> ret (map_acc.truncate racc)
         | Some k \<Rightarrow> k (n + 1) (map fst (ra_retry racc)) (map_acc.truncate racc)))) ?Q closes" for ds
      by (rule triple_assn_fact[where C = "length ds = length pending \<and> (\<forall>d \<in> set ds. ds_nodeID d = node_id node) \<and> 1 \<le> n"])
        ((auto simp: maps_def ready_def)[1], rule triple_assn_pre[OF dispatch], simp_all)
    then show ?thesis
      unfolding map_round_def if_not_P[OF False]
      by (intro triple_thn[OF wait] triple_bnd[OF item_descriptors_triple[OF idn node running]])
  qed
qed

lemma map_rounds_triple:
  assumes "honest env" "safe_identity idn" "ValidSafePathSegment (node_id node)" "fails = node_itemFailures node"
  shows "triple (assn (maps ix m0 (node_id node) cnt fails (ready cnt fails n pending (ma_failures acc))))
    (map_rounds env idn node inputs policy left n pending acc)
    (\<lambda>acc. assn (maps ix m0 (node_id node) cnt fails (all_closed cnt fails (ma_failures acc)))) closes"
  using assms by (induction left arbitrary: n pending acc) (auto intro!: map_round_triple)

text \<open>A map whose items are all closed, and none of them failed uncollected, can succeed.\<close>

lemma succeed_map:
  assumes at: "maps ix m0 node cnt fails (all_closed cnt fails failures) m r"
    and "\<not> mapHasFailedItem m node (int ` fst ` set failures)"
  shows "\<exists>m'. markAttemptSucceeded node output m = Some m' \<and> step_at ix m0 node succeeded m' r"
proof -
  obtain shape st its where st: "findManifestStep m node = Some st" "running_manifest m" "in_flight st" "st_itemFailures st = fails"
    and its: "st_items st = Some its" "length its = cnt" "\<forall>i < cnt. in_phase (shape i) (its ! i)"
    and cl: "all_closed cnt fails failures shape" and at': "step_at ix m0 node (mapping cnt fails shape) m r"
    using at by (auto simp: maps_def step_at_def mapping_def)
  note inv = findManifestStep_inv[OF _ st(1)]
  have j: "journal_inv m" using st(2) by (simp add: running_manifest_def)
  have items: "it_status it = StatusSucceeded \<or> (st_itemFailures st \<noteq> [] \<and> it_status it = StatusFailed)" if it: "it \<in> set its" for it
  proof (cases "it_status it = StatusSucceeded")
    case False
    obtain i where i: "i < cnt" "it = its ! i" using it its(2) by (metis in_set_conv_nth)
    have "it_index it = int i" using inv(1)[OF j] its i by (auto simp: step_inv_def items_inv_def)
    moreover have "it_index it \<in> int ` fst ` set failures"
      using assms(2) False it inv(2,3)[OF j] its(1) by (force simp: mapHasFailedItem_def split: option.splits)
    ultimately have "i \<in> fst ` set failures" by (auto simp only: image_iff of_nat_eq_iff)
    then have "shape i = Closed StatusFailed" "fails = MapItemFailuresCollect" using cl by (auto simp: all_closed_def)
    then show ?thesis using its(3) i st(4) by (auto simp: MapItemFailuresCollect_def)
  qed simp
  let ?f = "\<lambda>s. s\<lparr>st_status := StatusSucceeded, st_attempts :=
      update_last (\<lambda>a. a\<lparr>at_status := StatusSucceeded, at_output := Some output\<rparr>) (st_attempts s)\<rparr>"
  have eq: "markAttemptSucceeded node output m = Some (update_step node ?f m)"
    using st by (auto simp: markAttemptSucceeded_def in_flight_def)
  have "\<exists>m'. markAttemptSucceeded node output m = Some m' \<and> journal_inv m'"
    using st its items j by (intro ex_forward[OF markAttemptSucceeded_inv[of m node st]]) (auto simp: in_flight_def)
  then have "journal_inv (update_step node ?f m)" using eq by auto
  then have "step_at ix m0 node succeeded (update_step node ?f m) r"
    by (rule step_at_update[OF at', rotated]) (auto simp: succeeded_def)
  then show ?thesis using eq by blast
qed

lemma publish_map_triple:
  assumes env: "honest env" and idn: "safe_identity idn" and node: "ValidSafePathSegment (node_id node)"
    and run: "\<And>m r. A m r \<Longrightarrow> running_manifest m"
  shows "triple (assn A) (publish_map env idn node body) (\<lambda>_. assn A) closes"
proof -
  obtain key where key: "runOutputManifestKey (id_projectKey idn) (id_runID idn) (node_id node) None 1 = Some key"
    using runOutputManifestKey_text[OF _ node, of "id_runID idn" None] idn by (auto simp: item_scope_def)
  have guard: "triple (assn A) (guard_map env node d res) (\<lambda>_. assn A) closes" if "\<And>e. res = Inl e \<Longrightarrow> quiet e" for d and res :: "(go_error, 'c) result"
    by (rule triple_conseq[OF guard_map_triple]) (use that run in \<open>auto elim: assn_mono\<close>)
  show ?thesis
    unfolding publish_map_def key Let_def
    by (intro triple_bnd[OF triple_assn_must[OF refl, where B = "\<lambda>_. A"]] then_io triple_thn[OF guard] triple_bnd[OF guard])
      (auto dest: honestD(4,5)[OF env] honestD(4,5)[OF env, OF sym] split: option.splits intro: triple_assn_ret)
qed

lemma finish_map_triple:
  assumes env: "honest env" and idn: "safe_identity idn" and node: "ValidSafePathSegment (node_id node)"
  shows "triple (assn (maps ix m0 (node_id node) cnt fails (all_closed cnt fails (ma_failures acc))))
    (finish_map env idn node cnt acc) (\<lambda>_. assn (step_at ix m0 (node_id node) succeeded)) closes"
    (is "triple (assn ?A) _ _ _")
proof -
  let ?B = "\<lambda>m r. ?A m r \<and> \<not> mapHasFailedItem m (node_id node) (int ` fst ` set (ma_failures acc))"
  have run: "?B m r \<Longrightarrow> running_manifest m" for m r by (auto dest: maps_running)
  have settle: "triple (assn ?B) (bnd (guard_map env node ''map collection failed''
         (map_sum (\<lambda>_. plain_error ''map collection failed'') id (collect_map env node cnt acc))) (\<lambda>body.
       bnd (publish_map env idn node body) (\<lambda>out.
       thn (journal_must (markAttemptSucceeded (node_id node) (no_published out)))
       (thn (writeRunManifest env idn False) (ret out))))) (\<lambda>_. assn (step_at ix m0 (node_id node) succeeded)) closes"
  proof (rule triple_bnd)
    show "triple (assn ?B) (guard_map env node ''map collection failed''
         (map_sum (\<lambda>_. plain_error ''map collection failed'') id (collect_map env node cnt acc))) (\<lambda>_. assn ?B) closes"
      by (rule triple_conseq[OF guard_map_triple[OF _ run]]) (auto simp: map_sum_def elim: assn_mono split: sum.splits)
    have "?B m r \<Longrightarrow> \<exists>m'. markAttemptSucceeded (node_id node) out m = Some m' \<and> step_at ix m0 (node_id node) succeeded m' r" for m r out
      using succeed_map by blast
    then show "triple (assn ?B) (bnd (publish_map env idn node body) (\<lambda>out.
       thn (journal_must (markAttemptSucceeded (node_id node) (no_published out)))
       (thn (writeRunManifest env idn False) (ret out)))) (\<lambda>_. assn (step_at ix m0 (node_id node) succeeded)) closes" for body
      by (intro triple_bnd[OF publish_map_triple[OF env idn node run]] then_journal_must triple_thn[OF write_closes[OF env]] triple_assn_ret)
        (auto simp: step_at_def)
  qed
  show ?thesis
    unfolding finish_map_def
  proof (rule triple_bnd)
    show "triple (assn ?A) (gets rn_manifest) (\<lambda>x. assn (\<lambda>m r. ?A m r \<and> x = m)) closes"
      by (simp add: triple_def gets_def assn_def)
    show "triple (assn (\<lambda>m r. ?A m r \<and> x = m))
      (if mapHasFailedItem x (node_id node) (int ` fst ` set (ma_failures acc))
       then raise_map env node ''one or more map items failed'' (plain_error (first_failure (ma_first acc) ''one or more map items failed''))
       else bnd (guard_map env node ''map collection failed''
         (map_sum (\<lambda>_. plain_error ''map collection failed'') id (collect_map env node cnt acc))) (\<lambda>body.
       bnd (publish_map env idn node body) (\<lambda>out.
       thn (journal_must (markAttemptSucceeded (node_id node) (no_published out)))
       (thn (writeRunManifest env idn False) (ret out))))) (\<lambda>_. assn (step_at ix m0 (node_id node) succeeded)) closes" for x
      by (intro triple_cases_if raise_map_closes triple_assn_pre[OF settle]) (auto dest: maps_running)
  qed
qed

definition fresh_map :: "string \<Rightarrow> Step \<Rightarrow> bool" where
  "fresh_map fails st = (st_status st = StatusPending \<and> st_items st = Some [] \<and> st_itemFailures st = fails)"

definition expanding :: "string \<Rightarrow> Step \<Rightarrow> bool" where
  "expanding fails st = (in_flight st \<and> st_items st = Some [] \<and> st_itemFailures st = fails)"

lemma start_map:
  assumes "step_at ix m0 node (fresh_map fails) m r"
  shows "step_at ix m0 node (expanding fails) (markAttemptRunning node 1 input m) r"
proof -
  obtain st where st: "findManifestStep m node = Some st" "fresh_map fails st" "journal_inv m"
    using assms by (auto simp: step_at_def running_manifest_def)
  then have none: "st_attempts st = []"
    using findManifestStep_inv(1)[OF st(3,1)] by (auto simp: step_inv_def fresh_map_def)
  then have "journal_inv (markAttemptRunning node 1 input m)"
    using st by (intro markAttemptRunning_inv) (auto simp: fresh_map_def unexpanded_def awaiting_def)
  then show ?thesis
    unfolding markAttemptRunning_def
    by (rule step_at_update[OF assms, rotated]) (auto simp: fresh_map_def expanding_def in_flight_def new_attempt_def)
qed

lemma expand_map:
  assumes "step_at ix m0 node (expanding fails) m r"
  shows "maps ix m0 node cnt fails (\<lambda>shape. \<forall>i < cnt. shape i = Waiting 1) (markMapItemsPending node cnt m) r"
proof -
  obtain st where st: "findManifestStep m node = Some st" "expanding fails st" "journal_inv m"
    using assms by (auto simp: step_at_def running_manifest_def)
  have "journal_inv (markMapItemsPending node cnt m)"
    using st by (intro markMapItemsPending_inv) (auto simp: expanding_def in_flight_def)
  then have "step_at ix m0 node (mapping cnt fails (\<lambda>_. Waiting 1)) (markMapItemsPending node cnt m) r"
    unfolding markMapItemsPending_def update_items_def
    by (rule step_at_update[OF assms, rotated]) (auto simp: expanding_def mapping_def in_flight_def item_awaiting_def)
  then show ?thesis by (auto simp: maps_def)
qed

lemma run_items_triple:
  assumes env: "honest env" and idn: "safe_identity idn" and node: "ValidSafePathSegment (node_id node)"
    and fails: "fails = node_itemFailures node"
  shows "triple (assn (step_at ix m0 (node_id node) (expanding fails))) (run_items env idn node items)
    (\<lambda>_. assn (step_at ix m0 (node_id node) succeeded)) closes"
proof -
  let ?n = "length items"
  let ?M = "maps ix m0 (node_id node) ?n fails (\<lambda>shape. \<forall>i < ?n. shape i = Waiting 1)"
  have run: "?M m r \<Longrightarrow> running_manifest m" for m r by (rule maps_running)
  have rounds: "triple (assn ?M) (map_rounds env idn node inputs policy left 1 [0..<?n] \<lparr>ma_results = [], ma_failures = [], ma_first = []\<rparr>)
    (\<lambda>acc. assn (maps ix m0 (node_id node) ?n fails (all_closed ?n fails (ma_failures acc)))) closes" for inputs policy left
    by (rule triple_assn_pre[OF map_rounds_triple[OF env idn node fails]])
      (auto simp: ready_def pend_def settled_rest_def elim!: maps_mono)
  show ?thesis
    unfolding run_items_def Let_def
    by (intro then_journal[where B = ?M] expand_map triple_bnd[OF put_items_triple[OF env idn node run]] triple_thn[OF write_closes[OF env run]]
        triple_cases_if raise_map_closes triple_bnd[OF triple_observe] triple_bnd[OF rounds] finish_map_triple[OF env idn node])
      (auto dest: run)
qed

lemma runMapNode_triple:
  assumes env: "honest env" and idn: "safe_identity idn" and node: "ValidSafePathSegment (node_id node)"
    and fails: "fails = node_itemFailures node"
  shows "triple (assn (step_at ix m0 (node_id node) (fresh_map fails))) (runMapNode env idn node)
    (\<lambda>_. assn (step_at ix m0 (node_id node) succeeded)) closes"
proof -
  let ?W = "step_at ix m0 (node_id node) (fresh_map fails)"
  let ?E = "step_at ix m0 (node_id node) (expanding fails)"
  obtain key where key: "runInputKey (id_projectKey idn) (id_runID idn) (node_id node) None = Some key"
    using runInputKey_text[OF _ node, of "id_runID idn" None] idn by (auto simp: item_scope_def)
  have res: "triple (assn ?W) (of_result (\<lambda>e. plain_error (en_text env e)) res) (\<lambda>_. assn ?W) closes" for res
    unfolding closes_def[abs_def] by (rule triple_assn_of_result) (auto intro: step_at_closable)
  have run: "?E m r \<Longrightarrow> running_manifest m" for m r by (simp add: step_at_def)
  have expand: "triple (assn ?E) (guard_map env node ''map input expansion failed''
        (map_sum (\<lambda>_. plain_error ''map input expansion failed'') id (Expand (en_number env) body))) (\<lambda>_. assn ?E) closes" for body
    by (rule triple_conseq[OF guard_map_triple[OF _ run]]) (auto simp: map_sum_def elim: assn_mono split: sum.splits)
  show ?thesis
    unfolding runMapNode_def Let_def key
    by (intro triple_bnd[OF triple_observe] triple_bnd[OF res] triple_bnd[OF triple_assn_must[OF refl, where B = "\<lambda>_. ?W"]]
        checked_io then_journal[where B = ?E] start_map triple_thn[OF write_closes[OF env run]] triple_bnd[OF expand]
        run_items_triple[OF assms])
      (auto simp: step_at_def dest: honestD(1)[OF env])
qed

end
