(* ===== verification/Run.thy ===== *)
theory Run
  imports MapRun
begin

text \<open>
  A whole run: \<^verbatim>\<open>Run\<close> with its node loop, its deferred terminalization and the exit hook
  (\<^verbatim>\<open>internal/orchestrator/orchestrator.go\<close>, \<^verbatim>\<open>exithook.go\<close>, \<^verbatim>\<open>types.go\<close>). The log of the state holds
  every journal that is handed to the store, in order.
\<close>

section \<open>Configuration and results\<close>

record RunConfig =
  rc_plan :: "WorkflowPlan option"
  rc_datastoreRoot :: string
  rc_projectID :: string
  rc_sourcePackageRoot :: string
  rc_runID :: string
  rc_environment :: "Environment option"

record StepSummary =
  sm_node :: string
  sm_status :: string
  sm_diagnostic :: string

record RunResult =
  rr_failure :: "FatalFailure option"
  rr_runID :: string
  rr_projectKey :: string
  rr_status :: string
  rr_manifestKey :: string
  rr_resultKey :: string
  rr_steps :: "(string \<times> string \<times> string) list"
  rr_exitHook :: "StepSummary option"
  rr_hookDiagnostic :: string

record RunError =
  re_stepID :: string
  re_diagnostic :: string

datatype run_return = Refused go_error | Completed RunResult | Failed RunResult RunError

definition deadline_text :: "nat \<Rightarrow> string" where
  "deadline_text seconds = ''run exceeded its '' @ dec_nat seconds @ ''-second deadline''"

text \<open>\<^verbatim>\<open>RunError.Error\<close>.\<close>

definition run_error_text :: "RunResult \<Rightarrow> RunError \<Rightarrow> string" where
  "run_error_text result e =
     (if rr_status result = StatusCancelled then ''run cancelled: '' @ re_diagnostic e
      else if re_stepID e = [] then re_diagnostic e
      else ''step '' @ re_stepID e @ '' failed: '' @ re_diagnostic e)"

section \<open>Admission\<close>

record admitted =
  ad_identity :: run_identity
  ad_plan :: WorkflowPlan
  ad_graph :: PlanGraph
  ad_index :: executionIndex
  ad_input :: bytes

definition required :: "bool \<Rightarrow> string \<Rightarrow> ('w, unit) exec" where
  "required ok message = (if ok then ret () else raise (plain_error message))"

definition world :: "('w \<Rightarrow> 'a \<times> 'w) \<Rightarrow> ('w, 'a) exec" where
  "world f w = (Ok (fst (f w)), snd (f w))"

text \<open>Everything before the journal is created; a refusal here leaves no record.\<close>

definition admit ::
    "'w environment \<Rightarrow> bytes \<Rightarrow> schema_checks \<Rightarrow> RunConfig \<Rightarrow> bytes \<Rightarrow> ('w, admitted) exec" where
  "admit env runOutcome chk config inputJSON =
     (case rc_plan config of
        None \<Rightarrow> raise (plain_error ''run config requires a workflow plan'')
      | Some p \<Rightarrow>
          thn (required (rc_datastoreRoot config \<noteq> []) ''run config requires a datastore root'')
          (thn (required (rc_projectID config \<noteq> []) ''run config requires an explicit project id'')
          (thn (required (rc_sourcePackageRoot config \<noteq> []) ''run config requires a source package root'')
          (bnd (if rc_runID config = [] then world (en_uuid env) else ret (rc_runID config)) (\<lambda>runID.
           thn (required (ValidSafePathSegment runID) ''invalid run id'')
           (thn (required (validatePlanIdentitySegments p = None) ''invalid plan identifier'')
           (thn (required (list_all (\<lambda>k. IsSHA256Ref (pp_packageHash k)) (wp_sourcePackages p)) ''invalid source package hash'')
           (bnd (world (en_open env (rc_datastoreRoot config))) (\<lambda>e.
            thn (check_err e)
            (bnd (of_result (\<lambda>_. plain_error ''plan is not executable'') (buildExecutionIndex (en_number env) runOutcome chk p)) (\<lambda>ix.
             bnd (must (wp_graph p)) (\<lambda>g.
             bnd (of_result (\<lambda>_. plain_error ''canonicalize workflow input'') (CanonicalizeJSON (en_number env) inputJSON)) (\<lambda>input.
             bnd (must (runManifestKey (NormalizeProjectKey (rc_projectID config)) runID)) (\<lambda>key.
             ret \<lparr>ad_identity = \<lparr>id_planHash = wp_planHash p, id_projectKey = NormalizeProjectKey (rc_projectID config),
                    id_runID = runID, id_manifestKey = key\<rparr>,
                  ad_plan = p, ad_graph = g, ad_index = ix, ad_input = input\<rparr>))))))))))))))"

definition step_kind :: "executionIndex \<Rightarrow> string \<Rightarrow> (string \<times> string) option" where
  "step_kind ix i = map_option (\<lambda>n. (node_kind n, node_itemFailures n)) (ix_nodes ix i)"

definition first_manifest :: "admitted \<Rightarrow> Environment option \<Rightarrow> Manifest" where
  "first_manifest a environment =
     (newRunManifest (id_planHash (ad_identity a)) (id_projectKey (ad_identity a)) (id_runID (ad_identity a))
       (ix_stepOrder (ad_index a)) (step_kind (ad_index a)))\<lparr>mf_environment := environment\<rparr>"

definition start_state :: "admitted \<Rightarrow> Environment option \<Rightarrow> 'w \<Rightarrow> 'w run_state" where
  "start_state a environment w =
     \<lparr>rn_world = w, rn_manifest = first_manifest a environment, rn_log = [],
      rn_resolver = newExecutionResolver (ad_index a) (ad_graph a) (ad_input a), rn_dispatched = [], rn_active = []\<rparr>"

text \<open>Creating the journal claims the run id; the flag is \<^verbatim>\<open>ErrAlreadyExists\<close>.\<close>

definition claim :: "'w environment \<Rightarrow> run_identity \<Rightarrow> ('w run_state, unit) exec" where
  "claim env idn =
     bnd (gets rn_manifest) (\<lambda>m.
     bnd (io (en_create env (id_manifestKey idn) m)) (\<lambda>r.
     case r of
       Some (exists, e) \<Rightarrow> raise (if exists then plain_error ''invalid run id: already names a run in this project'' else e)
     | None \<Rightarrow> modify (\<lambda>s. s\<lparr>rn_log := rn_log s @ [m]\<rparr>)))"

section \<open>The node loop\<close>

definition set_active :: "string \<Rightarrow> ('w run_state, unit) exec" where
  "set_active node = modify (\<lambda>s. s\<lparr>rn_active := node\<rparr>)"

definition set_resolver :: "(executionResolver \<Rightarrow> executionResolver) \<Rightarrow> ('w run_state, unit) exec" where
  "set_resolver f = modify (\<lambda>s. s\<lparr>rn_resolver := f (rn_resolver s)\<rparr>)"

definition skip_node :: "'w environment \<Rightarrow> run_identity \<Rightarrow> GraphNode \<Rightarrow> SkipReason \<Rightarrow> ('w run_state, unit) exec" where
  "skip_node env idn node reason =
     (let i = node_id node; k = node_kind node in
      thn (set_resolver (\<lambda>r. r\<lparr>er_inactive := (er_inactive r)(i \<mapsto> reason)\<rparr>))
      (thn (if k = NodeKindStep \<or> k = NodeKindMap then journal (markStepSkipped i reason)
            else if k = NodeKindDecision then journal (markDecisionSkipped i reason)
            else if k = NodeKindSelect then ret ()
            else raise (plain_error ''unsupported plan node kind''))
        (writeRunManifest env idn False)))"

definition decide :: "'w environment \<Rightarrow> run_identity \<Rightarrow> GraphNode \<Rightarrow> ('w run_state, unit) exec" where
  "decide env idn node =
     bnd (gets rn_resolver) (\<lambda>r.
     case routeDecision (en_number env) (en_validates env) r node of
       Inl e \<Rightarrow> thn (journal (markDecisionFailed (node_id node) (en_text env e))) (raise (plain_error (en_text env e)))
     | Inr (tag, r') \<Rightarrow>
         thn (set_resolver (\<lambda>_. r'))
         (thn (journal (markDecisionSelected (node_id node) tag)) (writeRunManifest env idn False)))"

definition select_output :: "'w environment \<Rightarrow> GraphNode \<Rightarrow> ('w run_state, unit) exec" where
  "select_output env node =
     bnd (gets rn_resolver) (\<lambda>r.
     bnd (of_result (\<lambda>e. plain_error (en_text env e)) (selectOutput r node)) (\<lambda>r'. set_resolver (\<lambda>_. r')))"

definition map_dispatched :: "string \<Rightarrow> ('w run_state, unit) exec" where
  "map_dispatched i =
     bnd (gets (\<lambda>s. findManifestStep (rn_manifest s) i)) (\<lambda>st.
     bnd (must st) (\<lambda>st.
     if (\<exists>its. st_items st = Some its \<and> list_ex (\<lambda>it. it_attempts it \<noteq> []) its) then dispatched i else ret ()))"

definition run_map :: "'w environment \<Rightarrow> run_identity \<Rightarrow> GraphNode \<Rightarrow> ('w run_state, unit) exec" where
  "run_map env idn node =
     bnd (attempt (runMapNode env idn node)) (\<lambda>r.
     thn (map_dispatched (node_id node))
     (case r of Inl e \<Rightarrow> raise e | Inr out \<Rightarrow> set_output (node_id node) out))"

definition run_active :: "'w environment \<Rightarrow> run_identity \<Rightarrow> GraphNode \<Rightarrow> ('w run_state, unit) exec" where
  "run_active env idn node =
     (let k = node_kind node in
      if k = NodeKindDecision then decide env idn node
      else if k = NodeKindSelect then select_output env node
      else if k = NodeKindStart \<or> k = NodeKindEnd then ret ()
      else if k = NodeKindMap then run_map env idn node
      else if k = NodeKindStep then run_step env idn node
      else raise (plain_error ''unsupported plan node kind''))"

definition visit_node :: "'w environment \<Rightarrow> run_identity \<Rightarrow> string \<Rightarrow> ('w run_state, unit) exec" where
  "visit_node env idn i =
     thn (set_active [])
     (bnd (ctx_Err env) (\<lambda>c.
      if c then raise ctx_error
      else
        bnd (gets (\<lambda>s. ix_nodes (er_index (rn_resolver s)) i)) (\<lambda>n.
        let node = (case n of Some x \<Rightarrow> x | None \<Rightarrow> zero_node) in
        thn (set_active i)
        (bnd (gets rn_resolver) (\<lambda>r.
         bnd (of_result (\<lambda>e. plain_error (en_text env e)) (activationSkipReason r node)) (\<lambda>reason.
         case reason of Some x \<Rightarrow> skip_node env idn node x | None \<Rightarrow> run_active env idn node))))))"

section \<open>Prerequisites and the result\<close>

definition put_schema :: "'w environment \<Rightarrow> unit \<Rightarrow> SchemaEntry \<Rightarrow> ('w run_state, unit) exec" where
  "put_schema env u entry =
     thn (check_err (if verifyDigest (sch_hash entry) (sch_json entry) then None else Some (plain_error ''schema digest'')))
     (bnd (of_result (\<lambda>_. plain_error ''invalid SHA-256 reference'') (blobKeyForHash (sch_hash entry))) (\<lambda>key.
      bnd (io (en_put env key (sch_json entry))) check_err))"

text \<open>
  \<^verbatim>\<open>materializePrerequisites\<close>: schema blobs first, then the source packages, whose archives come from
  the file system and are one action of the environment.
\<close>

definition materializePrerequisites :: "'w environment \<Rightarrow> WorkflowPlan \<Rightarrow> ('w run_state, string \<Rightarrow> sourcePackageArtifact option) exec" where
  "materializePrerequisites env p =
     thn (each (put_schema env) () (wp_schemas p)) (bnd (io (en_materialize env)) (of_result id))"

definition set_packages :: "(string \<Rightarrow> sourcePackageArtifact option) \<Rightarrow> ('w run_state, unit) exec" where
  "set_packages ps = set_resolver (\<lambda>r. r\<lparr>er_index := (er_index r)\<lparr>ix_packages := Some ps\<rparr>\<rparr>)"

definition resultForEnd :: "'w environment \<Rightarrow> run_identity \<Rightarrow> string \<Rightarrow> ('w run_state, DataArtifact) exec" where
  "resultForEnd env idn endNode =
     bnd (gets rn_resolver) (\<lambda>r.
     case ix_inbound (er_index r) endNode of
       [e] \<Rightarrow>
         (case er_outputs r (edge_from e) of
            None \<Rightarrow> raise (plain_error ''missing output for the end node'')
          | Some out \<Rightarrow>
              bnd (must (runResultKey (id_projectKey idn) (id_runID idn))) (\<lambda>key.
              bnd (io (en_put env key (no_body out))) (\<lambda>e.
              thn (check_err e)
                (ret \<lparr>da_key = key, da_hash = DigestBytes (no_body out), da_contentType = jsonContentType,
                   da_schema = da_schema (no_artifact out)\<rparr>))))
     | _ \<Rightarrow> raise (plain_error ''local runner v0 requires exactly one input edge for the end node''))"

definition run_plan :: "'w environment \<Rightarrow> admitted \<Rightarrow> ('w run_state, DataArtifact) exec" where
  "run_plan env a =
     bnd (materializePrerequisites env (ad_plan a)) (\<lambda>ps.
     thn (set_packages ps)
     (bnd (each (\<lambda>_. visit_node env (ad_identity a)) () (ix_nodeOrder (ad_index a))) (\<lambda>_.
      thn (set_active [])
      (bnd (resultForEnd env (ad_identity a) (graph_end (ad_graph a))) (\<lambda>art.
       thn (journal (\<lambda>m. m\<lparr>mf_status := StatusSucceeded, mf_result := Some art\<rparr>))
       (thn (writeRunManifest env (ad_identity a) False) (ret art)))))))"

section \<open>Settling the run\<close>

definition first_result :: "run_identity \<Rightarrow> Manifest \<Rightarrow> RunResult" where
  "first_result idn m =
     \<lparr>rr_failure = None, rr_runID = id_runID idn, rr_projectKey = id_projectKey idn, rr_status = StatusRunning,
      rr_manifestKey = id_manifestKey idn, rr_resultKey = [], rr_steps = summariesFromManifest m, rr_exitHook = None,
      rr_hookDiagnostic = []\<rparr>"

text \<open>
  How an error settles the run: the status, the caller's diagnostic and the durable one. \<open>cause\<close> is the
  context's cause, with the seconds of the plan's own deadline if that is what it is.
\<close>

definition settled_status :: "bool \<Rightarrow> (string \<times> nat option) option \<Rightarrow> go_error \<Rightarrow> string" where
  "settled_status ended cause e =
     (if err_fatal e \<noteq> None \<or> \<not> (ended \<and> err_is_ctx e) \<or> (\<exists>t n. cause = Some (t, Some n)) then StatusFailed else StatusCancelled)"

definition caller_diagnostic :: "bool \<Rightarrow> (string \<times> nat option) option \<Rightarrow> go_error \<Rightarrow> string" where
  "caller_diagnostic ended cause e =
     (if ended \<and> err_is_ctx e then (case cause of Some (t, _) \<Rightarrow> t | None \<Rightarrow> err_text e) else err_text e)"

definition durable_diagnostic :: "bool \<Rightarrow> (string \<times> nat option) option \<Rightarrow> string \<Rightarrow> go_error \<Rightarrow> string" where
  "durable_diagnostic ended cause active e =
     (case err_fatal e of
        Some f \<Rightarrow> err_text (fatal_error f)
      | None \<Rightarrow>
        (case (if ended \<and> err_is_ctx e then Option.bind cause snd else None) of
           Some n \<Rightarrow> deadline_text n
         | None \<Rightarrow> ''run '' @ settled_status ended cause e)
        @ (if active \<noteq> [] then '' at node '' @ active else []))"

definition settle_failure :: "'w environment \<Rightarrow> run_identity \<Rightarrow> RunResult \<Rightarrow> go_error \<Rightarrow> ('w run_state, run_return) exec" where
  "settle_failure env idn result e =
     bnd (ctx_Err env) (\<lambda>ended.
     bnd (gets (\<lambda>s. (en_cause env (rn_world s), rn_active s))) (\<lambda>(cause, active).
     let status = settled_status ended cause e in
     thn (journal (\<lambda>m. m\<lparr>mf_failure := (case err_fatal e of Some f \<Rightarrow> Some f | None \<Rightarrow> mf_failure m)\<rparr>))
     (thn (journal (Terminate status (durable_diagnostic ended cause active e)))
     (bnd (gets rn_manifest) (\<lambda>m.
      bnd (attempt (writeRunManifest env idn True)) (\<lambda>w.
      ret (Failed (result\<lparr>rr_status := status, rr_failure := err_fatal e, rr_steps := summariesFromManifest m\<rparr>)
             \<lparr>re_stepID = (case err_fatal e of Some f \<Rightarrow> ff_node f | None \<Rightarrow> active),
              re_diagnostic = caller_diagnostic ended cause e
                @ (case w of Inl x \<Rightarrow> ''; terminal journal could not be published: '' @ err_text x | Inr _ \<Rightarrow> [])\<rparr>)))))))"

definition settle :: "'w environment \<Rightarrow> admitted \<Rightarrow> ('w run_state, run_return) exec" where
  "settle env a =
     bnd (gets (\<lambda>s. first_result (ad_identity a) (rn_manifest s))) (\<lambda>result.
     bnd (attempt (run_plan env a)) (\<lambda>r.
     case r of
       Inl e \<Rightarrow> settle_failure env (ad_identity a) result e
     | Inr art \<Rightarrow>
         bnd (gets rn_manifest) (\<lambda>m.
         ret (Completed (result\<lparr>rr_status := StatusSucceeded, rr_resultKey := da_key art, rr_steps := summariesFromManifest m\<rparr>)))))"

section \<open>The exit hook\<close>

record RunOutcome =
  ro_fatal :: "(string \<times> string) option"
  ro_runID :: string
  ro_status :: string
  ro_failedNode :: "string option"
  ro_startedAt :: string
  ro_finishedAt :: string

definition outcome_json :: "RunOutcome \<Rightarrow> string json" where
  "outcome_json o' =
     JObj [(''fatal'', case ro_fatal o' of
              None \<Rightarrow> JNull
            | Some (m, t) \<Rightarrow> JObj ((''message'', JStr m) # (if t = [] then [] else [(''type'', JStr t)]))),
           (''run_id'', JStr (ro_runID o')), (''status'', JStr (ro_status o')),
           (''failed_node'', case ro_failedNode o' of None \<Rightarrow> JNull | Some n \<Rightarrow> JStr n),
           (''started_at'', JStr (ro_startedAt o')), (''finished_at'', JStr (ro_finishedAt o'))]"

text \<open>The failed node of a run without a fatal cause: the first dispatched step that did not succeed.\<close>

definition run_outcome :: "Manifest \<Rightarrow> string list \<Rightarrow> string \<Rightarrow> string \<Rightarrow> RunOutcome" where
  "run_outcome m dispatchedNodes startedAt finishedAt =
     \<lparr>ro_fatal = map_option (\<lambda>f. (ff_message f, ff_type f)) (mf_failure m), ro_runID = mf_runID m, ro_status = mf_status m,
      ro_failedNode = (case mf_failure m of
          Some f \<Rightarrow> Some (ff_node f)
        | None \<Rightarrow> if mf_status m = StatusFailed
            then map_option st_node (find (\<lambda>s. (st_status s = StatusFailed \<or> st_status s = StatusCancelled)
                   \<and> st_node s \<in> set dispatchedNodes) (mf_steps m))
            else None),
      ro_startedAt = startedAt, ro_finishedAt = finishedAt\<rparr>"

definition hook_step :: "GraphNode \<Rightarrow> DataArtifact \<Rightarrow> PublishedArtifact option \<Rightarrow> string \<Rightarrow> Step" where
  "hook_step hook input out diagnostic =
     (let status = (if diagnostic = [] then StatusSucceeded else StatusFailed) in
      \<lparr>st_node = node_id hook, st_status = status,
       st_attempts = [\<lparr>at_attempt = 1, at_status = status, at_input = input, at_output = out, at_diagnostic = diagnostic\<rparr>],
       st_items = None, st_itemFailures = [], st_skipReason = None\<rparr>)"

text \<open>\<open>record\<close>: the hook's own context overrides the diagnostic.\<close>

definition record_hook ::
    "'w environment \<Rightarrow> GraphNode \<Rightarrow> DataArtifact \<Rightarrow> int \<Rightarrow> PublishedArtifact option \<Rightarrow> string \<Rightarrow> ('w run_state, Step) exec" where
  "record_hook env hook input timeout out diagnostic =
     bnd (io (en_hookContext env)) (\<lambda>c.
     ret (hook_step hook input out
       (case c of
          HookLive \<Rightarrow> diagnostic
        | HookTimedOut \<Rightarrow> ''exit hook exceeded its '' @ dec_int (timeout div Second) @ ''-second timeout''
        | HookCancelled \<Rightarrow> ''exit hook cancelled'')))"

definition hook_packages :: "'w environment \<Rightarrow> WorkflowPlan \<Rightarrow> ('w run_state, unit) exec" where
  "hook_packages env p =
     bnd (gets (\<lambda>s. ix_packages (er_index (rn_resolver s)))) (\<lambda>ps.
     if ps = None then bnd (materializePrerequisites env p) set_packages else ret ())"

definition runExitHook :: "'w environment \<Rightarrow> admitted \<Rightarrow> GraphNode \<Rightarrow> RunOutcome \<Rightarrow> ('w run_state, Step) exec" where
  "runExitHook env a hook outcome =
     (let idn = ad_identity a;
          policy = policyForContract (ix_contracts (ad_index a) (node_contractRef hook));
          encoded = marshal_tree (en_number env) (outcome_json outcome);
          body = (case encoded of Inr b \<Rightarrow> b | Inl _ \<Rightarrow> []) in
      bnd (must (runInputKey (id_projectKey idn) (id_runID idn) (node_id hook) None)) (\<lambda>key.
      let input = \<lparr>da_key = key, da_hash = DigestBytes body, da_contentType = jsonContentType, da_schema = node_inputSchema hook\<rparr>;
          record = record_hook env hook input (xp_timeout policy) in
      case encoded of
        Inl _ \<Rightarrow> record None ''exit hook input could not be encoded''
      | Inr _ \<Rightarrow>
          bnd (attempt (hook_packages env (ad_plan a))) (\<lambda>r.
          if isl r then record None ''exit hook source materialization failed''
          else bnd (io (en_put env key body)) (\<lambda>e.
          if e \<noteq> None then record None ''exit hook input could not be written''
          else bnd (gets (\<lambda>s. er_index (rn_resolver s))) (\<lambda>ix.
          bnd (attempt (descriptor_exec (descriptorForStep (id_planHash idn) (id_projectKey idn) (id_runID idn) hook input ix 1))) (\<lambda>d.
          case d of
            Inl _ \<Rightarrow> record None ''exit hook descriptor could not be built''
          | Inr d \<Rightarrow>
              bnd (io (en_invoke env [d] (xp_timeout policy) 0)) (\<lambda>(outcomes, err).
              if (\<exists>x. err = Some x \<and> err_fatal x = None) \<or> length outcomes \<noteq> 1 then record None ''invocation infrastructure failed''
              else if so_status (hd outcomes) \<noteq> StatusSucceeded then record None (durableRunnerDiagnostic (hd outcomes))
              else bnd (attempt (settleInvocation env d ix)) (\<lambda>out.
              case out of
                Inl _ \<Rightarrow> record None ''output verification failed''
              | Inr o' \<Rightarrow> record (Some (no_published o')) []))))))))"

definition hook_summary :: "Step \<Rightarrow> StepSummary" where
  "hook_summary st = \<lparr>sm_node = st_node st, sm_status = st_status st, sm_diagnostic = at_diagnostic (hd (st_attempts st))\<rparr>"

definition with_hook :: "StepSummary \<Rightarrow> string \<Rightarrow> run_return \<Rightarrow> run_return" where
  "with_hook summary diagnostic r =
     (case r of
        Refused e \<Rightarrow> Refused e
      | Completed res \<Rightarrow> Completed (res\<lparr>rr_exitHook := Some summary, rr_hookDiagnostic := diagnostic\<rparr>)
      | Failed res e \<Rightarrow> Failed (res\<lparr>rr_exitHook := Some summary, rr_hookDiagnostic := diagnostic\<rparr>) e)"

definition exit_hook :: "'w environment \<Rightarrow> admitted \<Rightarrow> string \<Rightarrow> run_return \<Rightarrow> ('w run_state, run_return) exec" where
  "exit_hook env a startedAt r =
     (case graph_exitHook (ad_graph a) of
        None \<Rightarrow> ret r
      | Some hook \<Rightarrow>
          bnd (io (en_now env)) (\<lambda>finishedAt.
          bnd (gets (\<lambda>s. run_outcome (rn_manifest s) (rn_dispatched s) startedAt finishedAt)) (\<lambda>outcome.
          bnd (runExitHook env a hook outcome) (\<lambda>st.
          thn (journal (\<lambda>m. m\<lparr>mf_exitHook := Some st\<rparr>))
          (bnd (attempt (writeRunManifest env (ad_identity a) True)) (\<lambda>w.
           ret (with_hook (hook_summary st)
             (case w of Inl x \<Rightarrow> ''exit hook record could not be published: '' @ err_text x | Inr _ \<Rightarrow> []) r)))))))"

section \<open>The run\<close>

definition execute :: "'w environment \<Rightarrow> admitted \<Rightarrow> string \<Rightarrow> ('w run_state, run_return) exec" where
  "execute env a startedAt =
     bnd (attempt (claim env (ad_identity a))) (\<lambda>c.
     case c of
       Inl e \<Rightarrow> ret (Refused e)
     | Inr _ \<Rightarrow> bnd (settle env a) (exit_hook env a startedAt))"

text \<open>What the caller gets, and the journals handed to the store.\<close>

definition Run ::
    "'w environment \<Rightarrow> bytes \<Rightarrow> schema_checks \<Rightarrow> RunConfig \<Rightarrow> bytes \<Rightarrow> 'w \<Rightarrow> run_return returned \<times> Manifest list" where
  "Run env runOutcome chk config inputJSON w =
     (case admit env runOutcome chk config inputJSON (snd (en_now env w)) of
        (Ok a, w') \<Rightarrow>
          (case execute env a (fst (en_now env w)) (start_state a (rc_environment config) w') of (r, s) \<Rightarrow> (r, rn_log s))
      | (Fail e, _) \<Rightarrow> (Ok (Refused e), [])
      | (Panic, _) \<Rightarrow> (Panic, []))"

section \<open>The invariant of the node loop\<close>

definition node_done :: "Step \<Rightarrow> bool" where
  "node_done st = (st_status st = StatusSucceeded \<or> st_status st = StatusSkipped)"

definition node_fresh :: "executionIndex \<Rightarrow> string \<Rightarrow> Step \<Rightarrow> bool" where
  "node_fresh ix i st =
     (st_status st = StatusPending
      \<and> (if kind_of (ix_nodes ix) i = NodeKindMap
          then fresh_map (node_itemFailures (case ix_nodes ix i of Some n \<Rightarrow> n | None \<Rightarrow> zero_node)) st else st_items st = None))"

definition progress :: "executionIndex \<Rightarrow> string list \<Rightarrow> Manifest \<Rightarrow> bool" where
  "progress ix ys m =
     (running_manifest m \<and> map st_node (mf_steps m) = ix_stepOrder ix
      \<and> (\<forall>i \<in> set (ix_stepOrder ix). \<exists>st. findManifestStep m i = Some st
           \<and> (if i \<in> set ys then node_done st else node_fresh ix i st)))"

definition at_node :: "executionIndex \<Rightarrow> string list \<Rightarrow> Manifest \<Rightarrow> executionResolver \<Rightarrow> bool" where
  "at_node ix ys m r = (er_index r = ix \<and> progress ix ys m)"

definition exec_ok :: "executionIndex \<Rightarrow> bool" where
  "exec_ok ix =
     (distinct (ix_nodeOrder ix)
      \<and> (\<forall>i \<in> set (ix_nodeOrder ix). \<exists>n. ix_nodes ix i = Some n \<and> node_id n = i \<and> ValidSafePathSegment i)
      \<and> ix_stepOrder ix = filter (\<lambda>i. kind_of (ix_nodes ix) i = ''step'' \<or> kind_of (ix_nodes ix) i = ''map'') (ix_nodeOrder ix))"

lemma at_node_running: "at_node ix ys m r \<Longrightarrow> running_manifest m"
  by (simp add: at_node_def progress_def)

lemma progress_running: "progress ix ys m \<Longrightarrow> running_manifest m"
  by (simp add: progress_def)

lemma exec_ok_packages [simp]: "exec_ok (ix\<lparr>ix_packages := ps\<rparr>) = exec_ok ix"
  by (simp add: exec_ok_def)

lemma find_mapped: "i \<in> set is \<Longrightarrow> distinct is \<Longrightarrow> (\<And>j. g (f j) = j) \<Longrightarrow> find (\<lambda>s. g s = i) (map f is) = Some (f i)"
  by (induction "is") auto

lemma first_progress:
  assumes "exec_ok (ad_index a)"
  shows "progress (ad_index a) [] (first_manifest a environment)"
proof -
  let ?ix = "ad_index a"
  have d: "distinct (ix_stepOrder ?ix)" using assms by (simp add: exec_ok_def)
  have "journal_inv (first_manifest a environment)"
    using newRunManifest_inv[OF d] by (simp add: first_manifest_def journal_inv_def)
  moreover have "\<exists>st. findManifestStep (first_manifest a environment) i = Some st \<and> node_fresh ?ix i st" if "i \<in> set (ix_stepOrder ?ix)" for i
  proof -
    obtain n where "ix_nodes ?ix i = Some n" using assms \<open>i \<in> set (ix_stepOrder ?ix)\<close> by (auto simp: exec_ok_def)
    moreover let ?f = "\<lambda>i. \<lparr>st_node = i, st_status = StatusPending, st_attempts = [],
          st_items = (case step_kind ?ix i of Some (k, _) \<Rightarrow> if k = ''map'' then Some [] else None | None \<Rightarrow> None),
          st_itemFailures = (case step_kind ?ix i of Some (k, f) \<Rightarrow> if k = ''map'' then f else [] | None \<Rightarrow> []),
          st_skipReason = None\<rparr>"
    have "findManifestStep (first_manifest a environment) i = Some (?f i)"
      unfolding findManifestStep_def first_manifest_def newRunManifest_def
      by simp (rule find_mapped[OF that d], simp)
    ultimately show ?thesis
      by (simp add: node_fresh_def fresh_map_def step_kind_def kind_of_def NodeKindMap_def)
  qed
  ultimately show ?thesis
    by (simp add: progress_def running_manifest_def) (simp add: first_manifest_def newRunManifest_def comp_def)
qed

lemma progress_other:
  assumes "progress ix ys m" "i \<notin> set (ix_stepOrder ix)"
  shows "progress ix (ys @ [i]) m"
proof -
  have "j \<in> set (ys @ [i]) \<longleftrightarrow> j \<in> set ys" if "j \<in> set (ix_stepOrder ix)" for j
    using assms(2) that by auto
  then show ?thesis using assms(1) by (simp add: progress_def del: set_append cong: ball_cong)
qed

lemma progress_decision: "progress ix ys (add_decision d m) = progress ix ys m"
  by (simp add: progress_def running_manifest_def) (simp add: add_decision_def)

lemma progress_step:
  assumes "progress ix ys m0" "step_at ix m0 i P m r" "\<And>st. P st \<Longrightarrow> node_done st"
  shows "at_node ix (ys @ [i]) m r"
  using assms unfolding at_node_def progress_def step_at_def others_def by auto metis

lemma fresh_step_at:
  assumes "at_node ix ys m r" "i \<in> set (ix_stepOrder ix)" "i \<notin> set ys"
  shows "step_at ix m i (node_fresh ix i) m r"
  using assms by (fastforce simp: at_node_def progress_def step_at_def)

lemma triple_fix: "(\<And>m0. triple (assn (\<lambda>m r. A m r \<and> m = m0)) c Q E) \<Longrightarrow> triple (assn A) c Q E"
  by (auto simp: triple_def assn_def)

text \<open>Running one step or map from a fresh entry to a settled one is progress.\<close>

lemma progress_triple:
  assumes fresh: "\<And>st. node_fresh ix i st \<Longrightarrow> step_inv st \<Longrightarrow> S st" and i: "i \<in> set (ix_stepOrder ix)" "i \<notin> set ys"
    and c: "\<And>m0. i \<in> set (map st_node (mf_steps m0)) \<Longrightarrow> triple (assn (step_at ix m0 i S)) c (\<lambda>_. assn (step_at ix m0 i P)) closes" and P: "\<And>st. P st \<Longrightarrow> node_done st"
  shows "triple (assn (at_node ix ys)) c (\<lambda>_. assn (at_node ix (ys @ [i]))) closes"
proof (rule triple_fix)
  fix m0
  have S: "step_at ix m0 i S m r" if "at_node ix ys m r \<and> m = m0" for m r
    using fresh_step_at[of ix ys m r i] i that fresh findManifestStep_inv(1)
    unfolding step_at_def running_manifest_def by blast
  show "triple (assn (\<lambda>m r. at_node ix ys m r \<and> m = m0)) c (\<lambda>_. assn (at_node ix (ys @ [i]))) closes"
  proof (rule triple_assn_fact)
    show "at_node ix ys m r \<and> m = m0 \<Longrightarrow> progress ix ys m0" for m r by (auto simp: at_node_def)
    assume p: "progress ix ys m0"
    show "triple (assn (\<lambda>m r. at_node ix ys m r \<and> m = m0)) c (\<lambda>_. assn (at_node ix (ys @ [i]))) closes"
      by (rule triple_conseq[OF c[of m0]])
        (use p i(1) in \<open>auto simp: progress_def elim!: assn_mono intro: S progress_step[OF p _ P]\<close>)
  qed
qed

section \<open>A map keeps the steps of its journal\<close>

definition names :: "'w run_state \<Rightarrow> string list" where
  "names s = map st_node (mf_steps (rn_manifest s))"

definition keeps :: "('w run_state, 'a) exec \<Rightarrow> bool" where
  "keeps c = (\<forall>s. names (snd (c s)) = names s)"

named_theorems keeps_intros \<open>computations that keep the step names\<close>

lemma keeps_basic [keeps_intros]:
  "keeps (ret x)" "keeps (raise e)" "keeps (gets f)" "keeps (io g)" "keeps (must y)" "keeps (check_err err)" "keeps (of_result h res)"
  by (auto simp: keeps_def names_def ret_def raise_def gets_def io_def must_def check_err_def of_result_def split: option.splits sum.splits)

lemma keeps_bnd [keeps_intros]:
  assumes "keeps c" "\<And>x. keeps (k x)"
  shows "keeps (bnd c k)"
proof -
  have "names (snd (bnd c k s)) = names s" for s
    using assms by (cases "c s"; cases "fst (c s)") (auto simp: keeps_def bnd_def dest: spec[of _ s])
  then show ?thesis by (simp add: keeps_def)
qed

lemma keeps_thn [keeps_intros]: "keeps c \<Longrightarrow> keeps k \<Longrightarrow> keeps (thn c k)"
  unfolding thn_def by (intro keeps_bnd)

lemma keeps_attempt [keeps_intros]: "keeps c \<Longrightarrow> keeps (attempt c)"
  by (simp add: keeps_def attempt_def split: prod.splits returned.splits) (metis snd_conv)

lemma keeps_each [keeps_intros]: "(\<And>acc x. keeps (f acc x)) \<Longrightarrow> keeps (each f acc xs)"
  by (induction f acc xs rule: each.induct) (auto intro: keeps_intros)

lemma keeps_cases [keeps_intros]:
  "(b \<Longrightarrow> keeps c) \<Longrightarrow> (\<not> b \<Longrightarrow> keeps c') \<Longrightarrow> keeps (if b then c else c')"
  "keeps n \<Longrightarrow> (\<And>y. o' = Some y \<Longrightarrow> keeps (k y)) \<Longrightarrow> keeps (case o' of None \<Rightarrow> n | Some y \<Rightarrow> k y)"
  "(\<And>x. keeps (l x)) \<Longrightarrow> (\<And>y. keeps (r y)) \<Longrightarrow> keeps (case su of Inl x \<Rightarrow> l x | Inr y \<Rightarrow> r y)"
  "(\<And>x y. keeps (p x y)) \<Longrightarrow> keeps (case pr of (x, y) \<Rightarrow> p x y)"
  by (auto split: option.splits sum.splits prod.splits)

lemma names_update: "(\<And>s. st_node (f s) = st_node s) \<Longrightarrow> map st_node (mf_steps (update_step i f m)) = map st_node (mf_steps m)"
  by (simp add: update_step_def map_update_first)

lemma keeps_journal: "(\<And>m. map st_node (mf_steps (f m)) = map st_node (mf_steps m)) \<Longrightarrow> keeps (journal f)"
  by (simp add: keeps_def journal_def modify_def names_def)

lemma keeps_journal_must: "(\<And>m m'. f m = Some m' \<Longrightarrow> map st_node (mf_steps m') = map st_node (mf_steps m)) \<Longrightarrow> keeps (journal_must f)"
  by (auto simp: keeps_def journal_must_def bnd_def gets_def must_def journal_def modify_def names_def split: option.splits)

lemma keeps_marks [keeps_intros]:
  "keeps (journal (markMapItemRunning i k n input))" "keeps (journal (markMapItemTerminal i k status d))"
  "keeps (journal (markMapItemRetrying i k d))" "keeps (journal (markMapItemsPending i cnt))"
  "keeps (journal (failMapNode c i d))" "keeps (journal (markAttemptRunning i n input))"
  "keeps (journal_must (markMapItemSucceeded i k out))" "keeps (journal_must (markAttemptSucceeded i out))"
  by (auto intro!: keeps_journal keeps_journal_must
      simp: markMapItemRunning_def markMapItemTerminal_def markMapItemRetrying_def markMapItemsPending_def failMapNode_step
        markAttemptRunning_def markMapItemSucceeded_def markAttemptSucceeded_def update_item_def update_items_def names_update Let_def
      split: option.splits if_splits)

lemma keeps_write [keeps_intros]: "keeps (writeRunManifest env idn detached)"
  unfolding writeRunManifest_def by (intro keeps_intros) (simp add: keeps_def names_def modify_def)

lemma keeps_settle [keeps_intros]: "keeps (settleInvocation env d ix)"
  unfolding settleInvocation_def resolveOutputArtifact_def Let_def by (intro keeps_intros)

lemma keeps_raise_map [keeps_intros]: "keeps (raise_map env node d e)"
  unfolding raise_map_def ctx_Err_def by (intro keeps_intros)

lemma keeps_guard_map [keeps_intros]: "keeps (guard_map env node d r)"
  unfolding guard_map_def by (intro keeps_intros)

lemma keeps_descriptor [keeps_intros]: "keeps (descriptor_exec r)"
  by (auto simp: descriptor_exec_def intro: keeps_intros split: sum.splits descriptor_error.splits)

lemma keeps_round [keeps_intros]:
  assumes "\<And>k n p acc. again = Some k \<Longrightarrow> keeps (k n p acc)"
  shows "keeps (map_round env idn node inputs policy again n pending acc)"
  unfolding map_round_def settle_round_def settle_reported_def item_descriptor_def record_dispatch_def settle_item_def
    abandon_item_def ctx_Err_def Let_def
  by (intro keeps_intros) (simp_all add: assms)

lemma keeps_rounds [keeps_intros]: "keeps (map_rounds env idn node inputs policy left n pending acc)"
  by (induction left arbitrary: n pending acc) (auto intro!: keeps_round)

lemma keeps_map: "keeps (runMapNode env idn node)"
  unfolding runMapNode_def run_items_def put_item_def finish_map_def publish_map_def Let_def
  by (intro keeps_intros)

section \<open>The triple of a node\<close>

lemma triple_set_active: "triple (assn A) (set_active i) (\<lambda>_. assn A) E"
  by (simp add: triple_def set_active_def modify_def assn_def)

lemma triple_set_resolver: "(\<And>m r. A m r \<Longrightarrow> B m (f r)) \<Longrightarrow> triple (assn A) (set_resolver f) (\<lambda>_. assn B) E"
  by (simp add: triple_def set_resolver_def modify_def assn_def)

lemma raise_running: "quiet e \<Longrightarrow> (\<And>m r. A m r \<Longrightarrow> running_manifest m) \<Longrightarrow> triple (assn A) (raise e) Q closes"
  by (rule raise_closes) (rule running_closable, auto)

lemma skip_done:
  assumes "step_at ix m0 i (\<lambda>st. st_status st = StatusPending) m r"
  shows "step_at ix m0 i node_done (markStepSkipped i reason m) r"
proof -
  have "journal_inv (markStepSkipped i reason m)"
    using assms by (intro markStepSkipped_inv) (auto simp: step_at_def running_manifest_def)
  then show ?thesis
    unfolding markStepSkipped_def by (rule step_at_update[OF assms, rotated]) (auto simp: node_done_def)
qed

lemma skip_triple:
  assumes env: "honest env" and ok: "exec_ok ix" and i: "node_id node \<in> set (ix_nodeOrder ix)" "node_id node \<notin> set ys"
    and node: "ix_nodes ix (node_id node) = Some node"
  shows "triple (assn (at_node ix ys)) (skip_node env idn node reason) (\<lambda>_. assn (at_node ix (ys @ [node_id node]))) closes"
proof -
  have stepOrder: "node_id node \<in> set (ix_stepOrder ix) \<longleftrightarrow> node_kind node = NodeKindStep \<or> node_kind node = NodeKindMap"
    using ok i(1) node by (auto simp: exec_ok_def kind_of_def NodeKindStep_def NodeKindMap_def)
  have skip: "triple (assn (at_node ix ys)) (journal (markStepSkipped (node_id node) reason)) (\<lambda>_. assn (at_node ix (ys @ [node_id node]))) closes"
    if "node_id node \<in> set (ix_stepOrder ix)"
  proof (rule progress_triple[OF _ that i(2), where S = "\<lambda>st. st_status st = StatusPending" and P = node_done])
    fix m0
    show "triple (assn (step_at ix m0 (node_id node) (\<lambda>st. st_status st = StatusPending))) (journal (markStepSkipped (node_id node) reason))
        (\<lambda>_. assn (step_at ix m0 (node_id node) node_done)) closes"
      by (rule triple_assn_pre[OF triple_journal]) (rule skip_done)
  qed (auto simp: node_fresh_def)
  have other: "at_node ix ys m r \<Longrightarrow> at_node ix (ys @ [node_id node]) m r" if "node_id node \<notin> set (ix_stepOrder ix)" for m r
    using that progress_other by (auto simp: at_node_def)
  have kinds: "NodeKindDecision \<noteq> NodeKindStep" "NodeKindDecision \<noteq> NodeKindMap" "NodeKindSelect \<noteq> NodeKindStep" "NodeKindSelect \<noteq> NodeKindMap"
    by (simp_all add: node_kinds)
  have decision: "triple (assn (at_node ix ys)) (journal (markDecisionSkipped (node_id node) reason)) (\<lambda>_. assn (at_node ix (ys @ [node_id node]))) closes"
    if "node_kind node = NodeKindDecision"
    by (rule triple_assn_pre[OF triple_journal]) (use that kinds stepOrder in \<open>auto simp: at_node_def progress_decision decision_defs intro: progress_other\<close>)
  show ?thesis
    unfolding skip_node_def Let_def
    by (intro triple_thn[OF triple_set_resolver[where B = "at_node ix ys"]] triple_thn[OF triple_cases_if write_closes[OF env]]
        triple_cases_if skip decision raise_running triple_assn_ret)
      (use stepOrder kinds in \<open>auto simp: at_node_running other intro: other, simp_all add: at_node_def\<close>)
qed

lemma routeDecision_index: "routeDecision f v r node = Inr (tag, r') \<Longrightarrow> er_index r' = er_index r"
  by (auto simp: routeDecision_Inr)

lemma selectOutput_index: "selectOutput r node = Inr r' \<Longrightarrow> er_index r' = er_index r"
  by (auto simp: selectOutput_def split: option.splits if_splits)

lemma triple_get_resolver: "(\<And>r0. triple (assn (\<lambda>m r. A m r \<and> r = r0)) (k r0) Q E) \<Longrightarrow> triple (assn A) (bnd (gets rn_resolver) k) Q E"
  by (auto simp: triple_def bnd_def gets_def assn_def)

lemma decide_triple:
  assumes env: "honest env" and i: "node_id node \<notin> set (ix_stepOrder ix)"
  shows "triple (assn (at_node ix ys)) (decide env idn node) (\<lambda>_. assn (at_node ix (ys @ [node_id node]))) closes"
  unfolding decide_def
proof (rule triple_get_resolver)
  fix r0
  let ?A = "\<lambda>m r. at_node ix ys m r \<and> r = r0"
  have failed: "triple (assn ?A) (thn (journal (markDecisionFailed (node_id node) d)) (raise (plain_error t))) Q closes" for d t Q
    by (intro then_journal[where B = "at_node ix ys"] raise_running)
      (auto simp: at_node_def progress_decision decision_defs dest: progress_running)
  have chosen: "triple (assn ?A) (thn (set_resolver (\<lambda>_. r')) (thn (journal (markDecisionSelected (node_id node) tag)) (writeRunManifest env idn False)))
      (\<lambda>_. assn (at_node ix (ys @ [node_id node]))) closes"
    if "routeDecision (en_number env) (en_validates env) r0 node = Inr (tag, r')" for tag r'
    by (intro triple_thn[OF triple_set_resolver[where B = "at_node ix ys"]] then_journal[where B = "at_node ix (ys @ [node_id node])"] write_closes[OF env])
      (use routeDecision_index[OF that] i progress_other in
        \<open>auto simp: at_node_def progress_decision decision_defs dest: progress_running\<close>)
  show "triple (assn ?A) (case routeDecision (en_number env) (en_validates env) r0 node of
       Inl e \<Rightarrow> thn (journal (markDecisionFailed (node_id node) (en_text env e))) (raise (plain_error (en_text env e)))
     | Inr (tag, r') \<Rightarrow>
         thn (set_resolver (\<lambda>_. r')) (thn (journal (markDecisionSelected (node_id node) tag)) (writeRunManifest env idn False)))
     (\<lambda>_. assn (at_node ix (ys @ [node_id node]))) closes"
    using failed chosen by (auto split: sum.splits)
qed

lemma select_triple:
  assumes i: "node_id node \<notin> set (ix_stepOrder ix)"
  shows "triple (assn (at_node ix ys)) (select_output env node) (\<lambda>_. assn (at_node ix (ys @ [node_id node]))) closes"
  unfolding select_output_def
proof (rule triple_get_resolver)
  fix r0
  let ?A = "\<lambda>m r. at_node ix ys m r \<and> r = r0"
  have "triple (assn ?A) (set_resolver (\<lambda>_. r')) (\<lambda>_. assn (at_node ix (ys @ [node_id node]))) closes" if "selectOutput r0 node = Inr r'" for r'
    by (rule triple_set_resolver) (use selectOutput_index[OF that] i progress_other in \<open>auto simp: at_node_def\<close>)
  moreover have "triple (assn ?A) (raise (plain_error t)) Q closes" for t Q
    by (rule raise_running) (auto simp: at_node_running)
  ultimately show "triple (assn ?A) (bnd (of_result (\<lambda>e. plain_error (en_text env e)) (selectOutput r0 node)) (\<lambda>r'. set_resolver (\<lambda>_. r')))
      (\<lambda>_. assn (at_node ix (ys @ [node_id node]))) closes"
    by (cases "selectOutput r0 node") (auto simp: of_result_def triple_def bnd_def raise_def ret_def)
qed

lemma triple_keeps:
  assumes "triple P c Q E" "keeps c" "\<And>s. P s \<Longrightarrow> names s = ns"
  shows "triple P c Q (\<lambda>e s. E e s \<and> names s = ns)"
proof (rule tripleI)
  fix s assume P: "P s"
  have "names (snd (c s)) = ns" using assms(2,3) P by (simp add: keeps_def)
  then show "case c s of (Ok x, s') \<Rightarrow> Q x s' | (Fail e, s') \<Rightarrow> E e s' \<and> names s' = ns | (Panic, _) \<Rightarrow> False"
    using assms(1) P unfolding triple_def by (cases "c s"; cases "fst (c s)") (auto dest: spec[of _ s])
qed

lemma names_found: "i \<in> set (map st_node (mf_steps m)) \<Longrightarrow> findManifestStep m i \<noteq> None"
  by (auto simp: findManifestStep_def find_None_iff)

lemma map_dispatched_triple:
  assumes "\<And>s. P s \<Longrightarrow> i \<in> set (names s)" "\<And>s d. P s \<Longrightarrow> P (s\<lparr>rn_dispatched := d\<rparr>)"
  shows "triple P (map_dispatched i) (\<lambda>_. P) E"
  unfolding map_dispatched_def triple_def
proof (intro allI impI)
  fix s assume P: "P s"
  then obtain st where "findManifestStep (rn_manifest s) i = Some st" using assms(1) names_found by (fastforce simp: names_def)
  then show "case bnd (gets (\<lambda>s. findManifestStep (rn_manifest s) i)) (\<lambda>st. bnd (must st) (\<lambda>st.
      if (\<exists>its. st_items st = Some its \<and> list_ex (\<lambda>it. it_attempts it \<noteq> []) its) then dispatched i else ret ())) s of
      (Ok x, s') \<Rightarrow> P s' | (Fail e, s') \<Rightarrow> E e s' | (Panic, _) \<Rightarrow> False"
    using P assms(2) by (simp add: bnd_def gets_def must_def dispatched_def modify_def ret_def)
qed

lemma run_map_triple:
  assumes env: "honest env" and idn: "safe_identity idn" and node: "ValidSafePathSegment (node_id node)"
    and i: "node_id node \<in> set (map st_node (mf_steps m0))"
  shows "triple (assn (step_at ix m0 (node_id node) (fresh_map (node_itemFailures node)))) (run_map env idn node)
    (\<lambda>_. assn (step_at ix m0 (node_id node) succeeded)) closes"
  unfolding run_map_def
proof (rule triple_bnd)
  let ?N = "map st_node (mf_steps m0)"
  let ?R = "\<lambda>r s. case r of Inl e \<Rightarrow> closes e s \<and> names s = ?N | Inr _ \<Rightarrow> assn (step_at ix m0 (node_id node) succeeded) s"
  have names: "assn (step_at ix m0 j P) s \<Longrightarrow> names s = ?N" for j P s
    by (simp add: assn_def step_at_def others_def names_def)
  show "triple (assn (step_at ix m0 (node_id node) (fresh_map (node_itemFailures node)))) (attempt (runMapNode env idn node)) ?R closes"
    by (rule triple_attempt, rule triple_conseq[OF triple_keeps[OF runMapNode_triple[OF env idn node refl, of ix m0] keeps_map names]]) simp_all
  fix r :: "go_error + nodeOutput"
  have R: "names s = ?N" if "?R r s" for s using that by (cases r) (auto intro: names)
  have "triple (?R r) (map_dispatched (node_id node)) (\<lambda>_. ?R r) closes"
  proof (rule map_dispatched_triple)
    show "node_id node \<in> set (names s)" if "?R r s" for s using R[OF that] i by simp
  qed (auto simp: closes_def assn_def names_def split: sum.splits)
  moreover have "triple (?R r) (case r of Inl e \<Rightarrow> raise e | Inr out \<Rightarrow> set_output (node_id node) out)
      (\<lambda>_. assn (step_at ix m0 (node_id node) succeeded)) closes"
    by (cases r) (auto simp: triple_def raise_def set_output_def modify_def assn_def step_at_def)
  ultimately show "triple (?R r) (thn (map_dispatched (node_id node)) (case r of Inl e \<Rightarrow> raise e | Inr out \<Rightarrow> set_output (node_id node) out))
      (\<lambda>_. assn (step_at ix m0 (node_id node) succeeded)) closes"
    by (rule triple_thn)
qed

lemma visit_triple:
  assumes env: "honest env" and idn: "safe_identity idn" and ok: "exec_ok ix"
    and i: "i \<in> set (ix_nodeOrder ix)" "i \<notin> set ys"
  shows "triple (assn (at_node ix ys)) (visit_node env idn i) (\<lambda>_. assn (at_node ix (ys @ [i]))) closes"
proof -
  obtain node where node: "ix_nodes ix i = Some node" "node_id node = i" "ValidSafePathSegment i" using ok i(1) by (auto simp: exec_ok_def)
  note run = at_node_running
  have stepOrder: "i \<in> set (ix_stepOrder ix) \<longleftrightarrow> node_kind node = NodeKindStep \<or> node_kind node = NodeKindMap"
    using ok i(1) node by (auto simp: exec_ok_def kind_of_def NodeKindStep_def NodeKindMap_def)
  have other: "at_node ix ys m r \<Longrightarrow> at_node ix (ys @ [i]) m r" if "i \<notin> set (ix_stepOrder ix)" for m r
    using that progress_other by (auto simp: at_node_def)
  have map: "triple (assn (at_node ix ys)) (run_map env idn node) (\<lambda>_. assn (at_node ix (ys @ [i]))) closes"
    if k: "node_kind node = NodeKindMap"
    by (rule progress_triple[where S = "fresh_map (node_itemFailures node)" and P = succeeded])
      (use stepOrder i node k run_map_triple[OF env idn, of node] in \<open>auto simp: node_fresh_def kind_of_def succeeded_def node_done_def\<close>)
  have step: "triple (assn (at_node ix ys)) (run_step env idn node) (\<lambda>_. assn (at_node ix (ys @ [i]))) closes"
    if k: "node_kind node = NodeKindStep"
    by (rule progress_triple[where S = "waiting 1" and P = succeeded])
      (use stepOrder i node k run_step_triple[OF env idn, of node] in
        \<open>auto simp: node_fresh_def kind_of_def succeeded_def node_done_def waiting_def awaiting_def step_inv_def node_kinds\<close>)
  have kinds: "NodeKindDecision \<noteq> NodeKindStep" "NodeKindDecision \<noteq> NodeKindMap" "NodeKindSelect \<noteq> NodeKindStep" "NodeKindSelect \<noteq> NodeKindMap"
    "NodeKindStart \<noteq> NodeKindStep" "NodeKindStart \<noteq> NodeKindMap" "NodeKindEnd \<noteq> NodeKindStep" "NodeKindEnd \<noteq> NodeKindMap"
    by (simp_all add: node_kinds)
  have idle: "triple (assn (at_node ix ys)) (ret ()) (\<lambda>_. assn (at_node ix (ys @ [i]))) closes" if "i \<notin> set (ix_stepOrder ix)"
    by (rule triple_assn_ret) (rule other[OF that])
  have active: "triple (assn (at_node ix ys)) (run_active env idn node) (\<lambda>_. assn (at_node ix (ys @ [i]))) closes"
    unfolding run_active_def Let_def
    using stepOrder kinds node decide_triple[OF env, of node ix ys idn] select_triple[of node ix ys env]
    by (intro triple_cases_if map step raise_running idle) (auto intro: run)
  have skip: "triple (assn (at_node ix ys)) (skip_node env idn node reason) (\<lambda>_. assn (at_node ix (ys @ [i]))) closes" for reason
    using skip_triple[OF env ok, of node ys] i node by simp
  have reason: "triple (assn (at_node ix ys)) (of_result (\<lambda>e. plain_error (en_text env e)) res) (\<lambda>_. assn (at_node ix ys)) closes" for res
    unfolding closes_def[abs_def] by (rule triple_assn_of_result) (auto intro: running_closable run)
  have found: "triple (assn (at_node ix ys)) (gets (\<lambda>s. ix_nodes (er_index (rn_resolver s)) i))
      (\<lambda>x. assn (\<lambda>m r. at_node ix ys m r \<and> x = Some node)) closes"
    using node(1) by (auto simp: triple_def gets_def assn_def at_node_def)
  have visit: "triple (assn (\<lambda>m r. at_node ix ys m r \<and> n = Some node))
      (let node = (case n of Some x \<Rightarrow> x | None \<Rightarrow> zero_node) in
        thn (set_active i)
        (bnd (gets rn_resolver) (\<lambda>r.
         bnd (of_result (\<lambda>e. plain_error (en_text env e)) (activationSkipReason r node)) (\<lambda>reason.
         case reason of Some x \<Rightarrow> skip_node env idn node x | None \<Rightarrow> run_active env idn node))))
      (\<lambda>_. assn (at_node ix (ys @ [i]))) closes" for n
  proof (rule triple_assn_fact[where C = "n = Some node"])
    assume "n = Some node"
    then show ?thesis
      by (simp only: option.case Let_def simp_thms)
        (intro triple_thn[OF triple_set_active] triple_bnd[OF triple_observe] triple_bnd[OF reason] triple_cases_option active skip)
  qed simp
  show ?thesis
    unfolding visit_node_def ctx_Err_def
    by (intro triple_thn[OF triple_set_active] then_io triple_cases_if raise_running triple_bnd[OF found visit]) (auto intro: run)
qed

section \<open>The triple of a plan\<close>

lemma materialize_triple:
  assumes env: "honest env" and run: "\<And>m r. A m r \<Longrightarrow> running_manifest m"
  shows "triple (assn A) (materializePrerequisites env p) (\<lambda>_. assn A) closes"
proof -
  have check: "triple (assn A) (check_err e) (\<lambda>_. assn A) closes" if "\<And>x. e = Some x \<Longrightarrow> quiet x" for e
    unfolding closes_def[abs_def] by (rule triple_assn_check_err) (auto intro: running_closable run that)
  have result: "triple (assn A) (of_result h res) (\<lambda>_. assn A) closes" if "\<And>x. res = Inl x \<Longrightarrow> quiet (h x)" for h and res :: "('e, 'b) result"
    unfolding closes_def[abs_def] by (rule triple_assn_of_result) (auto intro: running_closable run that)
  have put: "triple (assn A) (put_schema env u entry) (\<lambda>_. assn A) closes" for u entry
    unfolding put_schema_def
    by (intro triple_thn[OF check] triple_bnd[OF result] then_io check) (auto dest: honestD(1)[OF env, OF sym] split: if_splits)
  have puts: "triple (assn A) (each (put_schema env) () (wp_schemas p)) (\<lambda>_. assn A) closes"
    by (rule triple_each[where I = "\<lambda>_ _. assn A"]) (rule put)
  show ?thesis
    unfolding materializePrerequisites_def
    by (intro triple_thn[OF puts] then_io result) (auto dest: honestD(7)[OF env, OF sym])
qed

definition finished :: "Manifest \<Rightarrow> bool" where
  "finished m =
     (journal_inv m \<and> mf_failure m = None \<and> mf_exitHook m = None \<and> mf_status m = StatusSucceeded
      \<and> (\<forall>st \<in> set (mf_steps m). node_done st) \<and> mf_result m \<noteq> None)"

lemma finished_checks: "finished m \<Longrightarrow> check_manifest m = None"
  by (rule check_manifest_None) (auto simp: finished_def failure_named_def hook_ok_def node_done_def)

lemma finish_progress:
  assumes "progress ix (ix_nodeOrder ix) m" "exec_ok ix"
  shows "finished (m\<lparr>mf_status := StatusSucceeded, mf_result := Some art\<rparr>)"
proof -
  have "node_done st" if st: "st \<in> set (mf_steps m)" for st
  proof -
    have d: "distinct (map st_node (mf_steps m))"
      using assms(1) unfolding progress_def running_manifest_def journal_inv_def by blast
    have i: "st_node st \<in> set (ix_stepOrder ix)"
      using assms(1) st unfolding progress_def by (metis image_eqI list.set_map)
    then obtain st' where f: "findManifestStep m (st_node st) = Some st'" "node_done st'"
      using assms by (fastforce simp: progress_def exec_ok_def)
    have "st' \<in> set (mf_steps m)" "st_node st' = st_node st"
      using f(1) by (auto simp: findManifestStep_def dest: find_Some_first)
    then have "st' = st" using d st by (metis distinct_map inj_on_def)
    then show ?thesis using f(2) by simp
  qed
  moreover have "journal_inv (m\<lparr>mf_status := StatusSucceeded, mf_result := Some art\<rparr>) = journal_inv m"
    by (simp add: journal_inv_def)
  ultimately show ?thesis using assms(1) by (simp add: finished_def progress_def running_manifest_def)
qed

lemma runResultKey_total:
  assumes "ValidSafePathSegment r"
  shows "runResultKey (NormalizeProjectKey p) r \<noteq> None" "runManifestKey (NormalizeProjectKey p) r \<noteq> None"
proof -
  have plain: "\<forall>x \<in> set (run_segments (NormalizeProjectKey p) r @ [f]). plain x" if "plain f" for f
    using that safe_plain[OF assms] project_plain literal_plain by (auto simp: run_segments_def)
  show "runResultKey (NormalizeProjectKey p) r \<noteq> None" "runManifestKey (NormalizeProjectKey p) r \<noteq> None"
    using key_text[OF plain[OF literal_plain(10)]] key_text[OF plain[OF literal_plain(9)]]
    by (simp_all add: runResultKey_def runManifestKey_def run_segments_def)
qed

end
