(* ===== verification/RunSettlement.thy ===== *)
theory RunSettlement
  imports Run
begin

text \<open>
  How a run of \<^verbatim>\<open>internal/orchestrator/orchestrator.go\<close> ends: the triples of the plan, of the deferred
  terminalization, of the exit hook and of the whole of \<^const>\<open>Run\<close>, and the properties they give.
\<close>

section \<open>Publication\<close>

definition published :: "'w run_state \<Rightarrow> bool" where
  "published s = (rn_log s \<noteq> [] \<and> last (rn_log s) = rn_manifest s)"

lemma write_published:
  assumes "honest env" "\<And>m r. A m r \<Longrightarrow> check_manifest m = None"
  shows "triple (assn A) (writeRunManifest env idn detached) (\<lambda>_ s. assn A s \<and> published s)
    (\<lambda>e s. assn A s \<and> published s \<and> quiet e)"
proof (rule tripleI)
  fix s :: "'a run_state"
  assume a: "assn A s"
  let ?e = "fst (en_write env detached (id_manifestKey idn) (rn_manifest s) (rn_world s))"
  have "check_manifest (rn_manifest s) = None" using a assms(2) by (auto simp: assn_def)
  moreover have "?e = Some x \<Longrightarrow> quiet x" for x using honestD(2)[OF assms(1)] by blast
  ultimately show "case writeRunManifest env idn detached s of
      (Ok x, s') \<Rightarrow> assn A s' \<and> published s' | (Fail e, s') \<Rightarrow> assn A s' \<and> published s' \<and> quiet e | (Panic, _) \<Rightarrow> False"
    using a by (cases ?e) (auto simp: writeRunManifest_def bnd_def thn_def gets_def io_def modify_def check_err_def
        ret_def raise_def assn_def published_def)
qed

lemma node_fresh_packages [simp]: "node_fresh (ix\<lparr>ix_packages := ps\<rparr>) i st = node_fresh ix i st"
  by (simp add: node_fresh_def)

lemma progress_packages [simp]: "progress (ix\<lparr>ix_packages := ps\<rparr>) ys m = progress ix ys m"
  by (simp add: progress_def cong: if_cong)

lemma at_node_packages:
  "at_node ix ys m r \<Longrightarrow> at_node (ix\<lparr>ix_packages := ps\<rparr>) ys m (r\<lparr>er_index := (er_index r)\<lparr>ix_packages := ps\<rparr>\<rparr>)"
  by (simp add: at_node_def)

lemma visits_triple:
  assumes env: "honest env" and idn: "safe_identity idn" and ok: "exec_ok ix"
  shows "triple (assn (at_node ix [])) (each (\<lambda>_. visit_node env idn) () (ix_nodeOrder ix))
    (\<lambda>_. assn (at_node ix (ix_nodeOrder ix))) closes"
proof (rule triple_each[where I = "\<lambda>ys _. assn (at_node ix ys)"])
  fix acc :: unit and ys x zs
  assume split: "ix_nodeOrder ix = ys @ x # zs"
  moreover have "distinct (ix_nodeOrder ix)" using ok by (simp add: exec_ok_def)
  ultimately have "x \<in> set (ix_nodeOrder ix)" "x \<notin> set ys" by auto
  then show "triple (assn (at_node ix ys)) (visit_node env idn x) (\<lambda>_. assn (at_node ix (ys @ [x]))) closes"
    by (rule visit_triple[OF env idn ok])
qed

lemma resultForEnd_triple:
  assumes env: "honest env" and idn: "safe_identity idn" and run: "\<And>m r. A m r \<Longrightarrow> running_manifest m"
  shows "triple (assn A) (resultForEnd env idn endNode) (\<lambda>_. assn A) closes"
proof -
  obtain key where key: "runResultKey (id_projectKey idn) (id_runID idn) = Some key"
    using runResultKey_total(1)[of "id_runID idn"] idn by (metis not_None_eq)
  have fail: "triple (assn A) (raise (plain_error t)) Q closes" for t Q
    by (rule raise_running) (auto intro: run)
  have put: "triple (assn A) (bnd (io f) (\<lambda>e. thn (check_err e) (ret x))) (\<lambda>_. assn A) closes"
    if "\<And>w e. fst (f w) = Some e \<Longrightarrow> quiet e" for f :: "'b \<Rightarrow> go_error option \<times> 'b" and x
    by (rule checked_io) (auto intro: run that triple_assn_ret)
  have one: "triple (assn A) (bnd (must (Some key)) (\<lambda>key.
              bnd (io (en_put env key (no_body out))) (\<lambda>e. thn (check_err e) (ret (g key))))) (\<lambda>_. assn A) closes" for out and g :: "string \<Rightarrow> DataArtifact"
    by (rule triple_bnd[OF triple_assn_must[OF refl, where B = "\<lambda>_. A"]]) (auto intro: put dest: honestD(1)[OF env])
  have edge: "triple (assn A) (case er_outputs r (edge_from e) of
            None \<Rightarrow> raise (plain_error ''missing output for the end node'')
          | Some out \<Rightarrow>
              bnd (must (runResultKey (id_projectKey idn) (id_runID idn))) (\<lambda>key.
              bnd (io (en_put env key (no_body out))) (\<lambda>e.
              thn (check_err e)
                (ret \<lparr>da_key = key, da_hash = DigestBytes (no_body out), da_contentType = jsonContentType,
                   da_schema = da_schema (no_artifact out)\<rparr>)))) (\<lambda>_. assn A) closes" for e r
    unfolding key by (intro triple_cases_option fail one)
  show ?thesis
    unfolding resultForEnd_def
    by (rule triple_bnd[OF triple_observe]) (auto intro: fail edge split: list.split)
qed

lemma run_plan_triple:
  assumes env: "honest env" and idn: "safe_identity (ad_identity a)" and ok: "exec_ok (ad_index a)"
  shows "triple (assn (at_node (ad_index a) [])) (run_plan env a)
    (\<lambda>art s. assn (\<lambda>m r. finished m \<and> mf_result m = Some art) s \<and> published s) closes"
proof -
  have run: "at_node ix ys m r \<Longrightarrow> running_manifest m" for ix ys m r by (rule at_node_running)
  have last: "triple (assn (at_node ix (ix_nodeOrder ix)))
      (thn (journal (\<lambda>m. m\<lparr>mf_status := StatusSucceeded, mf_result := Some art\<rparr>)) (thn (writeRunManifest env (ad_identity a) False) (ret art)))
      (\<lambda>art s. assn (\<lambda>m r. finished m \<and> mf_result m = Some art) s \<and> published s) closes" if "exec_ok ix" for ix art
  proof (rule then_journal[where B = "\<lambda>m r. finished m \<and> mf_result m = Some art"])
    show "triple (assn (\<lambda>m r. finished m \<and> mf_result m = Some art)) (thn (writeRunManifest env (ad_identity a) False) (ret art))
        (\<lambda>art s. assn (\<lambda>m r. finished m \<and> mf_result m = Some art) s \<and> published s) closes"
      by (rule triple_thn[OF triple_conseq[OF write_published[OF env]] triple_ret])
        (auto simp: finished_checks closes_def closable_def finished_def elim!: assn_mono)
  qed (use that finish_progress in \<open>auto simp: at_node_def\<close>)
  have rest: "triple (assn (at_node (ad_index a) [])) (thn (set_packages ps)
       (bnd (each (\<lambda>_. visit_node env (ad_identity a)) () (ix_nodeOrder (ad_index a))) (\<lambda>_.
        thn (set_active [])
        (bnd (resultForEnd env (ad_identity a) (graph_end (ad_graph a))) (\<lambda>art.
         thn (journal (\<lambda>m. m\<lparr>mf_status := StatusSucceeded, mf_result := Some art\<rparr>))
         (thn (writeRunManifest env (ad_identity a) False) (ret art)))))))
      (\<lambda>art s. assn (\<lambda>m r. finished m \<and> mf_result m = Some art) s \<and> published s) closes" for ps
  proof -
    let ?ix = "(ad_index a)\<lparr>ix_packages := Some ps\<rparr>"
    have ok': "exec_ok ?ix" using ok by simp
    have nodes: "ix_nodeOrder (ad_index a) = ix_nodeOrder ?ix" by simp
    show ?thesis
      unfolding set_packages_def nodes
      by (intro triple_thn[OF triple_set_resolver[where B = "at_node ?ix []"]] triple_bnd[OF visits_triple[OF env idn ok']]
          triple_thn[OF triple_set_active] triple_bnd[OF resultForEnd_triple[OF env idn run]] last[OF ok'])
        (auto intro: at_node_packages)
  qed
  show ?thesis
    unfolding run_plan_def by (intro triple_bnd[OF materialize_triple[OF env run]] rest)
qed

section \<open>The triple of settlement\<close>

definition all_ok :: "Manifest \<Rightarrow> bool" where
  "all_ok m = (\<forall>st \<in> set (mf_steps m). node_done st)"

definition agrees :: "RunResult \<Rightarrow> Manifest \<Rightarrow> bool" where
  "agrees res m =
     (rr_status res = mf_status m \<and> rr_steps res = summariesFromManifest m \<and> rr_failure res = mf_failure m
      \<and> rr_resultKey res = (case mf_result m of Some art \<Rightarrow> da_key art | None \<Rightarrow> [])
      \<and> (mf_status m = StatusSucceeded) = (mf_result m \<noteq> None))"

definition reported :: "run_return \<Rightarrow> Manifest \<Rightarrow> bool" where
  "reported r m =
     (case r of
        Refused e \<Rightarrow> False
      | Completed res \<Rightarrow> agrees res m \<and> rr_status res = StatusSucceeded \<and> all_ok m
      | Failed res e \<Rightarrow> agrees res m \<and> (rr_status res = StatusFailed \<or> rr_status res = StatusCancelled))"

text \<open>The assertion after settlement: the last published journal is readable and is what the caller is told.\<close>

definition settled :: "run_return \<Rightarrow> 'w run_state \<Rightarrow> bool" where
  "settled r s = (assn (\<lambda>m _. check_manifest m = None \<and> mf_exitHook m = None \<and> reported r m) s \<and> published s)"

lemma settled_status_cases: "settled_status ended cause e = StatusFailed \<or> settled_status ended cause e = StatusCancelled"
  by (simp add: settled_status_def)

lemma settle_failure_triple:
  assumes env: "honest env" and res: "rr_resultKey result = []"
  shows "triple (closes e) (settle_failure env idn result e) settled (\<lambda>_ _. False)"
proof -
  have main: "triple (closes e)
      (thn (journal (\<lambda>m. m\<lparr>mf_failure := (case err_fatal e of Some f \<Rightarrow> Some f | None \<Rightarrow> mf_failure m)\<rparr>))
       (thn (journal (Terminate status diagnostic))
       (bnd (gets rn_manifest) (\<lambda>m.
        bnd (attempt (writeRunManifest env idn True)) (\<lambda>w.
        ret (Failed (result\<lparr>rr_status := status, rr_failure := err_fatal e, rr_steps := summariesFromManifest m\<rparr>) (g w)))))))
      settled (\<lambda>_ _. False)" if st: "status = StatusFailed \<or> status = StatusCancelled" for status diagnostic g
    unfolding closes_def
  proof (rule then_journal[where B = "\<lambda>m r. journal_inv m \<and> failure_named m \<and> mf_exitHook m = None \<and> mf_failure m = err_fatal e"])
    let ?T = "\<lambda>m (r :: executionResolver). check_manifest m = None \<and> mf_exitHook m = None \<and> mf_failure m = err_fatal e \<and> mf_status m = status \<and> mf_result m = None"
    show "triple (assn (\<lambda>m r. journal_inv m \<and> failure_named m \<and> mf_exitHook m = None \<and> mf_failure m = err_fatal e))
       (thn (journal (Terminate status diagnostic)) (bnd (gets rn_manifest) (\<lambda>m.
        bnd (attempt (writeRunManifest env idn True)) (\<lambda>w.
        ret (Failed (result\<lparr>rr_status := status, rr_failure := err_fatal e, rr_steps := summariesFromManifest m\<rparr>) (g w))))))
      settled (\<lambda>_ _. False)"
    proof (rule then_journal[where B = ?T])
      have written: "triple (assn (\<lambda>m r. ?T m r \<and> m = m0)) (attempt (writeRunManifest env idn True))
          (\<lambda>_ s. assn (\<lambda>m r. ?T m r \<and> m = m0) s \<and> published s) (\<lambda>_ _. False)" for m0
        by (rule triple_attempt, rule triple_conseq[OF write_published[OF env]]) auto
      have "triple (assn (\<lambda>m r. ?T m r \<and> m = m0)) (bnd (attempt (writeRunManifest env idn True)) (\<lambda>w.
          ret (Failed (result\<lparr>rr_status := status, rr_failure := err_fatal e, rr_steps := summariesFromManifest m0\<rparr>) (g w))))
        settled (\<lambda>_ _. False)" for m0
        by (rule triple_bnd[OF written], rule triple_pre[OF triple_ret])
          (use st res in \<open>auto simp: settled_def reported_def agrees_def elim!: assn_mono\<close>)
      then show "triple (assn ?T) (bnd (gets rn_manifest) (\<lambda>m.
        bnd (attempt (writeRunManifest env idn True)) (\<lambda>w.
        ret (Failed (result\<lparr>rr_status := status, rr_failure := err_fatal e, rr_steps := summariesFromManifest m\<rparr>) (g w)))))
      settled (\<lambda>_ _. False)"
        by (auto simp: triple_def bnd_def[of "gets _"] gets_def assn_def)
    qed (use st in \<open>auto simp: hook_ok_def intro!: Terminate_checks\<close>)
  qed (auto simp: closable_def failure_named_def journal_inv_def split: option.splits)
  show ?thesis
    unfolding settle_failure_def ctx_Err_def Let_def closes_def
    by (intro then_io triple_bnd[OF triple_observe])
      (auto intro!: main[unfolded closes_def, OF settled_status_cases])
qed

lemma first_result_key [simp]: "rr_resultKey (first_result idn m) = []"
  by (simp add: first_result_def)

lemma triple_after_attempt:
  assumes "triple P m R E" "\<And>x. triple (R x) (k (Inr x)) Q E'" "\<And>e. triple (E e) (k (Inl e)) Q E'"
  shows "triple P (bnd (attempt m) k) Q E'"
proof (rule triple_bnd)
  show "triple P (attempt m) (\<lambda>r s. case r of Inl e \<Rightarrow> E e s | Inr x \<Rightarrow> R x s) E'"
    by (rule triple_attempt) (use assms(1) in simp)
  show "triple (\<lambda>s. case r of Inl e \<Rightarrow> E e s | Inr x \<Rightarrow> R x s) (k r) Q E'" for r
    using assms(2,3) by (cases r) auto
qed

lemma settle_triple_run:
  assumes env: "honest env" and idn: "safe_identity (ad_identity a)" and ok: "exec_ok (ad_index a)"
  shows "triple (assn (at_node (ad_index a) [])) (settle env a) settled (\<lambda>_ _. False)"
proof -
  have complete: "triple (\<lambda>s. assn (\<lambda>m r. finished m \<and> mf_result m = Some art) s \<and> published s)
      (bnd (gets rn_manifest) (\<lambda>m. ret (Completed (first_result (ad_identity a) m0
         \<lparr>rr_status := StatusSucceeded, rr_resultKey := da_key art, rr_steps := summariesFromManifest m\<rparr>))))
      settled (\<lambda>_ _. False)" for art m0
    by (auto simp: triple_def bnd_def gets_def ret_def settled_def assn_def reported_def agrees_def all_ok_def
        finished_checks first_result_def) (auto simp: finished_def)
  have "triple (assn (at_node (ad_index a) [])) (bnd (attempt (run_plan env a)) (\<lambda>r.
     case r of
       Inl e \<Rightarrow> settle_failure env (ad_identity a) (first_result (ad_identity a) m0) e
     | Inr art \<Rightarrow>
         bnd (gets rn_manifest) (\<lambda>m.
         ret (Completed (first_result (ad_identity a) m0\<lparr>rr_status := StatusSucceeded, rr_resultKey := da_key art, rr_steps := summariesFromManifest m\<rparr>)))))
     settled (\<lambda>_ _. False)" for m0
    by (rule triple_after_attempt[OF run_plan_triple[OF assms]])
      (auto intro!: complete settle_failure_triple[OF env])
  then show ?thesis
    unfolding settle_def by (auto simp: triple_def bnd_def[of "gets _"] gets_def)
qed

section \<open>The exit hook leaves the journal alone\<close>

definition still :: "Manifest \<Rightarrow> Manifest list \<Rightarrow> 'w run_state \<Rightarrow> bool" where
  "still m l s = (rn_manifest s = m \<and> rn_log s = l)"

definition silent :: "('w run_state, 'a) exec \<Rightarrow> bool" where
  "silent c = (\<forall>m l. triple (still m l) c (\<lambda>_. still m l) (\<lambda>_. still m l))"

named_theorems silent_intros \<open>computations that leave the journal alone\<close>

lemma silent_basic [silent_intros]:
  "silent (ret x)" "silent (raise e)" "silent (gets f)" "silent (io g)" "silent (check_err err)" "silent (of_result h res)"
  "silent (set_resolver u)"
  by (auto simp: silent_def triple_def still_def ret_def raise_def gets_def io_def check_err_def of_result_def set_resolver_def
      modify_def split: option.splits sum.splits)

lemma silent_bnd [silent_intros]: "silent c \<Longrightarrow> (\<And>x. silent (k x)) \<Longrightarrow> silent (bnd c k)"
  unfolding silent_def by (blast intro: triple_bnd)

lemma silent_thn [silent_intros]: "silent c \<Longrightarrow> silent k \<Longrightarrow> silent (thn c k)"
  unfolding thn_def by (intro silent_bnd)

lemma silent_each [silent_intros]: "(\<And>acc x. silent (f acc x)) \<Longrightarrow> silent (each f acc xs)"
  by (induction f acc xs rule: each.induct) (auto intro: silent_intros)

lemma silent_cases [silent_intros]:
  "silent c \<Longrightarrow> silent c' \<Longrightarrow> silent (if b then c else c')"
  by simp

lemma silent_materialize: "silent (materializePrerequisites env p)"
  unfolding materializePrerequisites_def put_schema_def by (intro silent_intros)

lemma silent_hook_packages: "silent (hook_packages env p)"
  unfolding hook_packages_def set_packages_def by (intro silent_intros silent_materialize)

lemma silent_settle: "silent (settleInvocation env d ix)"
  unfolding settleInvocation_def resolveOutputArtifact_def Let_def by (intro silent_intros)

lemma silent_descriptor: "r \<noteq> Inl DescriptorPanic \<Longrightarrow> silent (descriptor_exec r)"
  by (auto simp: descriptor_exec_def intro: silent_intros split: sum.splits descriptor_error.splits)

lemma silent_attempt:
  assumes "silent c" "\<And>x. triple (still m l) (k x) Q E"
  shows "triple (still m l) (bnd (attempt c) k) Q E"
  by (rule triple_after_attempt[where R = "\<lambda>_. still m l" and E = "\<lambda>_. still m l"]) (use assms in \<open>auto simp: silent_def\<close>)

lemma still_io: "(\<And>x. triple (still m l) (k x) Q E) \<Longrightarrow> triple (still m l) (bnd (io f) k) Q E"
  by (rule triple_bnd[where R = "\<lambda>_. still m l"]) (auto simp: triple_def io_def still_def)

lemma still_gets: "(\<And>x. triple (still m l) (k x) Q E) \<Longrightarrow> triple (still m l) (bnd (gets f) k) Q E"
  by (rule triple_bnd[OF triple_observe])

definition hook_recorded :: "GraphNode \<Rightarrow> Step \<Rightarrow> bool" where
  "hook_recorded hook st =
     (st_node st = node_id hook \<and> attempts_ok (st_attempts st) (st_status st)
      \<and> (st_status st = StatusSucceeded \<or> st_status st = StatusFailed))"

lemma record_hook_triple:
  "triple (still m l) (record_hook env hook input timeout out d) (\<lambda>st s. still m l s \<and> hook_recorded hook st) (\<lambda>_ _. False)"
  unfolding record_hook_def
  by (rule still_io)
    (auto simp: triple_def ret_def hook_recorded_def hook_step_def Let_def validateAttempts_def)

lemma runExitHook_triple:
  assumes idn: "safe_identity (ad_identity a)" and hook: "ValidSafePathSegment (node_id hook)"
  shows "triple (still m l) (runExitHook env a hook outcome) (\<lambda>st s. still m l s \<and> hook_recorded hook st) (\<lambda>_ _. False)"
proof -
  let ?idn = "ad_identity a"
  obtain key where key: "runInputKey (id_projectKey ?idn) (id_runID ?idn) (node_id hook) None = Some key"
    using runInputKey_text[OF _ hook, of "id_runID ?idn" None] idn by (auto simp: item_scope_def)
  have panic: "descriptorForStep (id_planHash ?idn) (id_projectKey ?idn) (id_runID ?idn) hook input ix 1 \<noteq> Inl DescriptorPanic" for input ix
    using descriptorForStep_no_panic[OF _ hook] idn by metis
  have must: "triple (still m l) (must (Some key)) (\<lambda>_. still m l) (\<lambda>_ _. False)"
    by (simp add: triple_def must_def)
  show ?thesis
    unfolding runExitHook_def Let_def key
    by (rule triple_bnd[OF must])
      (auto intro!: record_hook_triple silent_attempt[OF silent_hook_packages] silent_attempt[OF silent_settle]
          silent_attempt[OF silent_descriptor[OF panic]] still_io still_gets split: sum.splits)
qed

lemma check_with_hook:
  "check_manifest m = None \<Longrightarrow> attempts_ok (st_attempts st) (st_status st) \<Longrightarrow> check_manifest (m\<lparr>mf_exitHook := Some st\<rparr>) = None"
  by (auto simp: check_manifest_def split: if_splits option.splits)

lemma reported_with_hook: "reported r m \<Longrightarrow> reported (with_hook sm d r) (m\<lparr>mf_exitHook := Some st\<rparr>)"
  by (auto simp: reported_def with_hook_def agrees_def all_ok_def summariesFromManifest_def split: run_return.splits)

definition told :: "run_return \<Rightarrow> 'w run_state \<Rightarrow> bool" where
  "told r s = (assn (\<lambda>m _. check_manifest m = None \<and> reported r m) s \<and> published s)"

lemma exit_hook_triple:
  fixes env :: "'w environment"
  assumes env: "honest env" and idn: "safe_identity (ad_identity a)"
    and hook: "\<And>h. graph_exitHook (ad_graph a) = Some h \<Longrightarrow> ValidSafePathSegment (node_id h)"
  shows "triple (settled r) (exit_hook env a startedAt r) told (\<lambda>_ _. False)"
proof (cases "graph_exitHook (ad_graph a)")
  case None
  then show ?thesis by (auto simp: exit_hook_def triple_def ret_def settled_def told_def elim!: assn_mono)
next
  case (Some h)
  let ?k = "\<lambda>st. thn (journal (\<lambda>m. m\<lparr>mf_exitHook := Some st\<rparr>))
          (bnd (attempt (writeRunManifest env (ad_identity a) True)) (\<lambda>w.
           ret (with_hook (hook_summary st)
             (case w of Inl x \<Rightarrow> ''exit hook record could not be published: '' @ err_text x | Inr _ \<Rightarrow> []) r)))"
  have rest: "triple (assn (\<lambda>m _. check_manifest m = None \<and> reported r m)) (?k st) told (\<lambda>_ _. False)"
    if st: "hook_recorded h st" for st
  proof (rule then_journal[where B = "\<lambda>m _. check_manifest m = None \<and> (\<forall>sm d. reported (with_hook sm d r) m)"])
    have "triple (assn (\<lambda>m _. check_manifest m = None \<and> (\<forall>sm d. reported (with_hook sm d r) m)))
        (attempt (writeRunManifest env (ad_identity a) True))
        (\<lambda>_ s. assn (\<lambda>m _. check_manifest m = None \<and> (\<forall>sm d. reported (with_hook sm d r) m)) s \<and> published s) (\<lambda>_ _. False)"
      by (rule triple_attempt, rule triple_conseq[OF write_published[OF env]]) auto
    then show "triple (assn (\<lambda>m _. check_manifest m = None \<and> (\<forall>sm d. reported (with_hook sm d r) m)))
        (bnd (attempt (writeRunManifest env (ad_identity a) True)) (\<lambda>w. ret (with_hook (hook_summary st)
             (case w of Inl x \<Rightarrow> ''exit hook record could not be published: '' @ err_text x | Inr _ \<Rightarrow> []) r))) told (\<lambda>_ _. False)"
      by (rule triple_bnd) (auto simp: triple_def ret_def told_def elim!: assn_mono)
  qed (use st in \<open>auto simp: hook_recorded_def intro: check_with_hook reported_with_hook\<close>)
  have hooked: "triple (still m l) (bnd (runExitHook env a h outcome) ?k) told (\<lambda>_ _. False)"
    if pre: "\<And>s :: 'w run_state. still m l s \<Longrightarrow> assn (\<lambda>m _. check_manifest m = None \<and> reported r m) s" for m l outcome
  proof (rule triple_bnd[OF runExitHook_triple[OF idn hook[OF Some]]])
    fix st
    show "triple (\<lambda>s. still m l s \<and> hook_recorded h st) (?k st) told (\<lambda>_ _. False)"
      by (rule triple_fact[where C = "hook_recorded h st"], simp, erule triple_pre[OF rest]) (use pre in simp)
  qed
  have all: "triple (still m l) (exit_hook env a startedAt r) told (\<lambda>_ _. False)"
    if pre: "\<And>s :: 'w run_state. still m l s \<Longrightarrow> assn (\<lambda>m _. check_manifest m = None \<and> reported r m) s" for m l
    unfolding exit_hook_def Some option.case by (intro still_io still_gets hooked pre)
  show ?thesis
  proof (rule tripleI)
    fix s :: "'w run_state" assume "settled r s"
    then have "\<And>s' :: 'w run_state. still (rn_manifest s) (rn_log s) s' \<Longrightarrow> assn (\<lambda>m _. check_manifest m = None \<and> reported r m) s'"
      by (simp add: settled_def still_def assn_def)
    from all[OF this] show "case exit_hook env a startedAt r s of (Ok x, s') \<Rightarrow> told x s' | (Fail e, s') \<Rightarrow> False | (Panic, _) \<Rightarrow> False"
      by (simp add: triple_def still_def)
  qed
qed

section \<open>The whole run\<close>

text \<open>The published schema of an exit hook node restricts its id to \<^verbatim>\<open>safePathSegment\<close>.\<close>

definition hook_safe :: "schema_checks \<Rightarrow> bool" where
  "hook_safe chk = (\<forall>h. chk_hook chk h \<longrightarrow> ValidSafePathSegment (node_id h))"

definition admissible :: "admitted \<Rightarrow> bool" where
  "admissible a =
     (exec_ok (ad_index a) \<and> safe_identity (ad_identity a)
      \<and> (\<forall>h. graph_exitHook (ad_graph a) = Some h \<longrightarrow> ValidSafePathSegment (node_id h)))"

lemma triple_required: "(b \<Longrightarrow> triple P k Q (\<lambda>_ _. True)) \<Longrightarrow> triple P (thn (required b t) k) Q (\<lambda>_ _. True)"
  by (cases b) (auto simp: required_def thn_def triple_def bnd_def ret_def raise_def)

lemma triple_world: "(\<And>x. triple (\<lambda>_. True) (k x) Q E) \<Longrightarrow> triple (\<lambda>_. True) (bnd (world f) k) Q E"
  by (rule triple_bnd[where R = "\<lambda>_ _. True"]) (auto simp: triple_def world_def)

lemma triple_result: "(\<And>x. r = Inr x \<Longrightarrow> triple P (k x) Q (\<lambda>_ _. True)) \<Longrightarrow> triple P (bnd (of_result h r) k) Q (\<lambda>_ _. True)"
  by (cases r) (auto simp: of_result_def triple_def bnd_def ret_def raise_def)

lemma triple_must_then: "\<exists>y. x = Some y \<Longrightarrow> (\<And>y. x = Some y \<Longrightarrow> triple P (k y) Q E) \<Longrightarrow> triple P (bnd (must x) k) Q E"
proof -
  assume "\<exists>y. x = Some y" and k: "\<And>y. x = Some y \<Longrightarrow> triple P (k y) Q E"
  then obtain y where y: "x = Some y" by blast
  have "bnd (must (Some y)) k = k y" by (simp add: fun_eq_iff bnd_def must_def)
  then show ?thesis using k y by simp
qed

lemma index_exec_ok:
  assumes "buildExecutionIndex f ro chk p = Inr ix" "validatePlanIdentitySegments p = None"
  shows "exec_ok ix"
proof -
  obtain g where "wp_graph p = Some g" "index_ok g ix" using buildExecutionIndex_ok[OF assms(1)] by blast
  then show ?thesis
    using identity_segments_ok[OF assms(2)] by (fastforce simp: index_ok_def exec_ok_def)
qed

lemma hook_checked:
  assumes "buildExecutionIndex f ro chk p = Inr ix" "wp_graph p = Some g" "graph_exitHook g = Some h"
  shows "chk_hook chk h"
proof -
  have "ValidateExecution f ro chk p = None"
    using assms(1) by (auto simp: buildExecutionIndex_def split: option.splits)
  then show ?thesis using assms(2,3) by (auto simp: ValidateExecution_def split: if_splits)
qed

lemma admit_triple:
  assumes "hook_safe chk"
  shows "triple (\<lambda>_. True) (admit env ro chk config input) (\<lambda>a _. admissible a) (\<lambda>_ _. True)"
proof (cases "rc_plan config")
  case None
  then show ?thesis by (simp add: admit_def triple_def raise_def)
next
  case (Some p)
  have uuid: "triple (\<lambda>_. True) (if b then world f else ret x) (\<lambda>_ _. True) (\<lambda>_ _. True)" for b f x
    by (simp add: triple_def world_def ret_def)
  have check: "triple (\<lambda>_. True) (check_err e) (\<lambda>_ _. True) (\<lambda>_ _. True)" for e
    by (simp add: triple_def check_err_def ret_def raise_def split: option.split)
  have graph: "\<exists>g. wp_graph p = Some g" if "buildExecutionIndex (en_number env) ro chk p = Inr ix" for ix
    using buildExecutionIndex_ok[OF that] by blast
  show ?thesis
    unfolding admit_def Some option.case
    by (intro triple_required triple_bnd[OF uuid] triple_world triple_thn[OF check] triple_result triple_must_then graph)
      (use runResultKey_total(2) assms index_exec_ok hook_checked in
        \<open>auto simp: triple_def ret_def admissible_def hook_safe_def\<close>)
qed

lemma execute_triple:
  assumes env: "honest env" and a: "admissible a"
  shows "triple (\<lambda>s. s = start_state a environment w) (execute env a startedAt)
    (\<lambda>r s. case r of Refused e \<Rightarrow> rn_log s = [] | _ \<Rightarrow> told r s) (\<lambda>_ _. False)"
proof -
  have ok: "exec_ok (ad_index a)" "safe_identity (ad_identity a)"
    and hook: "\<And>h. graph_exitHook (ad_graph a) = Some h \<Longrightarrow> ValidSafePathSegment (node_id h)"
    using a by (auto simp: admissible_def)
  have claim: "triple (\<lambda>s. s = start_state a environment w) (claim env (ad_identity a))
      (\<lambda>_. assn (at_node (ad_index a) [])) (\<lambda>_ s. rn_log s = [])"
    using running_checks[OF progress_running[OF first_progress[OF ok(1)]]] first_progress[OF ok(1)]
    by (auto simp: triple_def claim_def bnd_def gets_def io_def raise_def modify_def start_state_def assn_def at_node_def
        newExecutionResolver_def split: option.splits)
  have run: "triple (assn (at_node (ad_index a) [])) (bnd (settle env a) (exit_hook env a startedAt))
      (\<lambda>r s. told r s) (\<lambda>_ _. False)"
    by (rule triple_bnd[OF settle_triple_run[OF env ok(2,1)] exit_hook_triple[OF env ok(2) hook]])
  show ?thesis
    unfolding execute_def
  proof (rule triple_after_attempt[OF claim])
    show "triple (\<lambda>s. rn_log s = []) (case Inl e of Inl e \<Rightarrow> ret (Refused e) | Inr _ \<Rightarrow> bnd (settle env a) (exit_hook env a startedAt))
        (\<lambda>r s. case r of Refused e \<Rightarrow> rn_log s = [] | _ \<Rightarrow> told r s) (\<lambda>_ _. False)" for e
      by (simp add: triple_def ret_def)
    show "triple (assn (at_node (ad_index a) [])) (case Inr x of Inl e \<Rightarrow> ret (Refused e) | Inr _ \<Rightarrow> bnd (settle env a) (exit_hook env a startedAt))
        (\<lambda>r s. case r of Refused e \<Rightarrow> rn_log s = [] | _ \<Rightarrow> told r s) (\<lambda>_ _. False)" for x
      by (simp, rule triple_conseq[OF run]) (auto simp: told_def assn_def reported_def split: run_return.splits)
  qed
qed

lemma checked_finished:
  assumes "check_manifest m = None" "mf_status m \<noteq> StatusRunning" "st \<in> set (mf_steps m)"
  shows "st_status st \<noteq> StatusPending \<and> st_status st \<noteq> StatusRunning"
proof -
  have "check_steps (mf_status m) (mf_steps m) = None"
    using assms(1) by (auto simp: check_manifest_def split: if_splits option.splits)
  moreover have "check_steps s ss = None \<Longrightarrow> st \<in> set ss \<Longrightarrow> check_step s st = None" for s ss
    by (induction ss) (auto split: option.splits)
  ultimately have "check_step (mf_status m) st = None" using assms(3) by blast
  then show ?thesis using assms(2) by (auto simp: check_step_def split: if_splits)
qed

lemma Run_result:
  assumes "honest env" "hook_safe chk"
  obtains (refused) e where "Run env ro chk config input w = (Ok (Refused e), [])"
    | (told) r log where "Run env ro chk config input w = (Ok r, log)" "log \<noteq> []" "\<forall>m \<in> set log. check_manifest m = None"
        "reported r (last log)"
proof (rule triple_run[OF admit_triple[OF assms(2), of env ro config input], where s = "snd (en_now env w)"])
  fix a w' assume a: "admit env ro chk config input (snd (en_now env w)) = (Ok a, w')" "admissible a"
  show ?thesis
  proof (rule triple_run[OF execute_triple[OF assms(1) a(2), of "rc_environment config" w' "fst (en_now env w)"] refl])
    fix r s
    assume e: "execute env a (fst (en_now env w)) (start_state a (rc_environment config) w') = (Ok r, s)"
      and r: "case r of Refused e \<Rightarrow> rn_log s = [] | _ \<Rightarrow> told r s"
    have run: "Run env ro chk config input w = (Ok r, rn_log s)" using a(1) e by (simp add: Run_def)
    show ?thesis
    proof (cases r)
      case (Refused e)
      then show ?thesis using refused run r by simp
    qed (use told[OF run] r in \<open>auto simp: told_def published_def assn_def\<close>)
  qed simp
qed (use refused in \<open>simp_all add: Run_def\<close>)

section \<open>An example\<close>

text \<open>An environment in which everything succeeds, and a plan of one step.\<close>

definition calm_outcome :: "StepInvocationDescriptor \<Rightarrow> StepInvocationOutcome" where
  "calm_outcome d = \<lparr>so_nodeID = ds_nodeID d, so_attempt = ds_attempt d, so_scope = ds_scope d, so_status = StatusSucceeded,
     so_exitCode = 0, so_diagnostic = [], so_fatal = None, so_runnerMessage = [], so_timedOutAfter = 0\<rparr>"

definition calm_package :: sourcePackageArtifact where
  "calm_package = \<lparr>pa_packageID = ''p'', pa_language = ''go'', pa_packageHash = [], pa_key = [], pa_archiveHash = [], pa_contentType = []\<rparr>"

definition calm :: "unit environment" where
  "calm = \<lparr>en_open = (\<lambda>_ w. (None, w)), en_uuid = (\<lambda>w. (''r'', w)), en_now = (\<lambda>w. (''t'', w)), en_ctx = (\<lambda>w. (False, w)),
     en_cause = (\<lambda>_. None), en_put = (\<lambda>_ _ w. (None, w)), en_create = (\<lambda>_ _ w. (None, w)), en_write = (\<lambda>_ _ _ w. (None, w)),
     en_invoke = (\<lambda>ds _ _ w. ((map calm_outcome ds, None), w)), en_after = (\<lambda>_ _ w. (None, w)),
     en_resolve = (\<lambda>_ _ _ w. (Inr (zero_published, ''null''), w)), en_publish = (\<lambda>_ _ _ w. (None, w)),
     en_wait = (\<lambda>_ w. (None, w)), en_materialize = (\<lambda>w. (Inr (\<lambda>_. Some calm_package), w)),
     en_hookContext = (\<lambda>w. (HookLive, w)), en_validates = (\<lambda>_ _. True), en_number = print_integer, en_text = (\<lambda>_. ''e'')\<rparr>"

definition one_node :: GraphNode where
  "one_node = zero_node\<lparr>node_id := ''a'', node_kind := NodeKindStep, node_inputSchema := DigestBytes ''{}'', node_outputSchema := DigestBytes ''{}'',
     node_symbolRef := ''f'', node_contractRef := ''c''\<rparr>"

definition one_plan :: WorkflowPlan where
  "one_plan = \<lparr>wp_planHash = [], wp_graph = Some \<lparr>graph_irVersion = [], graph_start = ''s'', graph_end = ''e'',
       graph_nodes = [zero_node\<lparr>node_id := ''s'', node_kind := NodeKindStart\<rparr>, one_node, zero_node\<lparr>node_id := ''e'', node_kind := NodeKindEnd\<rparr>],
       graph_edges = [\<lparr>edge_from = ''s'', edge_to = ''a'', edge_case = []\<rparr>, \<lparr>edge_from = ''a'', edge_to = ''e'', edge_case = []\<rparr>],
       graph_exitHook = None, pg_inputSchema = DigestBytes ''{}'', pg_deadlineSeconds = None\<rparr>,
     wp_schemas = [\<lparr>sch_hash = DigestBytes ''{}'', sch_json = ''{}''\<rparr>], wp_symbols = [\<lparr>se_symbolRef = ''f'', se_packageId = ''p'', se_language = ''go'', se_module = [], se_export = []\<rparr>],
     wp_contracts = [\<lparr>ec_contractRef = ''c'', ec_environmentRef = [], ec_retry = None, ec_timeoutSeconds = 0\<rparr>],
     wp_sourcePackages = [], wp_environments = []\<rparr>"

definition one_config :: RunConfig where
  "one_config = \<lparr>rc_plan = Some one_plan, rc_datastoreRoot = ''d'', rc_projectID = ''p'', rc_sourcePackageRoot = ''s'',
     rc_runID = ''r'', rc_environment = None\<rparr>"

definition pass_graph :: PlanGraph where
  "pass_graph = \<lparr>graph_irVersion = [], graph_start = ''s'', graph_end = ''e'',
       graph_nodes = [zero_node\<lparr>node_id := ''s'', node_kind := NodeKindStart\<rparr>, zero_node\<lparr>node_id := ''e'', node_kind := NodeKindEnd\<rparr>],
       graph_edges = [\<lparr>edge_from = ''s'', edge_to = ''e'', edge_case = []\<rparr>],
       graph_exitHook = None, pg_inputSchema = DigestBytes ''{}'', pg_deadlineSeconds = None\<rparr>"

definition pass_plan :: WorkflowPlan where
  "pass_plan = one_plan\<lparr>wp_graph := Some pass_graph\<rparr>"

definition no_checks :: schema_checks where
  "no_checks = \<lparr>chk_deadline = (\<lambda>_. False), chk_hook = (\<lambda>_. False), chk_timeout = (\<lambda>_. False)\<rparr>"

lemma calm_honest: "honest calm"
  by (auto simp: honest_def calm_def calm_outcome_def)

lemma no_checks_safe: "hook_safe no_checks"
  by (simp add: hook_safe_def no_checks_def)

text \<open>A plan without steps completes: its result is its input.\<close>

lemma pass_reads:
  "CanonicalizeJSON print_integer ''null'' = Inr ''null''" "ValidSafePathSegment ''r''" "ValidSafePathSegment ''s''" "ValidSafePathSegment ''e''"
  by (simp add: CanonicalizeJSON_def decodeJSON_def read_eval)
    (simp_all add: ValidSafePathSegment_def segment_char_def is_letter_def ParseKey_def has_prefix_def
      isWindowsAbs_def bad_segment_def path_Clean_def Let_def)

lemma pass_order: "topologicalPlanOrder [zero_node\<lparr>node_id := ''s'', node_kind := NodeKindStart\<rparr>, zero_node\<lparr>node_id := ''e'', node_kind := NodeKindEnd\<rparr>]
   [\<lparr>edge_from = ''s'', edge_to = ''e'', edge_case = []\<rparr>] = Inr [''s'', ''e'']"
  by code_simp

lemma pass_keys: "\<exists>k. runManifestKey (NormalizeProjectKey ''p'') ''r'' = Some k" "\<exists>k. runResultKey (NormalizeProjectKey ''p'') ''r'' = Some k"
  using runResultKey_total[OF pass_reads(2), of "''p''"] by auto

lemma blob_of_digest: "\<exists>k. blobKeyForHash (DigestBytes b) = Inr k"
  using blob_key[OF digest_parts(3), of b] digest_parts[of b] Sum256_hex_form(1)[of b]
  by (auto simp: blobKeyForHash_def digestHex_def BlobKeySHA256Hex_def bindE_simps simp del: append_Cons)

lemma pass_plan_simps:
  "wp_graph pass_plan = Some pass_graph" "wp_sourcePackages pass_plan = []" "wp_planHash pass_plan = []"
  "wp_schemas pass_plan = [\<lparr>sch_hash = DigestBytes ''{}'', sch_json = ''{}''\<rparr>]" "graph_start pass_graph = ''s''"
  "graph_end pass_graph = ''e''" "graph_exitHook pass_graph = None"
  by (simp_all add: pass_plan_def pass_graph_def one_plan_def)

lemma pass_valid: "validatePlanIdentitySegments pass_plan = None"
  by (simp add: validatePlanIdentitySegments_def pass_plan_def pass_graph_def identity_segments_def pass_reads zero_node_def)

lemma pass_index:
  "\<exists>ix. buildExecutionIndex print_integer [] no_checks pass_plan = Inr ix \<and> ix_nodeOrder ix = [] \<and> ix_stepOrder ix = []
     \<and> ix_inbound ix ''e'' = [\<lparr>edge_from = ''s'', edge_to = ''e'', edge_case = []\<rparr>]"
  using pass_order
  by (simp add: buildExecutionIndex_def ValidateExecution_def pass_plan_def pass_graph_def)
    (simp add: table_def zero_node_def kind_of_def node_kinds inbound_def)

lemmas exec_eval = bnd_def ret_def raise_def thn_def must_def gets_def modify_def io_def of_result_def attempt_def
  check_err_def required_def world_def

lemma pass_run: "\<exists>res log. Run calm [] no_checks (one_config\<lparr>rc_plan := Some pass_plan\<rparr>) ''null'' () = (Ok (Completed res), log)"
proof -
  obtain ix where ix: "buildExecutionIndex print_integer [] no_checks pass_plan = Inr ix" "ix_nodeOrder ix = []" "ix_stepOrder ix = []"
      "ix_inbound ix ''e'' = [\<lparr>edge_from = ''s'', edge_to = ''e'', edge_case = []\<rparr>]"
    using pass_index by blast
  obtain k rk where k: "runManifestKey (NormalizeProjectKey ''p'') ''r'' = Some k" "runResultKey (NormalizeProjectKey ''p'') ''r'' = Some rk"
    using pass_keys by blast
  obtain bk where bk: "blobKeyForHash (DigestBytes ''{}'') = Inr bk" using blob_of_digest by blast
  let ?a = "\<lparr>ad_identity = \<lparr>id_planHash = [], id_projectKey = NormalizeProjectKey ''p'', id_runID = ''r'', id_manifestKey = k\<rparr>,
    ad_plan = pass_plan, ad_graph = pass_graph, ad_index = ix, ad_input = ''null''\<rparr>"
  have calm: "en_number calm = print_integer" "en_open calm d w = (None, w)" "en_now calm w = (''t'', w)" "en_put calm x b w = (None, w)"
      "en_create calm x m w = (None, w)" "en_write calm t x m w = (None, w)" "en_materialize calm w = (Inr (\<lambda>_. Some calm_package), w)" for d w x b m t
    by (simp_all add: calm_def)
  have admit: "admit calm [] no_checks (one_config\<lparr>rc_plan := Some pass_plan\<rparr>) ''null'' () = (Ok ?a, ())"
    using pass_valid ix(1) pass_reads(1,2) k(1)
    by (simp add: admit_def one_config_def exec_eval calm pass_plan_simps)
  have plan: "\<exists>art s'. run_plan calm ?a s = (Ok art, s')" if s: "rn_resolver s = newExecutionResolver ix pass_graph ''null''" for s
    by (simp add: run_plan_def materializePrerequisites_def put_schema_def pass_plan_simps exec_eval verifyDigest_def bk calm ix
        set_packages_def set_resolver_def set_active_def resultForEnd_def s newExecutionResolver_def k journal_def writeRunManifest_def)
  have settle: "\<exists>res s'. settle calm ?a s = (Ok (Completed res), s')" if "rn_resolver s = newExecutionResolver ix pass_graph ''null''" for s
    using plan[OF that] by (auto simp: settle_def bnd_def gets_def attempt_def ret_def)
  let ?s = "start_state ?a None () :: unit run_state"
  have "\<exists>res s'. settle calm ?a (?s\<lparr>rn_log := [rn_manifest ?s]\<rparr>) = (Ok (Completed res), s')"
    by (rule settle) (simp add: start_state_def)
  then obtain res s' where "settle calm ?a (?s\<lparr>rn_log := [rn_manifest ?s]\<rparr>) = (Ok (Completed res), s')" by blast
  moreover have "claim calm (ad_identity ?a) ?s = (Ok (), ?s\<lparr>rn_log := [rn_manifest ?s]\<rparr>)"
    by (simp add: claim_def exec_eval calm start_state_def)
  ultimately have "execute calm ?a ''t'' ?s = (Ok (Completed res), s')"
    by (simp add: execute_def bnd_def attempt_def exit_hook_def pass_plan_simps ret_def)
  then show ?thesis using admit by (simp add: Run_def calm one_config_def)
qed

section \<open>Properties\<close>





end
