(* ===== verification/Fatal.thy ===== *)
theory Fatal
  imports Artifact Resolution
begin

text \<open>
  The fatal signal of a run (\<^verbatim>\<open>internal/orchestrator/fatal.go\<close>): the first safe cause is published under a
  key of the run, siblings poll it with a bounded backoff, and every reader bounds and validates what it finds.
\<close>

section \<open>The cause\<close>

text \<open>The published schema (\<^verbatim>\<open>run-manifest.schema.json\<close>, \<^verbatim>\<open>fatalFailure\<close>); lengths count code points.\<close>

definition valid_fatal :: "FatalFailure \<Rightarrow> bool" where
  "valid_fatal x =
     (length (runes (ff_message x)) \<le> 1024 \<and> length (runes (ff_type x)) \<le> 64 \<and> isSafePathSegment (ff_node x))"

definition fatal_json :: "FatalFailure \<Rightarrow> string json" where
  "fatal_json x = JObj ([(''message'', JStr (ff_message x))] @ (if ff_type x = [] then [] else [(''type'', JStr (ff_type x))])
     @ [(''nodeId'', JStr (ff_node x))])"

datatype fatal_error = FatalEncoding | FatalInvalid | FatalTooLarge | FatalStore store_error

definition fatal_limit :: nat where
  "fatal_limit = 12 * 1024 + 1024"

section \<open>Publication, reading and polling\<close>

text \<open>
  \<open>parse\<close> is \<^verbatim>\<open>ParseFatalFailure\<close>: schema validation and the decoding of a document that satisfies it are
  third-party and library code.
\<close>

definition PublishFatalRun ::
    "'s datastore \<Rightarrow> number_printer \<Rightarrow> (bytes \<Rightarrow> FatalFailure option) \<Rightarrow> string \<Rightarrow> FatalFailure \<Rightarrow> 's \<Rightarrow> fatal_error option \<times> 's" where
  "PublishFatalRun ds f parse key failure s =
     (case marshal_tree f (fatal_json failure) of
        Inl _ \<Rightarrow> (Some FatalEncoding, s)
      | Inr body \<Rightarrow>
          if parse body = None then (Some FatalInvalid, s)
          else (case ds_put_new ds key body jsonContentType s of
              (Some e, s') \<Rightarrow> (if e = StoreExists then None else Some (FatalStore e), s')
            | (None, s') \<Rightarrow> (None, s')))"

definition ReadFatalRun ::
    "'s datastore \<Rightarrow> (bytes \<Rightarrow> FatalFailure option) \<Rightarrow> string \<Rightarrow> 's \<Rightarrow> (fatal_error, FatalFailure option) result \<times> 's" where
  "ReadFatalRun ds parse key s =
     (case ds_open ds key s of
        (Inl e, s') \<Rightarrow> (if e = StoreNotFound then Inr None else Inl (FatalStore e), s')
      | (Inr (_, body), s') \<Rightarrow>
          (if fatal_limit < length body then Inl FatalTooLarge
           else (case parse body of None \<Rightarrow> Inl FatalInvalid | Some x \<Rightarrow> Inr (Some x)), s'))"

text \<open>
  The loop of \<^verbatim>\<open>WithFatalRunCancellation\<close>, in nanoseconds: what each round meets is either the end of the
  caller's context or a timer, set with the random source \<^verbatim>\<open>rand.Int64N\<close>, and then the outcome of a read.
  The result is the waits and the cause it cancels with.
\<close>

datatype poll = is_over: ContextDone | TimerFired (poll_rand: "int \<Rightarrow> int") (poll_read: "(fatal_error, FatalFailure option) result")

definition poll_wait :: "int \<Rightarrow> (int \<Rightarrow> int) \<Rightarrow> int" where
  "poll_wait backoff rand = backoff - backoff div 5 + rand (backoff div 5)"

fun poll_fatal :: "int \<Rightarrow> poll list \<Rightarrow> int list \<times> FatalFailure option" where
  "poll_fatal backoff [] = ([], None)"
| "poll_fatal backoff (ContextDone # ps) = ([], None)"
| "poll_fatal backoff (TimerFired rand r # ps) =
     (case r of
        Inr (Some x) \<Rightarrow> ([poll_wait backoff rand], Some x)
      | _ \<Rightarrow>
          (let (ws, x) = poll_fatal (min 30000000000 (2 * backoff)) ps in (poll_wait backoff rand # ws, x)))"

definition WithFatalRunCancellation :: "poll list \<Rightarrow> int list \<times> FatalFailure option" where
  "WithFatalRunCancellation = poll_fatal 5000000000"

text \<open>The loop returns the first cause and its waits stay between the bounds of its backoff.\<close>

definition poll_cause :: "poll \<Rightarrow> FatalFailure option" where
  "poll_cause p = (case p of TimerFired _ (Inr c) \<Rightarrow> c | _ \<Rightarrow> None)"

lemma poll_first:
  "snd (poll_fatal b ps) = (case find (\<lambda>p. poll_cause p \<noteq> None) (takeWhile (\<lambda>p. \<not> is_over p) ps) of None \<Rightarrow> None | Some p \<Rightarrow> poll_cause p)"
  by (induction b ps rule: poll_fatal.induct) (auto simp: poll_cause_def split: sum.splits option.splits prod.splits)

lemma poll_bounds:
  assumes "\<forall>p \<in> set ps. \<not> is_over p \<longrightarrow> (\<forall>n > 0. 0 \<le> poll_rand p n \<and> poll_rand p n < n)" "5000000000 \<le> b" "b \<le> 30000000000"
  shows "\<forall>w \<in> set (fst (poll_fatal b ps)). 4000000000 \<le> w \<and> w < 30000000000"
  using assms
proof (induction ps arbitrary: b)
  case (Cons p ps)
  show ?case
  proof (cases p)
    case (TimerFired rand r)
    have "0 < b div 5" using Cons.prems(2) by simp
    then have "0 \<le> rand (b div 5) \<and> rand (b div 5) < b div 5" using Cons.prems(1) TimerFired by simp
    moreover have "4000000000 \<le> b - b div 5" using Cons.prems(2) by presburger
    ultimately have wait: "4000000000 \<le> poll_wait b rand \<and> poll_wait b rand < 30000000000"
      using Cons.prems(2,3) unfolding poll_wait_def by linarith
    have rest: "\<forall>w \<in> set (fst (poll_fatal (min 30000000000 (2 * b)) ps)). 4000000000 \<le> w \<and> w < 30000000000"
      using Cons.prems by (intro Cons.IH) auto
    have "fst (poll_fatal b (p # ps)) \<in> {[poll_wait b rand], poll_wait b rand # fst (poll_fatal (min 30000000000 (2 * b)) ps)}"
      by (auto simp: TimerFired split: sum.split option.split prod.split)
    then show ?thesis using wait rest by auto
  qed simp
qed simp

section \<open>The canonical cause\<close>

definition fatal_tree :: "FatalFailure \<Rightarrow> string json" where
  "fatal_tree x = JObj ([(''message'', JStr (ff_message x)), (''nodeId'', JStr (ff_node x))]
     @ (if ff_type x = [] then [] else [(''type'', JStr (ff_type x))]))"

definition fatal_text :: "FatalFailure \<Rightarrow> bool" where
  "fatal_text x = (valid_utf8 (ff_message x) \<and> valid_utf8 (ff_type x) \<and> valid_utf8 (ff_node x))"

lemma fatal_orders:
  "sort_by key_less [(''message'', a), (''type'', b), (''nodeId'', c)] = [(''message'', a), (''nodeId'', c), (''type'', b)]"
  "sort_by key_less [(''message'', a), (''nodeId'', c)] = [(''message'', a), (''nodeId'', c)]"
  by (simp_all add: key_eval)

lemma fatal_canon: "canonizes f (fatal_json x) (fatal_tree x)"
  unfolding fatal_json_def fatal_tree_def
  using canonizes_object[OF _ fatal_orders(1), of f] canonizes_object[OF _ fatal_orders(2), of f]
  by (simp add: canonizes_basic(1))

lemma fatal_marshal:
  assumes "fatal_text x"
  shows "marshal_tree f (fatal_json x) = Inr (text_of (fatal_tree x))"
proof -
  have "read_json (text_of (fatal_json x)) = Some (fatal_json x)"
    by (rule read_text_of) (use assms in \<open>auto simp: fatal_json_def fatal_text_def valid_utf8_ascii max_nesting_def\<close>)
  moreover obtain v where "decodeNumbers f (fatal_json x) = Inr v" "canon f v = Inr (fatal_tree x)"
    using fatal_canon[of f x] by (auto simp: canonizes_def)
  ultimately show ?thesis unfolding marshal_tree_def CanonicalizeJSON_Inr decodeJSON_def by simp
qed

lemma quote_rune_length: "length (quote_rune r) \<le> 6"
  by (simp add: quote_rune_def encode_rune_def)

lemma quote_length: "length (jsonQuote s) \<le> 6 * length (runes s) + 2"
proof -
  have "length (concat (map quote_rune rs)) \<le> 6 * length rs" for rs
    by (induction rs) (use quote_rune_length in \<open>auto intro: add_le_mono[of _ 6, simplified]\<close>)
  then show ?thesis by (simp add: jsonQuote_def)
qed

lemma fatal_text_length:
  assumes "valid_fatal x"
  shows "length (text_of (fatal_tree x)) \<le> fatal_limit"
proof -
  have "\<forall>c \<in> set (ff_node x). byte c < 128"
    using assms plain_texts(1) by (auto simp: valid_fatal_def plain_text_def)
  then have "length (runes (ff_node x)) \<le> 128"
    using assms by (simp add: runes_ascii valid_fatal_def isSafePathSegment_def split: if_splits)
  then have n: "length (jsonQuote (ff_node x)) \<le> 770" using quote_length[of "ff_node x"] by simp
  have m: "length (jsonQuote (ff_message x)) \<le> 6146" "length (jsonQuote (ff_type x)) \<le> 386"
    using assms quote_length[of "ff_message x"] quote_length[of "ff_type x"] by (simp_all add: valid_fatal_def)
  have names: "length (jsonQuote ''message'') \<le> 44" "length (jsonQuote ''nodeId'') \<le> 38" "length (jsonQuote ''type'') \<le> 26"
    using quote_length[of "''message''"] quote_length[of "''nodeId''"] quote_length[of "''type''"] by (simp_all add: runes_ascii)
  show ?thesis
    using n m names by (simp add: fatal_tree_def text_of_simps fatal_limit_def)
qed

text \<open>What the program relies on of the parser.\<close>

definition fatal_codec :: "(bytes \<Rightarrow> FatalFailure option) \<Rightarrow> bool" where
  "fatal_codec parse =
     ((\<forall>x. valid_fatal x \<longrightarrow> fatal_text x \<longrightarrow> parse (text_of (fatal_tree x)) = Some x)
      \<and> (\<forall>b x. parse b = Some x \<longrightarrow> valid_fatal x))"

text \<open>A parser that satisfies it.\<close>

definition read_fatal :: "bytes \<Rightarrow> FatalFailure option" where
  "read_fatal b =
     Option.bind (read_json b) (\<lambda>t. Option.bind (object_with [''message'', ''nodeId''] [''type''] t) (\<lambda>ms.
       case (str_field ms ''message'', str_field ms ''nodeId'') of
         (Some m, Some n) \<Rightarrow>
           (case (if ''type'' \<in> fst ` set ms then str_field ms ''type'' else Some []) of
              None \<Rightarrow> None
            | Some k \<Rightarrow> (let x = \<lparr>ff_message = m, ff_type = k, ff_node = n\<rparr> in if valid_fatal x then Some x else None))
       | _ \<Rightarrow> None))"

lemma read_fatal_tree:
  assumes "fatal_text x"
  shows "read_fatal (text_of (fatal_tree x)) = (if valid_fatal x then Some x else None)"
proof -
  have "read_json (text_of (fatal_tree x)) = Some (fatal_tree x)"
    by (rule read_text_of) (use assms in \<open>auto simp: fatal_tree_def fatal_text_def valid_utf8_ascii max_nesting_def\<close>)
  then show ?thesis
    by (cases x) (auto simp: read_fatal_def fatal_tree_def object_with_def str_field_def Let_def)
qed

lemma read_fatal_codec: "fatal_codec read_fatal"
proof -
  have "valid_fatal x" if "read_fatal b = Some x" for b x
    using that unfolding read_fatal_def
    by (auto simp: bind_eq_Some_conv Let_def split: option.splits if_splits)
  then show ?thesis by (simp add: fatal_codec_def read_fatal_tree)
qed

section \<open>The signal over a store that keeps its contract\<close>

context immutable_store
begin

lemma publish_fatal_step:
  assumes "inv s" "good key" "ctype jsonContentType" "PublishFatalRun ds f parse key x s = (r, s')"
  shows "inv s'" "extends good (view s) (view s')"
proof -
  have put: "inv (snd (ds_put_new ds key b jsonContentType s))" "extends good (view s) (view (snd (ds_put_new ds key b jsonContentType s)))" for b
    using put_inv[OF assms(1-3)] put_keeps[OF assms(1-3)] unfolding extends_def by blast+
  have "s' = s \<or> (\<exists>b. s' = snd (ds_put_new ds key b jsonContentType s))"
    using assms(4) by (auto simp: PublishFatalRun_def split: sum.splits if_splits option.splits prod.splits) (metis snd_conv)+
  then have "inv s' \<and> extends good (view s) (view s')" using assms(1) put by (auto simp: extends_def)
  then show "inv s'" "extends good (view s) (view s')" by simp_all
qed

lemma read_fatal_step:
  assumes "inv s" "good key" "ReadFatalRun ds parse key s = (r, s')"
  shows "inv s'" "view s' = view s"
    and "r = Inr (Some x) \<Longrightarrow> \<exists>t b. view s key = Some (t, b) \<and> length b \<le> fatal_limit \<and> parse b = Some x"
    and "r = Inr None \<Longrightarrow> view s key = None"
proof -
  obtain y s1 where o: "ds_open ds key s = (y, s1)" by (cases "ds_open ds key s")
  note facts = open_inv[OF assms(1,2)] open_view[OF assms(1,2)] open_ok[OF assms(1,2)] open_missing[OF assms(1,2)]
  have "inv s' \<and> view s' = view s \<and> (r = Inr (Some x) \<longrightarrow> (\<exists>t b. view s key = Some (t, b) \<and> length b \<le> fatal_limit \<and> parse b = Some x))
      \<and> (r = Inr None \<longrightarrow> view s key = None)"
    using assms(3) facts unfolding o by (auto simp: ReadFatalRun_def o split: sum.splits if_splits option.splits)
  then show "inv s'" "view s' = view s"
    and "r = Inr (Some x) \<Longrightarrow> \<exists>t b. view s key = Some (t, b) \<and> length b \<le> fatal_limit \<and> parse b = Some x"
    and "r = Inr None \<Longrightarrow> view s key = None" by blast+
qed

end

context live_store
begin

lemma read_fatal_live:
  assumes "inv s" "good key" "calm s" "view s key = Some (t, b)" "length b \<le> fatal_limit" "parse b = Some x"
  shows "fst (ReadFatalRun ds parse key s) = Inr (Some x)"
  using open_live[OF assms(1-4)] assms(5,6) by (cases "ds_open ds key s") (simp add: ReadFatalRun_def)

end

section \<open>The signal over the local store\<close>

lemma json_type: "plain_type jsonContentType"
  by (simp add: plain_type_def jsonContentType_def valid_utf8_ascii runes_ascii)

lemma fatal_key_local:
  assumes "FatalRunKey project r = Inr key"
  shows "local_key key"
proof -
  have r: "ValidSafePathSegment r" using assms by (auto simp: FatalRunKey_def split: if_splits)
  have k: "key = ''projects'' @ slash # (NormalizeProjectKey project @ ''/runs/'' @ r) @ slash # ''fatal.json''"
    using assms r by (auto simp: FatalRunKey_def ParseKey_Inr)
  have "plain_text (NormalizeProjectKey project)"
    using plain_texts(2)[of "Sum256_hex x" for x] by (simp add: NormalizeProjectKey_def Let_def Sum256_hex_form)
  then show ?thesis
    unfolding k using plain_texts(1)[of r] r
    by (intro local_key_text) (auto simp: localMetadataDirName_def has_prefix_def safe_segment)
qed

lemma publish_fatal_live:
  assumes s: "disk_inv s" "calm_disk s" and key: "FatalRunKey project r = Inr key" "room key (dk_nodes s)"
    and p: "fatal_codec parse" and x: "valid_fatal x" "fatal_text x"
  obtains s' where "PublishFatalRun local_store f parse key x s = (None, s')" "disk_inv s'" "calm_disk s'"
    "fst (ReadFatalRun local_store parse key s') = Inr (Some x)"
proof -
  let ?b = "text_of (fatal_tree x)"
  note k = fatal_key_local[OF key(1)]
  obtain s1 where put: "ds_put_new local_store key ?b jsonContentType s = (None, s1)" and calm: "calm_disk s1"
    by (rule put_live[OF k json_type s(2) key(2)])
  have inv: "disk_inv s1" and at: "on_disk s1 key = Some (jsonContentType, ?b)"
    using local_objects.put_inv[OF s(1) k json_type, of ?b] local_objects.put_ok[OF s(1) k json_type, of ?b] put by simp_all
  have parse: "parse ?b = Some x" using p x by (simp add: fatal_codec_def)
  have "PublishFatalRun local_store f parse key x s = (None, s1)"
    using fatal_marshal[OF x(2), of f] parse put by (simp add: PublishFatalRun_def)
  then show ?thesis
    using that inv calm local.read_fatal_live[of s1 key jsonContentType ?b parse x, OF inv k calm at fatal_text_length[OF x(1)] parse] by blast
qed

definition example_cause :: FatalFailure where
  "example_cause = \<lparr>ff_message = ''no license'', ff_type = [], ff_node = ''n''\<rparr>"

definition empty_disk :: disk where
  "empty_disk = schema_disk\<lparr>dk_nodes := Map.empty\<rparr>"

lemma example_cause: "valid_fatal example_cause" "fatal_text example_cause"
  by (simp_all add: valid_fatal_def fatal_text_def example_cause_def isSafePathSegment_def segment_char_def is_letter_def
      runes_ascii valid_utf8_ascii)

lemma empty_disk: "disk_inv empty_disk" "calm_disk empty_disk" "room k (dk_nodes empty_disk)"
  using empty_room by (simp_all add: empty_disk_def schema_disk_def disk_inv_def nodes_inv_def rooted_def calm_disk_def)

lemma example_fatal_key: obtains k where "FatalRunKey ''p'' ''r'' = Inr k"
proof -
  have "ValidSafePathSegment ''r''"
    by (simp add: ValidSafePathSegment_def segment_char_def is_letter_def ParseKey_def has_prefix_def
      isWindowsAbs_def bad_segment_def path_Clean_def Let_def)
  moreover have "\<forall>x \<in> set (run_segments (NormalizeProjectKey ''p'') ''r'' @ [''fatal.json'']). plain x"
    using safe_plain[OF calculation] project_plain literal_plain by (simp add: run_segments_def)
  note key_text[OF this]
  ultimately show ?thesis
    using that by (simp add: FatalRunKey_def MustKey_def run_segments_def split: sum.splits)
qed

section \<open>Properties\<close>

text \<open>
  C25. Every valid cause can be read back: the canonical bytes of a cause that satisfies the schema, however
  its message and type are escaped, stay within the size that readers accept.
\<close>

theorem fatal_cause_fits:
  assumes "valid_fatal x" "fatal_text x" "marshal_tree f (fatal_json x) = Inr body"
  shows "length body \<le> fatal_limit"
  using fatal_marshal[OF assms(2), of f] fatal_text_length[OF assms(1)] assms(3) by simp

theorem fatal_cause_fits_witness:
  "\<exists>body. marshal_tree print_integer (fatal_json example_cause) = Inr body \<and> length body \<le> fatal_limit"
  using fatal_cause_fits[OF example_cause fatal_marshal[OF example_cause(2), of print_integer]] fatal_marshal[OF example_cause(2), of print_integer] by blast

text \<open>
  A fatal signal gets through: on a calm disk with room for the run's fatal key, publishing a valid
  cause succeeds and a sibling that reads the key afterwards receives exactly that cause.
\<close>

theorem PublishFatalRun_reaches:
  assumes "disk_inv s" "calm_disk s" "FatalRunKey project r = Inr key" "room key (dk_nodes s)"
    and "fatal_codec parse" "valid_fatal x" "fatal_text x"
  shows "\<exists>s'. PublishFatalRun local_store f parse key x s = (None, s') \<and> fst (ReadFatalRun local_store parse key s') = Inr (Some x)"
  by (rule publish_fatal_live[OF assms]) blast

theorem PublishFatalRun_reaches_witness:
  "\<exists>k s'. FatalRunKey ''p'' ''r'' = Inr k \<and> PublishFatalRun local_store print_integer read_fatal k example_cause empty_disk = (None, s')
    \<and> fst (ReadFatalRun local_store read_fatal k s') = Inr (Some example_cause)"
proof -
  obtain k where k: "FatalRunKey ''p'' ''r'' = Inr k" by (rule example_fatal_key)
  from PublishFatalRun_reaches[OF empty_disk(1,2) k empty_disk(3) read_fatal_codec example_cause] k show ?thesis by blast
qed

text \<open>
  C26. The first cause stays: once a cause can be read, no publication of another one, whether it reports
  success or fails, changes what a calm read returns.
\<close>

theorem first_fatal_cause_stays:
  assumes "disk_inv s" "FatalRunKey project r = Inr key" "fst (ReadFatalRun local_store parse key s) = Inr (Some x)"
    and "calm_disk (snd (PublishFatalRun local_store f parse key y s))"
  shows "fst (ReadFatalRun local_store parse key (snd (PublishFatalRun local_store f parse key y s))) = Inr (Some x)"
proof -
  note k = fatal_key_local[OF assms(2)]
  obtain t b where at: "on_disk s key = Some (t, b)" "length b \<le> fatal_limit" "parse b = Some x"
    using local_objects.read_fatal_step(3)[OF assms(1) k fst_pair[OF assms(3)] refl] by blast
  obtain q s' where p: "PublishFatalRun local_store f parse key y s = (q, s')" by (cases "PublishFatalRun local_store f parse key y s")
  note step = local_objects.publish_fatal_step[OF assms(1) k json_type p]
  have "on_disk s' key = Some (t, b)" using step(2) at(1) k unfolding extends_def by blast
  then show ?thesis
    using local.read_fatal_live[of s' key t b parse x] step(1) k at(2,3) assms(4) by (simp add: p)
qed

theorem first_fatal_cause_stays_witness:
  "\<exists>k s s'. PublishFatalRun local_store print_integer read_fatal k example_cause empty_disk = (None, s)
    \<and> snd (PublishFatalRun local_store print_integer read_fatal k (example_cause\<lparr>ff_node := []\<rparr>) s) = s'
    \<and> fst (ReadFatalRun local_store read_fatal k s') = Inr (Some example_cause)"
proof -
  obtain k where k: "FatalRunKey ''p'' ''r'' = Inr k" by (rule example_fatal_key)
  obtain s where s: "PublishFatalRun local_store print_integer read_fatal k example_cause empty_disk = (None, s)" "disk_inv s" "calm_disk s"
    "fst (ReadFatalRun local_store read_fatal k s) = Inr (Some example_cause)"
    by (rule publish_fatal_live[OF empty_disk(1,2) k empty_disk(3) read_fatal_codec example_cause])
  let ?y = "example_cause\<lparr>ff_node := []\<rparr>"
  have y: "\<not> valid_fatal ?y" "fatal_text ?y"
    by (simp_all add: valid_fatal_def isSafePathSegment_def fatal_text_def example_cause_def valid_utf8_ascii)
  have "snd (PublishFatalRun local_store print_integer read_fatal k ?y s) = s"
    using fatal_marshal[OF y(2), of print_integer] read_fatal_tree[OF y(2)] y(1) by (simp add: PublishFatalRun_def)
  then have "calm_disk (snd (PublishFatalRun local_store print_integer read_fatal k ?y s))" using s(3) by simp
  from first_fatal_cause_stays[OF s(2) k s(4) this] s(1) show ?thesis by blast
qed

text \<open>
  A sibling stops only for a real cause: a read that reports one returns a valid cause whose stored
  bytes are within the limit, a read that reports none proves that none is stored, and reading changes nothing.
\<close>

theorem ReadFatalRun_verified:
  assumes "disk_inv s" "FatalRunKey project r = Inr key" "fatal_codec parse" "ReadFatalRun local_store parse key s = (Inr c, s')"
  shows "on_disk s' = on_disk s \<and> (case c of
      None \<Rightarrow> on_disk s key = None
    | Some x \<Rightarrow> valid_fatal x \<and> (\<exists>t b. on_disk s key = Some (t, b) \<and> length b \<le> fatal_limit \<and> parse b = Some x))"
proof -
  note step = local_objects.read_fatal_step[OF assms(1) fatal_key_local[OF assms(2)] assms(4)]
  show ?thesis using step assms(3) by (cases c) (auto simp: fatal_codec_def)
qed

theorem ReadFatalRun_verified_witness:
  "\<exists>k. FatalRunKey ''p'' ''r'' = Inr k \<and> ReadFatalRun local_store read_fatal k empty_disk = (Inr None, empty_disk) \<and> on_disk empty_disk k = None"
proof -
  obtain k where k: "FatalRunKey ''p'' ''r'' = Inr k" by (rule example_fatal_key)
  have "ReadFatalRun local_store read_fatal k empty_disk = (Inr None, empty_disk)"
    using calm_start[OF fatal_key_local[OF k] empty_disk(2)]
    by (simp add: ReadFatalRun_def local_store_def local_Open_def fs_steps) (simp add: empty_disk_def)
  from ReadFatalRun_verified[OF empty_disk(1) k read_fatal_codec this] this k show ?thesis by auto
qed

text \<open>
  Polling is bounded and stops at the first cause: with the jitter that the random source promises,
  every wait of the loop is between four and thirty seconds, and the loop cancels with the first cause that
  a read before the end of the caller's context reports.
\<close>

theorem fatal_polling:
  assumes "\<forall>p \<in> set ps. \<not> is_over p \<longrightarrow> (\<forall>n > 0. 0 \<le> poll_rand p n \<and> poll_rand p n < n)"
  shows "(\<forall>w \<in> set (fst (WithFatalRunCancellation ps)). 4000000000 \<le> w \<and> w < 30000000000)
    \<and> snd (WithFatalRunCancellation ps)
        = (case find (\<lambda>p. poll_cause p \<noteq> None) (takeWhile (\<lambda>p. \<not> is_over p) ps) of None \<Rightarrow> None | Some p \<Rightarrow> poll_cause p)"
  unfolding WithFatalRunCancellation_def using poll_bounds[OF assms, of 5000000000] poll_first[of 5000000000 ps] by simp

theorem fatal_polling_witness:
  "fst (WithFatalRunCancellation [TimerFired (\<lambda>n. n - 1) (Inl FatalTooLarge), TimerFired (\<lambda>_. 0) (Inr (Some example_cause)), ContextDone])
      = [4999999999, 8000000000]
    \<and> snd (WithFatalRunCancellation [TimerFired (\<lambda>n. n - 1) (Inl FatalTooLarge), TimerFired (\<lambda>_. 0) (Inr (Some example_cause)), ContextDone])
      = Some example_cause"
  using fatal_polling[of "[TimerFired (\<lambda>n. n - 1) (Inl FatalTooLarge), TimerFired (\<lambda>_. 0) (Inr (Some example_cause)), ContextDone]"]
  by (simp add: WithFatalRunCancellation_def poll_wait_def poll_cause_def)

end
