(* ===== verification/Events.thy ===== *)
theory Events
  imports Retry PlanIndex
begin

text \<open>
  The run's event stream (\<^verbatim>\<open>internal/orchestrator/events.go\<close>, \<^verbatim>\<open>internal/runevent\<close>). Invokers report attempts
  from several goroutines while the orchestrator settles steps, so the observer is a state machine whose
  steps are its critical sections, taken in any order.
\<close>

section \<open>Texts and classes\<close>

definition boundedEventText :: "string \<Rightarrow> string" where
  "boundedEventText v =
     (let text = runes (ToValidUTF8 v) in encode_runes (if 2048 < length text then take 2047 text @ [8230] else text))"

definition classifyEventOutcome :: "StepInvocationOutcome \<Rightarrow> string" where
  "classifyEventOutcome oc =
     (if so_status oc = StatusSucceeded then []
      else if so_status oc = StatusCancelled then ''cancelled''
      else if so_status oc = StatusInfraFailed then ''infrastructure''
      else if 0 < so_timedOutAfter oc then ''timeout''
      else if so_exitCode oc = runnerExitDescriptorResolution \<or> so_exitCode oc = runnerExitSchemaValidation then ''contract''
      else if so_exitCode oc = FatalRunExitCode then ''fatal''
      else if so_exitCode oc = runnerExitNonRetryable then ''non-retryable''
      else if so_exitCode oc < 0 then ''terminated''
      else ''error'')"

section \<open>Events and the observer\<close>

text \<open>Times are readings of one clock in nanoseconds; the code prints them as UTC text and milliseconds.\<close>

record Event =
  ev_schemaVersion :: int
  ev_type :: string
  ev_sequence :: int
  ev_projectKey :: string
  ev_runID :: string
  ev_time :: int
  ev_elapsed :: int
  ev_planHash :: string
  ev_mapTotals :: "(string \<times> int) list"
  ev_node :: string
  ev_item :: "int option"
  ev_attempt :: int
  ev_duration :: "int option"
  ev_status :: string
  ev_classification :: string
  ev_diagnostic :: string

definition blank_event :: Event where
  "blank_event = \<lparr>ev_schemaVersion = 0, ev_type = [], ev_sequence = 0, ev_projectKey = [], ev_runID = [], ev_time = 0, ev_elapsed = 0,
     ev_planHash = [], ev_mapTotals = [], ev_node = [], ev_item = None, ev_attempt = 0, ev_duration = None, ev_status = [],
     ev_classification = [], ev_diagnostic = []\<rparr>"

record eventIdentity =
  ei_node :: string
  ei_item :: int
  ei_attempt :: int

text \<open>An attempt's clock; the zero time marks a closed attempt.\<close>

datatype attempt_clock = StartedAt int | ClosedAttempt

record runEvents =
  re_projectKey :: string
  re_runID :: string
  re_started :: int
  re_sequence :: int
  re_attempts :: "eventIdentity \<Rightarrow> attempt_clock option"
  re_steps :: "string \<Rightarrow> int option"
  re_log :: "Event list"
  re_clock :: "nat \<Rightarrow> int"
  re_reads :: nat

definition time_Now :: "runEvents \<Rightarrow> int \<times> runEvents" where
  "time_Now s = (re_clock s (re_reads s), s\<lparr>re_reads := Suc (re_reads s)\<rparr>)"

definition emit :: "Event \<Rightarrow> runEvents \<Rightarrow> runEvents" where
  "emit e s =
     (let s1 = s\<lparr>re_sequence := re_sequence s + 1\<rparr>;
          (t, s2) = time_Now s1;
          (t', s3) = time_Now s2
      in s3\<lparr>re_log := re_log s3 @ [e\<lparr>ev_schemaVersion := 1, ev_sequence := re_sequence s1, ev_projectKey := re_projectKey s,
           ev_runID := re_runID s, ev_time := t, ev_elapsed := t' - re_started s\<rparr>]\<rparr>)"

definition newRunEvents :: "bool \<Rightarrow> string \<Rightarrow> string \<Rightarrow> string \<Rightarrow> int \<Rightarrow> (string \<times> int) list \<Rightarrow> (nat \<Rightarrow> int) \<Rightarrow> runEvents option" where
  "newRunEvents hooked planHash projectKey runID started totals clock =
     (if \<not> hooked then None
      else Some (emit (blank_event\<lparr>ev_type := ''run.started'', ev_planHash := planHash, ev_mapTotals := totals\<rparr>)
        \<lparr>re_projectKey = projectKey, re_runID = runID, re_started = started, re_sequence = 0, re_attempts = (\<lambda>_. None),
         re_steps = (\<lambda>_. None), re_log = [], re_clock = clock, re_reads = 0\<rparr>))"

definition invocationEventIdentity :: "StepInvocationDescriptor \<Rightarrow> eventIdentity \<times> int option" where
  "invocationEventIdentity d =
     (case ds_scope d of
        None \<Rightarrow> (\<lparr>ei_node = ds_nodeID d, ei_item = -1, ei_attempt = ds_attempt d\<rparr>, None)
      | Some fs \<Rightarrow>
          (let index = sf_index (hd fs) in (\<lparr>ei_node = ds_nodeID d, ei_item = index, ei_attempt = ds_attempt d\<rparr>, Some index)))"

definition startAttempt :: "eventIdentity \<Rightarrow> int option \<Rightarrow> runEvents \<Rightarrow> runEvents" where
  "startAttempt i item s =
     (if re_attempts s i \<noteq> None then s
      else
        let (t, s1) = time_Now s;
            s2 = s1\<lparr>re_attempts := (re_attempts s1)(i \<mapsto> StartedAt t)\<rparr>;
            s3 = (if re_steps s2 (ei_node i) \<noteq> None then s2 else s2\<lparr>re_steps := (re_steps s2)(ei_node i \<mapsto> t)\<rparr>)
        in emit (blank_event\<lparr>ev_type := ''step.attempt.started'', ev_node := ei_node i, ev_item := item, ev_attempt := ei_attempt i\<rparr>) s3)"

definition finishOpenAttempt ::
    "eventIdentity \<Rightarrow> int option \<Rightarrow> string \<Rightarrow> string \<Rightarrow> string \<Rightarrow> int \<Rightarrow> runEvents \<Rightarrow> runEvents" where
  "finishOpenAttempt i item status diagnostic classification measured s =
     (case re_attempts s i of
        Some (StartedAt started) \<Rightarrow>
          let (m, s1) = (if measured < 0 then (let (t, s1) = time_Now s in (t - started, s1)) else (measured, s));
              s2 = s1\<lparr>re_attempts := (re_attempts s1)(i \<mapsto> ClosedAttempt)\<rparr>;
              c = (if status = StatusSucceeded then []
                   else if classification = [] then (if status = StatusCancelled then ''cancelled'' else ''error'')
                   else classification)
          in emit (blank_event\<lparr>ev_type := ''step.attempt.finished'', ev_node := ei_node i, ev_item := item, ev_attempt := ei_attempt i,
               ev_duration := Some m, ev_status := status, ev_classification := c, ev_diagnostic := boundedEventText diagnostic\<rparr>) s2
      | _ \<Rightarrow> s)"

definition attemptStarted :: "StepInvocationDescriptor \<Rightarrow> runEvents \<Rightarrow> runEvents" where
  "attemptStarted d = (case invocationEventIdentity d of (i, item) \<Rightarrow> startAttempt i item)"

definition finishAttempt :: "StepInvocationDescriptor \<Rightarrow> string \<Rightarrow> string \<Rightarrow> string \<Rightarrow> int \<Rightarrow> runEvents \<Rightarrow> runEvents" where
  "finishAttempt d status diagnostic classification measured s =
     (case invocationEventIdentity d of
        (i, item) \<Rightarrow> finishOpenAttempt i item status diagnostic classification measured (startAttempt i item s))"

definition attemptObserved :: "StepInvocationDescriptor \<Rightarrow> StepInvocationOutcome \<Rightarrow> int \<Rightarrow> runEvents \<Rightarrow> runEvents" where
  "attemptObserved d oc duration =
     (let status = so_status oc;
          diagnostic = (if status \<noteq> StatusSucceeded then durableRunnerDiagnostic oc else []);
          diagnostic = (if status = StatusCancelled then ''invocation cancelled'' else diagnostic);
          (status', diagnostic) = (if status = StatusInfraFailed then (StatusFailed, ''invocation infrastructure failed'') else (status, diagnostic))
      in finishAttempt d status' diagnostic (classifyEventOutcome oc) duration)"

definition attemptFinished :: "StepInvocationDescriptor \<Rightarrow> Attempt \<Rightarrow> string \<Rightarrow> runEvents \<Rightarrow> runEvents" where
  "attemptFinished d a classification = finishAttempt d (at_status a) (at_diagnostic a) classification (-1)"

text \<open>Go visits a map in no fixed order: \<open>order\<close> lists the identities as one traversal meets them.\<close>

definition close_one :: "string \<Rightarrow> string \<Rightarrow> eventIdentity \<Rightarrow> runEvents \<Rightarrow> runEvents" where
  "close_one status node i s =
     (case re_attempts s i of
        Some (StartedAt _) \<Rightarrow>
          if node \<noteq> [] \<and> ei_node i \<noteq> node then s
          else finishOpenAttempt i (if 0 \<le> ei_item i then Some (ei_item i) else None) status ''attempt outcome unavailable'' [] (-1) s
      | _ \<Rightarrow> s)"

definition closeOpenAttempts :: "eventIdentity list \<Rightarrow> string \<Rightarrow> string \<Rightarrow> runEvents \<Rightarrow> runEvents" where
  "closeOpenAttempts order status node s =
     (let status' = (if status \<noteq> StatusCancelled then StatusFailed else status) in fold (close_one status' node) order s)"

definition step_finished :: "Step \<Rightarrow> runEvents \<Rightarrow> runEvents" where
  "step_finished step s =
     (let (d, s1) = (case re_steps s (st_node step) of
          None \<Rightarrow> (0, s)
        | Some started \<Rightarrow> (let (t, s1) = time_Now s in (t - started, s1)));
          s2 = s1\<lparr>re_steps := (re_steps s1)(st_node step := None)\<rparr>
      in emit (blank_event\<lparr>ev_type := ''step.finished'', ev_node := st_node step, ev_status := st_status step, ev_duration := Some d\<rparr>) s2)"

definition stepFinished :: "eventIdentity list \<Rightarrow> Step \<Rightarrow> runEvents \<Rightarrow> runEvents" where
  "stepFinished order step s = step_finished step (closeOpenAttempts order (st_status step) (st_node step) s)"

definition run_finished :: "string \<Rightarrow> runEvents \<Rightarrow> runEvents" where
  "run_finished status = emit (blank_event\<lparr>ev_type := ''run.finished'', ev_status := status\<rparr>)"

definition runFinished :: "eventIdentity list \<Rightarrow> string \<Rightarrow> runEvents \<Rightarrow> runEvents" where
  "runFinished order status s = run_finished status (closeOpenAttempts order status [] s)"

section \<open>Bounded texts\<close>

lemma bounded_text: "length (runes (boundedEventText v)) \<le> 2048" "valid_utf8 (boundedEventText v)"
proof -
  have "scalar 8230" by (simp add: scalar_def)
  then have sc: "\<forall>r \<in> set (if 2048 < length t then take 2047 t @ [8230] else t). scalar r" if "\<forall>r \<in> set t. scalar r" for t
    using that by (auto dest: in_set_takeD)
  have t: "\<forall>r \<in> set (runes (ToValidUTF8 v)). scalar r" using runes_scalar by blast
  show "length (runes (boundedEventText v)) \<le> 2048" "valid_utf8 (boundedEventText v)"
    unfolding boundedEventText_def Let_def runes_encode[OF sc[OF t]] by (simp_all add: valid_encode[OF sc[OF t]])
qed

lemma repair_encode: "\<forall>r \<in> set rs. scalar r \<Longrightarrow> valid_runes b (encode_runes rs) = rs"
proof (induction rs arbitrary: b)
  case Nil
  then show ?case by (subst valid_runes.simps) (simp add: encode_runes_def)
next
  case (Cons r rs)
  have d: "decode_rune (encode_rune r @ encode_runes rs) = (r, length (encode_rune r))" using Cons.prems decode_encode_rune by simp
  have "encode_rune r \<noteq> []" "(r, length (encode_rune r)) \<noteq> (rune_error, 1)"
    by (auto simp: encode_rune_def Let_def rune_error_def scalar_def)
  moreover have "encode_runes (r # rs) = encode_rune r @ encode_runes rs" by (simp add: encode_runes_def)
  ultimately show ?case using d Cons by (subst valid_runes.simps) (metis append_is_Nil_conv append_eq_conv_conj fst_conv list.set_intros(2) snd_conv)
qed

lemma bounded_id:
  assumes "valid_utf8 v" "length (runes v) \<le> 2048"
  shows "boundedEventText v = v"
proof -
  have "valid_runes False v = runes v"
    using repair_encode[of "runes v" False] runes_scalar assms(1) by (auto simp: valid_utf8_def)
  then show ?thesis using assms by (simp add: boundedEventText_def runes_ToValidUTF8 valid_utf8_def)
qed

section \<open>The log\<close>

definition event_identity :: "Event \<Rightarrow> eventIdentity" where
  "event_identity e = \<lparr>ei_node = ev_node e, ei_item = (case ev_item e of None \<Rightarrow> -1 | Some i \<Rightarrow> i), ei_attempt = ev_attempt e\<rparr>"

definition starts :: "eventIdentity \<Rightarrow> Event \<Rightarrow> bool" where
  "starts i e = (ev_type e = ''step.attempt.started'' \<and> event_identity e = i)"

definition finishes :: "eventIdentity \<Rightarrow> Event \<Rightarrow> bool" where
  "finishes i e = (ev_type e = ''step.attempt.finished'' \<and> event_identity e = i)"

abbreviation occurs :: "('a \<Rightarrow> bool) \<Rightarrow> 'a list \<Rightarrow> nat" where
  "occurs P xs \<equiv> length (filter P xs)"

text \<open>How often an attempt occurs in the log, by the state of its clock.\<close>

definition counted :: "attempt_clock option \<Rightarrow> nat \<times> nat" where
  "counted c = (case c of None \<Rightarrow> (0, 0) | Some (StartedAt _) \<Rightarrow> (1, 0) | Some ClosedAttempt \<Rightarrow> (1, 1))"

definition event_ok :: "Event \<Rightarrow> bool" where
  "event_ok e =
     (ev_type e = ''step.attempt.finished'' \<longrightarrow>
        (ev_classification e = [] \<longleftrightarrow> ev_status e = StatusSucceeded) \<and> length (runes (ev_diagnostic e)) \<le> 2048)"

definition finish_after_start :: "Event list \<Rightarrow> bool" where
  "finish_after_start es = (\<forall>k < length es. \<forall>i. finishes i (es ! k) \<longrightarrow> (\<exists>j < k. starts i (es ! j)))"

lemma finish_after_start_snoc:
  assumes "finish_after_start es" "\<And>i. finishes i e \<Longrightarrow> \<exists>b \<in> set es. starts i b"
  shows "finish_after_start (es @ [e])"
  unfolding finish_after_start_def
proof (intro allI impI)
  fix k i
  assume k: "k < length (es @ [e])" "finishes i ((es @ [e]) ! k)"
  show "\<exists>j < k. starts i ((es @ [e]) ! j)"
  proof (cases "k < length es")
    case True
    then obtain j where "j < k" "starts i (es ! j)" using assms(1) k(2) by (auto simp: finish_after_start_def nth_append)
    then show ?thesis using True by (intro exI[of _ j]) (simp add: nth_append)
  next
    case False
    then have "k = length es" "finishes i e" using k by (auto simp: nth_append)
    then obtain j where "j < length es" "starts i (es ! j)" using assms(2)[of i] by (metis in_set_conv_nth)
    then show ?thesis using \<open>k = length es\<close> by (intro exI[of _ j]) (simp add: nth_append)
  qed
qed

definition tracked :: "runEvents \<Rightarrow> bool" where
  "tracked s =
     (map ev_sequence (re_log s) = map (\<lambda>k. int k + 1) [0..<length (re_log s)] \<and> re_sequence s = int (length (re_log s))
      \<and> (\<forall>i. counted (re_attempts s i) = (occurs (starts i) (re_log s), occurs (finishes i) (re_log s)))
      \<and> (\<forall>i. re_attempts s i \<noteq> None \<longrightarrow> -1 \<le> ei_item i)
      \<and> list_all event_ok (re_log s)
      \<and> finish_after_start (re_log s))"

lemma emit_fields [simp]:
  "re_attempts (emit e s) = re_attempts s" "re_steps (emit e s) = re_steps s" "re_sequence (emit e s) = re_sequence s + 1"
  "re_started (emit e s) = re_started s"
  by (simp_all add: emit_def time_Now_def Let_def)

lemma emit_log:
  "\<exists>t d. re_log (emit e s) = re_log s @ [e\<lparr>ev_schemaVersion := 1, ev_sequence := re_sequence s + 1, ev_projectKey := re_projectKey s,
     ev_runID := re_runID s, ev_time := t, ev_elapsed := d\<rparr>]"
  by (auto simp: emit_def time_Now_def Let_def)

lemma time_fields [simp]:
  "re_attempts (snd (time_Now s)) = re_attempts s" "re_steps (snd (time_Now s)) = re_steps s" "re_sequence (snd (time_Now s)) = re_sequence s"
  "re_log (snd (time_Now s)) = re_log s"
  by (simp_all add: time_Now_def)

text \<open>Appending one event to a tracked log.\<close>

lemma tracked_emit:
  assumes "tracked s0" "re_log s = re_log s0" "re_sequence s = re_sequence s0" "event_ok e"
    and "\<And>i. counted (re_attempts s i) = (occurs (starts i) (re_log s0) + (if starts i e then 1 else 0),
        occurs (finishes i) (re_log s0) + (if finishes i e then 1 else 0))"
    and "\<And>i. re_attempts s i \<noteq> None \<Longrightarrow> -1 \<le> ei_item i"
    and "\<And>i. finishes i e \<Longrightarrow> 0 < occurs (starts i) (re_log s0)"
  shows "tracked (emit e s)"
proof -
  obtain t d where log: "re_log (emit e s) = re_log s0 @ [e\<lparr>ev_schemaVersion := 1, ev_sequence := re_sequence s + 1, ev_projectKey := re_projectKey s,
     ev_runID := re_runID s, ev_time := t, ev_elapsed := d\<rparr>]" (is "_ = _ @ [?e]")
    using emit_log[of e s] assms(2) by auto
  have same: "starts i ?e = starts i e" "finishes i ?e = finishes i e" "event_ok ?e = event_ok e" for i
    by (simp_all add: starts_def finishes_def event_identity_def event_ok_def)
  have "\<exists>b \<in> set (re_log s0). starts i b" if "finishes i e" for i
    using assms(7)[OF that] by (auto simp: filter_empty_conv)
  then have "finish_after_start (re_log s0 @ [?e])"
    using assms(1) same by (intro finish_after_start_snoc) (auto simp: tracked_def)
  then show ?thesis
    unfolding tracked_def log using assms(1,3-6) same by (auto simp: tracked_def)
qed

lemma tracked_other:
  assumes "tracked s0" "re_log s = re_log s0" "re_sequence s = re_sequence s0" "re_attempts s = re_attempts s0"
    and "ev_type e \<notin> {''step.attempt.started'', ''step.attempt.finished''}"
  shows "tracked (emit e s)"
proof (rule tracked_emit[OF assms(1-3)])
  show "event_ok e" using assms(5) by (simp add: event_ok_def)
  show "counted (re_attempts s i) = (occurs (starts i) (re_log s0) + (if starts i e then 1 else 0),
        occurs (finishes i) (re_log s0) + (if finishes i e then 1 else 0))" for i
    using assms(1,4,5) by (simp add: tracked_def starts_def finishes_def)
  show "re_attempts s i \<noteq> None \<Longrightarrow> -1 \<le> ei_item i" for i using assms(1,4) by (auto simp: tracked_def)
  show "finishes i e \<Longrightarrow> 0 < occurs (starts i) (re_log s0)" for i using assms(5) by (simp add: finishes_def)
qed

text \<open>The item that an event shows for an identity.\<close>

definition shows_item :: "eventIdentity \<Rightarrow> int option \<Rightarrow> bool" where
  "shows_item i item = (-1 \<le> ei_item i \<and> ei_item i = (case item of None \<Rightarrow> -1 | Some k \<Rightarrow> k))"

lemma tracked_start:
  assumes "tracked s" "shows_item i item"
  shows "tracked (startAttempt i item s)" "re_attempts (startAttempt i item s) i \<noteq> None"
    "j \<noteq> i \<Longrightarrow> re_attempts (startAttempt i item s) j = re_attempts s j"
proof -
  let ?e = "blank_event\<lparr>ev_type := ''step.attempt.started'', ev_node := ei_node i, ev_item := item, ev_attempt := ei_attempt i\<rparr>"
  have id: "event_identity ?e = i" using assms(2) by (cases i) (simp add: event_identity_def shows_item_def)
  have "tracked (startAttempt i item s) \<and> re_attempts (startAttempt i item s) i \<noteq> None
      \<and> (j \<noteq> i \<longrightarrow> re_attempts (startAttempt i item s) j = re_attempts s j)"
  proof (cases "re_attempts s i")
    case None
    obtain t s1 where t: "time_Now s = (t, s1)" by (cases "time_Now s")
    have s1: "re_attempts s1 = re_attempts s" "re_sequence s1 = re_sequence s" "re_log s1 = re_log s" "re_steps s1 = re_steps s"
      using time_fields[of s] by (simp_all add: t)
    define s2 where "s2 = s1\<lparr>re_attempts := (re_attempts s1)(i \<mapsto> StartedAt t)\<rparr>"
    define s3 where "s3 = (if re_steps s2 (ei_node i) \<noteq> None then s2 else s2\<lparr>re_steps := (re_steps s2)(ei_node i \<mapsto> t)\<rparr>)"
    have s3: "re_attempts s3 = (re_attempts s)(i \<mapsto> StartedAt t)" "re_sequence s3 = re_sequence s" "re_log s3 = re_log s"
      by (simp_all add: s3_def s2_def s1)
    have run: "startAttempt i item s = emit ?e s3" by (simp add: startAttempt_def None t s3_def s2_def Let_def)
    have zero: "occurs (starts i) (re_log s) = 0" "occurs (finishes i) (re_log s) = 0"
      using assms(1) None by (auto simp: tracked_def counted_def dest!: spec[of _ i])
    have old: "counted (re_attempts s k) = (occurs (starts k) (re_log s), occurs (finishes k) (re_log s))" for k
      using assms(1) by (simp add: tracked_def)
    have "tracked (emit ?e s3)"
    proof (rule tracked_emit[OF assms(1) s3(3,2)])
      show "event_ok ?e" by (simp add: event_ok_def)
      show "counted (re_attempts s3 k) = (occurs (starts k) (re_log s) + (if starts k ?e then 1 else 0),
          occurs (finishes k) (re_log s) + (if finishes k ?e then 1 else 0))" for k
        using zero old[of k] id by (auto simp: s3(1) counted_def starts_def finishes_def)
      show "re_attempts s3 k \<noteq> None \<Longrightarrow> -1 \<le> ei_item k" for k
        using assms by (auto simp: s3(1) tracked_def shows_item_def split: if_splits)
      show "finishes k ?e \<Longrightarrow> 0 < occurs (starts k) (re_log s)" for k by (simp add: finishes_def)
    qed
    then show ?thesis by (simp add: run s3(1))
  next
    case (Some c)
    then show ?thesis using assms(1) by (simp add: startAttempt_def)
  qed
  then show "tracked (startAttempt i item s)" "re_attempts (startAttempt i item s) i \<noteq> None"
    "j \<noteq> i \<Longrightarrow> re_attempts (startAttempt i item s) j = re_attempts s j" by simp_all
qed

lemma tracked_finish:
  assumes "tracked s" "shows_item i item"
  shows "tracked (finishOpenAttempt i item status diagnostic classification measured s)"
    "re_attempts s i \<noteq> None \<Longrightarrow> re_attempts (finishOpenAttempt i item status diagnostic classification measured s) i = Some ClosedAttempt"
    "j \<noteq> i \<Longrightarrow> re_attempts (finishOpenAttempt i item status diagnostic classification measured s) j = re_attempts s j"
proof -
  let ?f = "finishOpenAttempt i item status diagnostic classification measured s"
  have "tracked ?f \<and> (re_attempts s i \<noteq> None \<longrightarrow> re_attempts ?f i = Some ClosedAttempt) \<and> (j \<noteq> i \<longrightarrow> re_attempts ?f j = re_attempts s j)"
  proof (cases "\<exists>t. re_attempts s i = Some (StartedAt t)")
    case True
    then obtain started where open_at: "re_attempts s i = Some (StartedAt started)" by blast
    define ms where "ms = (if measured < 0 then (let (t, s1) = time_Now s in (t - started, s1)) else (measured, s))"
    define s1 where "s1 = snd ms"
    have s1: "re_attempts s1 = re_attempts s" "re_sequence s1 = re_sequence s" "re_log s1 = re_log s"
      by (simp_all add: s1_def ms_def split_beta)
    define s2 where "s2 = s1\<lparr>re_attempts := (re_attempts s1)(i \<mapsto> ClosedAttempt)\<rparr>"
    have s2: "re_attempts s2 = (re_attempts s)(i \<mapsto> ClosedAttempt)" "re_sequence s2 = re_sequence s" "re_log s2 = re_log s"
      by (simp_all add: s2_def s1)
    define c where "c = (if status = StatusSucceeded then []
                   else if classification = [] then (if status = StatusCancelled then ''cancelled'' else ''error'')
                   else classification)"
    let ?e = "blank_event\<lparr>ev_type := ''step.attempt.finished'', ev_node := ei_node i, ev_item := item, ev_attempt := ei_attempt i,
               ev_duration := Some (fst ms), ev_status := status, ev_classification := c, ev_diagnostic := boundedEventText diagnostic\<rparr>"
    have id: "event_identity ?e = i" using assms(2) by (cases i) (simp add: event_identity_def shows_item_def)
    have run: "?f = emit ?e s2"
      by (simp add: finishOpenAttempt_def open_at s2_def s1_def c_def ms_def split_beta Let_def)
    have old: "counted (re_attempts s k) = (occurs (starts k) (re_log s), occurs (finishes k) (re_log s))" for k
      using assms(1) by (simp add: tracked_def)
    have once: "occurs (starts i) (re_log s) = 1" "occurs (finishes i) (re_log s) = 0"
      using old[of i] open_at by (simp_all add: counted_def)
    have "tracked (emit ?e s2)"
    proof (rule tracked_emit[OF assms(1) s2(3,2)])
      show "event_ok ?e" using bounded_text(1)[of diagnostic] by (simp add: event_ok_def c_def)
      show "counted (re_attempts s2 k) = (occurs (starts k) (re_log s) + (if starts k ?e then 1 else 0),
          occurs (finishes k) (re_log s) + (if finishes k ?e then 1 else 0))" for k
        using once old[of k] id by (auto simp: s2(1) counted_def starts_def finishes_def)
      show "re_attempts s2 k \<noteq> None \<Longrightarrow> -1 \<le> ei_item k" for k
        using assms by (auto simp: s2(1) tracked_def shows_item_def split: if_splits)
      show "finishes k ?e \<Longrightarrow> 0 < occurs (starts k) (re_log s)" for k using once id by (auto simp: finishes_def)
    qed
    then show ?thesis by (simp add: run s2(1))
  next
    case False
    then have "?f = s" "re_attempts s i \<noteq> None \<Longrightarrow> re_attempts s i = Some ClosedAttempt"
      by (auto simp: finishOpenAttempt_def split: option.splits attempt_clock.splits) (metis attempt_clock.exhaust)
    then show ?thesis using assms(1) by simp
  qed
  then show "tracked ?f" "re_attempts s i \<noteq> None \<Longrightarrow> re_attempts ?f i = Some ClosedAttempt" "j \<noteq> i \<Longrightarrow> re_attempts ?f j = re_attempts s j"
    by simp_all
qed

lemma identity_shows:
  assumes "case ds_scope d of None \<Rightarrow> True | Some fs \<Rightarrow> 0 \<le> sf_index (hd fs)" "invocationEventIdentity d = (i, item)"
  shows "shows_item i item"
  using assms by (auto simp: invocationEventIdentity_def shows_item_def Let_def split: option.splits)

lemma tracked_close_one:
  assumes "tracked s"
  shows "tracked (close_one status node i s)"
    and "re_attempts s j = None \<or> re_attempts s j = Some ClosedAttempt \<Longrightarrow> re_attempts (close_one status node i s) j = re_attempts s j"
    and "node = [] \<Longrightarrow> re_attempts (close_one status node i s) i = None \<or> re_attempts (close_one status node i s) i = Some ClosedAttempt"
proof -
  let ?c = "close_one status node i s"
  have "tracked ?c \<and> (re_attempts s j = None \<or> re_attempts s j = Some ClosedAttempt \<longrightarrow> re_attempts ?c j = re_attempts s j)
      \<and> (node = [] \<longrightarrow> re_attempts ?c i = None \<or> re_attempts ?c i = Some ClosedAttempt)"
  proof (cases "\<exists>t. re_attempts s i = Some (StartedAt t)")
    case True
    then have "-1 \<le> ei_item i" using assms by (auto simp: tracked_def)
    then have sh: "shows_item i (if 0 \<le> ei_item i then Some (ei_item i) else None)" by (auto simp: shows_item_def)
    note fin = tracked_finish[OF assms sh]
    show ?thesis
      using True assms fin(1,2) fin(3)[of j] by (cases "j = i") (auto simp: close_one_def)
  next
    case False
    then have "re_attempts s i = None \<or> re_attempts s i = Some ClosedAttempt" by (metis attempt_clock.exhaust not_None_eq)
    then have c: "?c = s" "re_attempts s i = None \<or> re_attempts s i = Some ClosedAttempt" by (auto simp: close_one_def)
    show ?thesis unfolding c(1) using assms c(2) by simp
  qed
  then show "tracked ?c"
    and "re_attempts s j = None \<or> re_attempts s j = Some ClosedAttempt \<Longrightarrow> re_attempts ?c j = re_attempts s j"
    and "node = [] \<Longrightarrow> re_attempts ?c i = None \<or> re_attempts ?c i = Some ClosedAttempt" by simp_all
qed

lemma tracked_close_all:
  assumes "tracked s"
  shows "tracked (fold (close_one status node) order s)
    \<and> (re_attempts s j \<in> {None, Some ClosedAttempt} \<longrightarrow> re_attempts (fold (close_one status node) order s) j = re_attempts s j)
    \<and> (node = [] \<longrightarrow> j \<in> set order \<longrightarrow> re_attempts (fold (close_one status node) order s) j \<in> {None, Some ClosedAttempt})"
  using assms
proof (induction order arbitrary: s)
  case (Cons i order)
  note one = tracked_close_one[where status = status and node = node and i = i, OF Cons.prems]
  show ?case using Cons.IH[OF one(1)] one(2)[of j] one(3) by auto
qed simp

section \<open>Runs of the observer\<close>

text \<open>
  A critical section: an attempt starts, its outcome is observed, a control-plane attempt ends, the open
  attempts of a node or of the run are closed in some order, a step or the run ends. Descriptors carry the
  nonnegative item index that every scope in the program has.
\<close>

definition item_indexed :: "StepInvocationDescriptor \<Rightarrow> bool" where
  "item_indexed d = (case ds_scope d of None \<Rightarrow> True | Some fs \<Rightarrow> 0 \<le> sf_index (hd fs))"

inductive event_step :: "runEvents \<Rightarrow> runEvents \<Rightarrow> bool" where
  started: "item_indexed d \<Longrightarrow> event_step s (attemptStarted d s)"
| observed: "item_indexed d \<Longrightarrow> event_step s (attemptObserved d oc measured s)"
| finished: "item_indexed d \<Longrightarrow> event_step s (attemptFinished d a classification s)"
| closed: "event_step s (closeOpenAttempts order status node s)"
| step_end: "event_step s (step_finished step s)"
| run_end: "event_step s (run_finished status s)"

definition reachable :: "runEvents \<Rightarrow> bool" where
  "reachable s = (\<exists>h p r t totals clock s0. newRunEvents True h p r t totals clock = Some s0 \<and> event_step\<^sup>*\<^sup>* s0 s)"

lemma tracked_finishAttempt:
  assumes "tracked s" "item_indexed d"
  shows "tracked (finishAttempt d status diagnostic classification measured s)"
proof -
  obtain i item where i: "invocationEventIdentity d = (i, item)" by (cases "invocationEventIdentity d")
  have "shows_item i item" by (rule identity_shows[OF _ i]) (use assms(2) in \<open>simp add: item_indexed_def\<close>)
  then show ?thesis using tracked_finish(1) tracked_start(1) assms(1) by (simp add: finishAttempt_def i)
qed

lemma tracked_step: "event_step s s' \<Longrightarrow> tracked s \<Longrightarrow> tracked s'"
proof (induction rule: event_step.induct)
  case (started d s)
  obtain i item where i: "invocationEventIdentity d = (i, item)" by (cases "invocationEventIdentity d")
  have "shows_item i item" by (rule identity_shows[OF _ i]) (use started(1) in \<open>simp add: item_indexed_def\<close>)
  then show ?case using tracked_start(1) started(2) by (simp add: attemptStarted_def i)
next
  case (observed d s oc measured)
  then show ?case by (simp add: attemptObserved_def Let_def split_beta tracked_finishAttempt)
next
  case (finished d s a classification)
  then show ?case by (simp add: attemptFinished_def tracked_finishAttempt)
next
  case (closed s order status node)
  then show ?case using tracked_close_all by (simp add: closeOpenAttempts_def Let_def)
next
  case (step_end s step)
  have "re_log (snd (time_Now s)) = re_log s" by simp
  then show ?case
    unfolding step_finished_def Let_def split_beta
    by (intro tracked_other[OF step_end]) (auto simp: split_beta split: option.split)
next
  case (run_end s status)
  then show ?case unfolding run_finished_def by (intro tracked_other) auto
qed

lemma tracked_reachable: "reachable s \<Longrightarrow> tracked s"
proof -
  assume "reachable s"
  then obtain h p r t totals clock s0 where s0: "newRunEvents True h p r t totals clock = Some s0" and run: "event_step\<^sup>*\<^sup>* s0 s"
    by (auto simp: reachable_def)
  have base: "tracked \<lparr>re_projectKey = p, re_runID = r, re_started = t, re_sequence = 0, re_attempts = (\<lambda>_. None),
         re_steps = (\<lambda>_. None), re_log = [], re_clock = clock, re_reads = 0\<rparr>"
    by (simp add: tracked_def counted_def finish_after_start_def)
  have "tracked s0"
    using s0 tracked_other[OF base refl refl refl] by (auto simp: newRunEvents_def)
  from run this show ?thesis by (induction rule: rtranclp_induct) (auto intro: tracked_step)
qed

section \<open>An example\<close>

definition example_descriptor :: "int \<Rightarrow> StepInvocationDescriptor" where
  "example_descriptor n =
     \<lparr>ds_planHash = [], ds_projectKey = [], ds_runID = ''r'', ds_nodeID = ''a'', ds_attempt = n, ds_maxAttempts = 2, ds_scope = None,
      ds_symbol = undefined, ds_sourcePackage = undefined, ds_environmentRef = [], ds_input = undefined,
      ds_outputManifestKey = [], ds_outputSchema = []\<rparr>"

definition example_start :: runEvents where
  "example_start = the (newRunEvents True ''h'' ''p'' ''r'' 0 [] (\<lambda>n. int n))"

text \<open>One attempt is reported twice, a second one starts and the run ends without its outcome.\<close>

definition example_events :: runEvents where
  "example_events =
     (let failed = \<lparr>so_nodeID = ''a'', so_attempt = 1, so_scope = None, so_status = StatusFailed, so_exitCode = 1, so_diagnostic = [],
            so_fatal = None, so_runnerMessage = [], so_timedOutAfter = 0\<rparr>
      in attemptStarted (example_descriptor 2) (attemptObserved (example_descriptor 1) failed 7 (attemptObserved (example_descriptor 1) failed 7 example_start)))"

lemma example_reachable: "reachable example_events"
proof -
  have ok: "item_indexed (example_descriptor n)" for n by (simp add: item_indexed_def example_descriptor_def)
  have "event_step\<^sup>*\<^sup>* example_start example_events"
    unfolding example_events_def Let_def
    by (rule rtranclp.rtrancl_into_rtrancl[OF rtranclp.rtrancl_into_rtrancl[OF r_into_rtranclp]]) (rule event_step.intros ok)+
  moreover have "newRunEvents True ''h'' ''p'' ''r'' 0 [] (\<lambda>n. int n) = Some example_start"
    by (simp add: newRunEvents_def example_start_def)
  ultimately show ?thesis unfolding reachable_def by blast
qed

lemmas event_eval = example_events_def example_start_def newRunEvents_def example_descriptor_def attemptObserved_def attemptStarted_def
  finishAttempt_def finishOpenAttempt_def startAttempt_def emit_def time_Now_def invocationEventIdentity_def Let_def

lemma example_log:
  "map ev_type (re_log example_events) = [''run.started'', ''step.attempt.started'', ''step.attempt.finished'', ''step.attempt.started'']"
  "{i. re_attempts example_events i \<noteq> None}
    = {\<lparr>ei_node = ''a'', ei_item = -1, ei_attempt = 1\<rparr>, \<lparr>ei_node = ''a'', ei_item = -1, ei_attempt = 2\<rparr>}"
  by (auto simp: event_eval StatusFailed_def StatusSucceeded_def StatusCancelled_def StatusInfraFailed_def)

section \<open>Properties\<close>

text \<open>
  C27. Every attempt is reported once: whatever reports, settlements and closings arrive in whatever order,
  each attempt has at most one start and at most one finish in the stream, and a finish only after its start.
\<close>

theorem attempts_reported_once:
  assumes "reachable s"
  shows "(\<forall>i. occurs (finishes i) (re_log s) \<le> occurs (starts i) (re_log s) \<and> occurs (starts i) (re_log s) \<le> 1)
    \<and> finish_after_start (re_log s)"
proof -
  have t: "tracked s" by (rule tracked_reachable[OF assms])
  have "occurs (finishes i) (re_log s) \<le> occurs (starts i) (re_log s) \<and> occurs (starts i) (re_log s) \<le> 1" for i
  proof -
    have "counted (re_attempts s i) = (occurs (starts i) (re_log s), occurs (finishes i) (re_log s))"
      using t by (simp add: tracked_def)
    then show ?thesis by (simp add: counted_def split: option.splits attempt_clock.splits)
  qed
  then show ?thesis using t by (simp add: tracked_def)
qed

theorem attempts_reported_once_witness:
  "length (re_log example_events) = 4 \<and> (\<forall>i. occurs (finishes i) (re_log example_events) \<le> 1) \<and> finish_after_start (re_log example_events)"
proof -
  have "length (re_log example_events) = 4" using arg_cong[OF example_log(1), of length] by simp
  then show ?thesis using attempts_reported_once[OF example_reachable] le_trans by blast
qed

text \<open>
  C28. The stream is well-formed: its events are numbered from one without gaps, and every finished attempt
  is classified exactly when it did not succeed and carries at most 2048 code points of text.
\<close>

theorem event_stream_well_formed:
  assumes "reachable s"
  shows "map ev_sequence (re_log s) = map (\<lambda>k. int k + 1) [0..<length (re_log s)]
    \<and> (\<forall>e \<in> set (re_log s). ev_type e = ''step.attempt.finished'' \<longrightarrow>
        (ev_classification e = [] \<longleftrightarrow> ev_status e = StatusSucceeded) \<and> length (runes (ev_diagnostic e)) \<le> 2048)"
  using tracked_reachable[OF assms] by (auto simp: tracked_def list_all_iff event_ok_def)

theorem event_stream_well_formed_witness:
  "map ev_sequence (re_log example_events) = [1, 2, 3, 4]"
proof -
  have "length (re_log example_events) = 4" using arg_cong[OF example_log(1), of length] by simp
  then show ?thesis using event_stream_well_formed[OF example_reachable] by (simp add: upt_rec)
qed

text \<open>
  C29. No attempt stays open: when the run ends, in whatever order the open attempts are visited, every
  attempt that was reported as started has exactly one finish, and the last event is the end of the run.
\<close>

theorem runFinished_closes:
  assumes "reachable s" "{i. re_attempts s i \<noteq> None} \<subseteq> set order"
  shows "(\<forall>i. occurs (finishes i) (re_log (runFinished order status s)) = occurs (starts i) (re_log (runFinished order status s)))
    \<and> ev_type (last (re_log (runFinished order status s))) = ''run.finished''
    \<and> ev_status (last (re_log (runFinished order status s))) = status"
proof -
  let ?c = "closeOpenAttempts order status [] s"
  have t: "tracked s" by (rule tracked_reachable[OF assms(1)])
  have closed: "re_attempts ?c i \<in> {None, Some ClosedAttempt}" for i
  proof (cases "re_attempts s i = None")
    case True
    then show ?thesis using tracked_close_all[OF t, of _ "[]" order i] by (simp add: closeOpenAttempts_def Let_def)
  next
    case False
    then show ?thesis using tracked_close_all[OF t, of _ "[]" order i] assms(2) by (auto simp: closeOpenAttempts_def Let_def)
  qed
  have "event_step ?c (runFinished order status s)" unfolding runFinished_def by (rule event_step.run_end)
  moreover have "tracked ?c" using tracked_close_all[OF t] by (simp add: closeOpenAttempts_def Let_def)
  ultimately have t': "tracked (runFinished order status s)" by (rule tracked_step)
  have "occurs (finishes i) (re_log (runFinished order status s)) = occurs (starts i) (re_log (runFinished order status s))" for i
  proof -
    have "counted (re_attempts ?c i) = (occurs (starts i) (re_log (runFinished order status s)), occurs (finishes i) (re_log (runFinished order status s)))"
      using t' by (simp add: tracked_def runFinished_def run_finished_def)
    then show ?thesis using closed[of i] by (auto simp: counted_def)
  qed
  moreover obtain a b where "re_log (runFinished order status s) = re_log ?c @ [blank_event\<lparr>ev_type := ''run.finished'', ev_status := status,
      ev_schemaVersion := 1, ev_sequence := re_sequence ?c + 1, ev_projectKey := re_projectKey ?c, ev_runID := re_runID ?c,
      ev_time := a, ev_elapsed := b\<rparr>]"
    using emit_log[of "blank_event\<lparr>ev_type := ''run.finished'', ev_status := status\<rparr>" ?c]
    unfolding runFinished_def run_finished_def by auto
  ultimately show ?thesis by simp
qed

theorem runFinished_closes_witness:
  "\<forall>i. occurs (finishes i) (re_log (runFinished [\<lparr>ei_node = ''a'', ei_item = -1, ei_attempt = 2\<rparr>, \<lparr>ei_node = ''a'', ei_item = -1, ei_attempt = 1\<rparr>]
      StatusCancelled example_events))
    = occurs (starts i) (re_log (runFinished [\<lparr>ei_node = ''a'', ei_item = -1, ei_attempt = 2\<rparr>, \<lparr>ei_node = ''a'', ei_item = -1, ei_attempt = 1\<rparr>]
      StatusCancelled example_events))"
  using runFinished_closes[OF example_reachable, of "[\<lparr>ei_node = ''a'', ei_item = -1, ei_attempt = 2\<rparr>, \<lparr>ei_node = ''a'', ei_item = -1, ei_attempt = 1\<rparr>]" StatusCancelled]
    example_log(2) by auto

text \<open>
  C30. Observers and the retry policy agree: for the outcomes an invoker returns, where a timeout or a
  signal has a negative exit code and an infrastructure exit its own status, an event names a class that a
  retry may fix exactly when the executor may retry the attempt.
\<close>

theorem classes_match_retries:
  assumes "0 < so_timedOutAfter oc \<Longrightarrow> so_exitCode oc < 0" "so_exitCode oc = runnerExitInfrastructure \<Longrightarrow> so_status oc = StatusInfraFailed"
    and "so_status oc \<in> {StatusSucceeded, StatusCancelled, StatusInfraFailed, StatusFailed}"
  shows "classifyEventOutcome oc \<in> {''timeout'', ''terminated'', ''error''} \<longleftrightarrow> retryableOutcome oc"
proof (cases "so_status oc = StatusFailed")
  case True
  then have st: "so_status oc \<noteq> StatusSucceeded" "so_status oc \<noteq> StatusCancelled" "so_status oc \<noteq> StatusInfraFailed"
    by (simp_all add: StatusFailed_def StatusSucceeded_def StatusCancelled_def StatusInfraFailed_def)
  then have ex: "so_exitCode oc \<noteq> runnerExitInfrastructure" "0 < so_timedOutAfter oc \<longrightarrow> so_exitCode oc < 0"
    using assms(1,2) True by auto
  show ?thesis
    unfolding classifyEventOutcome_def retryableOutcome_def using st True ex
    by (cases "0 < so_timedOutAfter oc"; cases "so_exitCode oc < 0") simp_all
next
  case False
  then have "so_status oc = StatusSucceeded \<or> so_status oc = StatusCancelled \<or> so_status oc = StatusInfraFailed" using assms(3) by simp
  then have "classifyEventOutcome oc \<in> {[], ''cancelled'', ''infrastructure''}" unfolding classifyEventOutcome_def by auto
  then show ?thesis using False by (auto simp: retryableOutcome_def)
qed

theorem classes_match_retries_witness:
  "classifyEventOutcome \<lparr>so_nodeID = ''a'', so_attempt = 1, so_scope = None, so_status = StatusFailed, so_exitCode = -1, so_diagnostic = [],
            so_fatal = None, so_runnerMessage = [], so_timedOutAfter = 5\<rparr> = ''timeout''
    \<and> retryableOutcome \<lparr>so_nodeID = ''a'', so_attempt = 1, so_scope = None, so_status = StatusFailed, so_exitCode = -1, so_diagnostic = [],
            so_fatal = None, so_runnerMessage = [], so_timedOutAfter = 5\<rparr>"
  using classes_match_retries[of "\<lparr>so_nodeID = ''a'', so_attempt = 1, so_scope = None, so_status = StatusFailed, so_exitCode = -1, so_diagnostic = [],
            so_fatal = None, so_runnerMessage = [], so_timedOutAfter = 5\<rparr>"]
  by (simp add: classifyEventOutcome_def StatusFailed_def StatusSucceeded_def StatusCancelled_def StatusInfraFailed_def)

end
