(* ===== verification/TaskProcess.thy ===== *)
theory TaskProcess
  imports Prelude
begin

text \<open>
  One task process (\<^verbatim>\<open>internal/taskprocess/run.go\<close>): the ring buffer that keeps the last bytes of its output,
  and the error that \<^verbatim>\<open>RunTo\<close> makes of what the operating system reports. Owning, starting and awaiting the
  process are the operating system's.
\<close>

section \<open>The output ring\<close>

record boundedOutput =
  bo_buffer :: bytes
  bo_offset :: nat
  bo_truncated :: bool

definition outputLimit :: nat where
  "outputLimit = 2 ^ 20"

text \<open>\<^verbatim>\<open>copy(dst, src)\<close> over the tail of \<open>dst\<close> from \<open>at\<close>, and the number of bytes it copied.\<close>

definition copy_at :: "bytes \<Rightarrow> nat \<Rightarrow> bytes \<Rightarrow> bytes \<times> nat" where
  "copy_at dst at src =
     (let n = min (length dst - at) (length src) in (take at dst @ take n src @ drop (at + n) dst, n))"

text \<open>The buffer's limit is an argument of the loop-free code; \<^const>\<open>outputLimit\<close> is the program's.\<close>

definition ring_write :: "nat \<Rightarrow> boundedOutput \<Rightarrow> bytes \<Rightarrow> boundedOutput" where
  "ring_write limit o1 data =
     (if limit \<le> length data then
        \<lparr>bo_buffer = drop (length data - limit) data, bo_offset = 0,
         bo_truncated = (bo_truncated o1 \<or> limit < length (bo_buffer o1) + length data)\<rparr>
      else
        let kept = (if length (bo_buffer o1) < limit then min (length data) (limit - length (bo_buffer o1)) else 0);
            o2 = o1\<lparr>bo_buffer := bo_buffer o1 @ take kept data\<rparr>;
            rest = drop kept data
        in if rest = [] then o2
           else
             let (b1, copied) = copy_at (bo_buffer o2) (bo_offset o2) rest;
                 (b2, _) = copy_at b1 0 (drop copied rest)
             in \<lparr>bo_buffer = b2, bo_offset = (bo_offset o2 + length rest) mod limit, bo_truncated = True\<rparr>)"

definition Write :: "boundedOutput \<Rightarrow> bytes \<Rightarrow> boundedOutput" where
  "Write = ring_write outputLimit"

definition empty_output :: boundedOutput where
  "empty_output = \<lparr>bo_buffer = [], bo_offset = 0, bo_truncated = False\<rparr>"

definition truncation_notice :: string where
  "truncation_notice = ''[task output truncated; showing last 1048576 bytes]'' @ [CHR 0x0A]"

definition output_String :: "boundedOutput \<Rightarrow> string" where
  "output_String o1 =
     (if bo_truncated o1 then truncation_notice @ drop (bo_offset o1) (bo_buffer o1) @ take (bo_offset o1) (bo_buffer o1)
      else bo_buffer o1)"

section \<open>The ring keeps the last bytes\<close>

definition last_bytes :: "nat \<Rightarrow> 'a list \<Rightarrow> 'a list" where
  "last_bytes n xs = drop (length xs - n) xs"

lemma length_last_bytes [simp]: "length (last_bytes n xs) = min n (length xs)"
  by (simp add: last_bytes_def)

lemma last_bytes_short: "length xs \<le> n \<Longrightarrow> last_bytes n xs = xs"
  by (simp add: last_bytes_def)

lemma last_bytes_long: "n \<le> length ys \<Longrightarrow> last_bytes n (xs @ ys) = last_bytes n ys"
  by (simp add: last_bytes_def)

lemma last_bytes_push:
  "length ys \<le> n \<Longrightarrow> n \<le> length xs \<Longrightarrow> last_bytes n (xs @ ys) = drop (length ys) (last_bytes n xs) @ ys"
  by (simp add: last_bytes_def add.commute)

text \<open>What the ring holds, oldest byte first, and what it stands for after \<open>written\<close>.\<close>

definition ring_bytes :: "boundedOutput \<Rightarrow> bytes" where
  "ring_bytes o1 = drop (bo_offset o1) (bo_buffer o1) @ take (bo_offset o1) (bo_buffer o1)"

definition ring_holds :: "nat \<Rightarrow> bytes \<Rightarrow> boundedOutput \<Rightarrow> bool" where
  "ring_holds limit written o1 =
     (ring_bytes o1 = last_bytes limit written \<and> bo_truncated o1 = (limit < length written)
      \<and> length (bo_buffer o1) \<le> limit \<and> bo_offset o1 < limit \<and> (length (bo_buffer o1) < limit \<longrightarrow> bo_offset o1 = 0)
      \<and> (limit < length written \<longrightarrow> length (bo_buffer o1) = limit) \<and> (\<not> bo_truncated o1 \<longrightarrow> bo_offset o1 = 0))"

lemma length_ring_bytes: "length (ring_bytes o1) = length (bo_buffer o1)"
  by (simp add: ring_bytes_def)

text \<open>Overwriting from the offset, with wrap-around, replaces the oldest bytes.\<close>

lemma ring_overwrite:
  assumes "length buf = limit" "off < limit" "length rest < limit"
    and b1: "copy_at buf off rest = (b1, copied)" and b2: "copy_at b1 0 (drop copied rest) = (b2, u)"
  shows "length b2 = limit \<and> drop ((off + length rest) mod limit) b2 @ take ((off + length rest) mod limit) b2
    = drop (length rest) (drop off buf @ take off buf) @ rest"
proof (cases "off + length rest \<le> limit")
  case True
  have c: "copied = length rest" "b1 = take off buf @ rest @ drop (off + length rest) buf"
    using b1 assms(1) True by (auto simp: copy_at_def Let_def)
  have b: "b2 = b1" using b2 c by (simp add: copy_at_def)
  show ?thesis
  proof (cases "off + length rest = limit")
    case True
    then show ?thesis using assms(1) b c by simp
  next
    case False
    then have "(off + length rest) mod limit = off + length rest" using True by simp
    then show ?thesis using assms(1,2) True b c by (simp add: add.commute)
  qed
next
  case False
  let ?n = "limit - off"
  have c: "copied = ?n" "b1 = take off buf @ take ?n rest"
    using b1 assms(1,2) False by (auto simp: copy_at_def Let_def)
  have len: "length (drop ?n rest) = off + length rest - limit" "off + length rest - limit \<le> off"
    using False assms(2,3) by auto
  have b: "b2 = drop ?n rest @ drop (off + length rest - limit) b1"
    using b2 c len assms(1,2) by (auto simp: copy_at_def Let_def)
  have m: "(off + length rest) mod limit = off + length rest - limit"
    using False assms(2,3) by (simp add: mod_if)
  have "drop (length rest) (drop off buf @ take off buf) = drop (off + length rest - limit) (take off buf)"
    using False assms(1,2) by (simp add: add.commute)
  moreover have "drop (off + length rest - limit) b1 = drop (off + length rest - limit) (take off buf) @ take ?n rest"
    using c(2) len(2) assms(1,2) by simp
  ultimately have "drop (off + length rest - limit) b2 @ take (off + length rest - limit) b2
    = drop (length rest) (drop off buf @ take off buf) @ (take ?n rest @ drop ?n rest)"
    using b len(1) by simp
  then show ?thesis using m b len c(2) assms(1,2) False by simp
qed

definition ring_overwrites :: "nat \<Rightarrow> boundedOutput \<Rightarrow> bytes \<Rightarrow> boundedOutput" where
  "ring_overwrites limit o2 rest =
     (let (b1, copied) = copy_at (bo_buffer o2) (bo_offset o2) rest;
          (b2, _) = copy_at b1 0 (drop copied rest)
      in \<lparr>bo_buffer = b2, bo_offset = (bo_offset o2 + length rest) mod limit, bo_truncated = True\<rparr>)"

lemma ring_overwrites_hold:
  assumes before: "ring_bytes o2 = last_bytes limit written" and full: "length (bo_buffer o2) = limit"
    and o: "bo_offset o2 < limit" and r: "0 < length rest" "length rest < limit"
  shows "ring_holds limit (written @ rest) (ring_overwrites limit o2 rest)"
proof -
  obtain b1 copied b2 u where c: "copy_at (bo_buffer o2) (bo_offset o2) rest = (b1, copied)"
    "copy_at b1 0 (drop copied rest) = (b2, u)" by (metis surj_pair)
  have w: "ring_overwrites limit o2 rest = \<lparr>bo_buffer = b2, bo_offset = (bo_offset o2 + length rest) mod limit, bo_truncated = True\<rparr>"
    using c by (simp add: ring_overwrites_def)
  note over = ring_overwrite[OF full o r(2) c]
  have long: "limit \<le> length written"
    using arg_cong[OF before, of length] full by (simp add: length_ring_bytes)
  have "ring_bytes (ring_overwrites limit o2 rest) = drop (length rest) (ring_bytes o2) @ rest"
    using over by (simp add: w ring_bytes_def)
  also have "\<dots> = last_bytes limit (written @ rest)"
    using r long by (simp add: before last_bytes_push)
  finally have "ring_bytes (ring_overwrites limit o2 rest) = last_bytes limit (written @ rest)" .
  moreover have "limit < length (written @ rest)" unfolding length_append using long r(1) by linarith
  ultimately show ?thesis using w over o by (simp add: ring_holds_def)
qed

lemma ring_write_holds:
  assumes h: "ring_holds limit written o1" and pos: "0 < limit"
  shows "ring_holds limit (written @ data) (ring_write limit o1 data)"
proof (cases "limit \<le> length data")
  case True
  have t: "limit < length (bo_buffer o1) + length data \<or> limit < length written \<longleftrightarrow> limit < length written + length data"
  proof (cases "limit < length written")
    case False
    then have "length (bo_buffer o1) = length written"
      using h length_ring_bytes[of o1] by (simp add: ring_holds_def)
    then show ?thesis by auto
  qed simp
  have trunc: "bo_truncated o1 = (limit < length written)" using h by (simp add: ring_holds_def)
  have w: "ring_write limit o1 data = \<lparr>bo_buffer = last_bytes limit data, bo_offset = 0, bo_truncated = (limit < length written + length data)\<rparr>"
    using True t trunc by (auto simp: ring_write_def last_bytes_def)
  have "length (last_bytes limit data) = limit" "last_bytes limit (written @ data) = last_bytes limit data"
    using True by (simp_all add: last_bytes_long)
  then show ?thesis
    unfolding w ring_holds_def ring_bytes_def using pos by simp
next
  case False
  let ?b = "bo_buffer o1"
  let ?kept = "if length ?b < limit then min (length data) (limit - length ?b) else 0"
  let ?o2 = "o1\<lparr>bo_buffer := ?b @ take ?kept data\<rparr>" and ?rest = "drop ?kept data"
  have lb: "length ?b = min limit (length written)" using h length_ring_bytes[of o1] by (simp add: ring_holds_def)
  have unfilled: "?b = written" if "length ?b < limit"
  proof -
    have "length written < limit" using lb that by (simp add: min_def split: if_splits)
    then have "last_bytes limit written = written" by (simp add: last_bytes_short)
    moreover have "bo_offset o1 = 0" "ring_bytes o1 = last_bytes limit written" using h that by (simp_all add: ring_holds_def)
    ultimately show ?thesis by (simp add: ring_bytes_def)
  qed
  show ?thesis
  proof (cases "?rest = []")
    case True
    have w: "ring_write limit o1 data = ?o2" using False True by (simp add: ring_write_def Let_def)
    show ?thesis
    proof (cases "length ?b < limit")
      case True
      have "length data \<le> ?kept" using \<open>?rest = []\<close> by (simp only: drop_eq_Nil)
      then have "length data \<le> limit - length ?b" by (simp only: if_P[OF True] min.bounded_iff)
      then have k: "?kept = length data" "length ?b + length data \<le> limit" using True by (simp_all add: min_absorb1)
      have o: "bo_offset o1 = 0" "length written = length ?b" "\<not> bo_truncated o1" using h True lb by (auto simp: ring_holds_def)
      have "?b = written" by (rule unfilled[OF True])
      moreover have "ring_write limit o1 data = o1\<lparr>bo_buffer := ?b @ data\<rparr>" using w k(1) by simp
      ultimately show ?thesis
        using o k(2) pos by (simp add: ring_holds_def ring_bytes_def last_bytes_short)
    next
      case False
      then have "data = []" using \<open>?rest = []\<close> by simp
      then show ?thesis using h w by simp
    qed
  next
    case False
    have full: "length (?b @ take ?kept data) = limit"
    proof (cases "length ?b < limit")
      case True
      then have "limit - length ?b < length data" using False by (simp add: min_def split: if_splits)
      then show ?thesis using True by (simp add: min_def)
    qed (use lb in simp)
    have buffer: "length (bo_buffer (o1\<lparr>bo_buffer := xs\<rparr>)) = n \<longleftrightarrow> length xs = n" for xs n by simp
    have before: "ring_bytes ?o2 = last_bytes limit (written @ take ?kept data)"
    proof (cases "length ?b < limit")
      case True
      have "length (written @ take ?kept data) \<le> limit" using full unfilled[OF True] by simp
      then have "last_bytes limit (written @ take ?kept data) = written @ take ?kept data" by (rule last_bytes_short)
      moreover have "bo_offset o1 = 0" using h True by (simp add: ring_holds_def)
      ultimately show ?thesis using unfilled[OF True] by (simp add: ring_bytes_def)
    next
      case False
      then show ?thesis using h by (simp add: ring_holds_def)
    qed
    have "ring_write limit o1 data = ring_overwrites limit ?o2 ?rest"
      using \<open>\<not> limit \<le> length data\<close> False unfolding ring_write_def ring_overwrites_def Let_def
      by (simp only: if_not_P if_False if_True refl)
    moreover have "ring_holds limit ((written @ take ?kept data) @ ?rest) (ring_overwrites limit ?o2 ?rest)"
    proof (rule ring_overwrites_hold[OF before])
      show "length (bo_buffer ?o2) = limit" using full by (rule buffer[THEN ssubst])
      show "bo_offset ?o2 < limit" using h by (simp add: ring_holds_def)
      show "0 < length ?rest" using False by blast
      show "length ?rest < limit" using \<open>\<not> limit \<le> length data\<close> by simp
    qed
    ultimately show ?thesis by (simp only: append_assoc append_take_drop_id)
  qed
qed

lemma writes_hold: "0 < limit \<Longrightarrow> ring_holds limit written o1 \<Longrightarrow> ring_holds limit (written @ concat chunks) (foldl (ring_write limit) o1 chunks)"
proof (induction chunks arbitrary: written o1)
  case (Cons c cs)
  then show ?case using Cons.IH[OF Cons.prems(1) ring_write_holds[OF Cons.prems(2,1), of c]] by simp
qed simp

lemma empty_holds: "0 < limit \<Longrightarrow> ring_holds limit [] empty_output"
  by (simp add: ring_holds_def empty_output_def ring_bytes_def last_bytes_def)

text \<open>
  C37. The captured output of a task is bounded and complete at its end: however a process splits what it
  writes, the capture is the whole output when it fits in a mebibyte, and otherwise a notice followed by exactly the
  last mebibyte.
\<close>

theorem output_captured:
  "output_String (foldl Write empty_output chunks) =
     (if length (concat chunks) \<le> outputLimit then concat chunks
      else truncation_notice @ drop (length (concat chunks) - outputLimit) (concat chunks))"
proof -
  have "0 < outputLimit" by (simp add: outputLimit_def)
  then have "ring_holds outputLimit (concat chunks) (foldl Write empty_output chunks)"
    using writes_hold[OF _ empty_holds, of outputLimit chunks] by (simp add: Write_def[abs_def])
  then show ?thesis
    by (auto simp: ring_holds_def output_String_def ring_bytes_def last_bytes_def)
qed

section \<open>The process\<close>

text \<open>
  What the operating system reports of one process: errors of owning and starting it, how waiting ended, whether the
  context had ended at either point, and what was written in which pieces.
\<close>

datatype wait_result = WaitOk | WaitExit int | WaitDelay | WaitOther

record process =
  ps_ownFails :: bool
  ps_startFails :: bool
  ps_startEnded :: bool
  ps_wait :: wait_result
  ps_waitEnded :: bool
  ps_chunks :: "bytes list"

datatype run_error = RunContext | RunExit int | RunOther

definition RunTo :: "process \<Rightarrow> run_error option" where
  "RunTo p =
     (if ps_ownFails p then Some RunOther
      else if ps_startFails p then Some (if ps_startEnded p then RunContext else RunOther)
      else if ps_wait p \<noteq> WaitOk \<and> ps_waitEnded p then Some RunContext
      else case ps_wait p of WaitOk \<Rightarrow> None | WaitExit c \<Rightarrow> Some (RunExit c) | _ \<Rightarrow> Some RunOther)"

definition Run_process :: "process \<Rightarrow> string \<times> run_error option" where
  "Run_process p = (output_String (foldl Write empty_output (if ps_ownFails p \<or> ps_startFails p then [] else ps_chunks p)), RunTo p)"

end
