(* ===== verification/Invoker.thy ===== *)
theory Invoker
  imports TaskProcess StepRun Fatal
begin

text \<open>
  One step process (\<^verbatim>\<open>internal/orchestrator/invoker.go\<close>, \<^verbatim>\<open>descriptor.go\<close>): the descriptor's file, the runner's
  command, and the outcome that \<^verbatim>\<open>invokeOne\<close> makes of the process and of the structured failure beside the
  descriptor. The file system, the process and the clocks are functions of a \<open>host\<close> on a world of its own.
\<close>

section \<open>Descriptors as files\<close>

text \<open>The descriptor's datastore binding, which \<^verbatim>\<open>PlanIndex\<close>'s descriptors leave out, is a field of the invocation.\<close>

datatype DatastoreDescriptor =
    LocalDatastoreDescriptor string
  | S3DatastoreDescriptor string string string string "bool option"

record StepInvocation =
  iv_descriptor :: StepInvocationDescriptor
  iv_binding :: DatastoreDescriptor
  iv_timeout :: int

definition opt_member :: "string \<Rightarrow> string \<Rightarrow> (string \<times> string json) list" where
  "opt_member name v = (if v = [] then [] else [(name, JStr v)])"

fun binding_json :: "DatastoreDescriptor \<Rightarrow> string json" where
  "binding_json (LocalDatastoreDescriptor path) = JObj [(''kind'', JStr ''local''), (''path'', JStr path)]"
| "binding_json (S3DatastoreDescriptor bucket region prefix endpoint forced) =
     JObj ([(''kind'', JStr ''s3''), (''bucket'', JStr bucket), (''region'', JStr region)]
       @ opt_member ''prefix'' prefix @ opt_member ''endpoint'' endpoint
       @ (case forced of None \<Rightarrow> [] | Some b \<Rightarrow> [(''forcePathStyle'', JBool b)]))"

definition artifact_json :: "string \<Rightarrow> string \<Rightarrow> string \<Rightarrow> string json" where
  "artifact_json key hash contentType = JObj [(''key'', JStr key), (''hash'', JStr hash), (''contentType'', JStr contentType)]"

definition descriptor_json :: "StepInvocation \<Rightarrow> string json" where
  "descriptor_json iv =
     (let d = iv_descriptor iv; sym = ds_symbol d; pkg = ds_sourcePackage d; input = ds_input d in
      JObj ([(''kind'', JStr ''StepInvocationDescriptor''), (''schemaVersion'', JNum ''3''), (''encoding'', JStr ''json-v3''),
         (''planHash'', JStr (ds_planHash d)), (''projectKey'', JStr (ds_projectKey d)), (''runId'', JStr (ds_runID d)),
         (''nodeId'', JStr (ds_nodeID d)), (''attempt'', JNum (dec_int (ds_attempt d))), (''maxAttempts'', JNum (dec_int (ds_maxAttempts d)))]
       @ (case ds_scope d of None \<Rightarrow> [] | Some fs \<Rightarrow> [(''scope'', JObj [(''frames'', JArr (map frame_json fs))])])
       @ [(''symbol'', JObj [(''packageId'', JStr (se_packageId sym)), (''language'', JStr (se_language sym)),
            (''module'', JStr (se_module sym)), (''export'', JStr (se_export sym))]),
          (''sourcePackage'', JObj [(''packageId'', JStr (pa_packageID pkg)), (''language'', JStr (pa_language pkg)),
            (''packageHash'', JStr (pa_packageHash pkg)),
            (''sourceArchive'', artifact_json (pa_key pkg) (pa_archiveHash pkg) (pa_contentType pkg))]),
          (''environmentRef'', JStr (ds_environmentRef d)),
          (''input'', JObj [(''artifact'', artifact_json (da_key input) (da_hash input) (da_contentType input)), (''schema'', JStr (da_schema input))]),
          (''output'', JObj [(''manifestKey'', JStr (ds_outputManifestKey d)), (''schema'', JStr (ds_outputSchema d))]),
          (''datastore'', binding_json (iv_binding iv))]))"

text \<open>\<^verbatim>\<open>filepath.Join\<close> and \<^verbatim>\<open>filepath.Dir\<close> on a Unix system.\<close>

definition filepath_Join :: "string list \<Rightarrow> string" where
  "filepath_Join parts =
     (case dropWhile (\<lambda>p. p = []) parts of [] \<Rightarrow> [] | ps \<Rightarrow> path_Clean (join_with [slash] ps))"

definition filepath_Dir :: "string \<Rightarrow> string" where
  "filepath_Dir p = path_Clean (rev (dropWhile (\<lambda>c. c \<noteq> slash) (rev p)))"

definition validateDescriptorFileIdentity :: "StepInvocationDescriptor \<Rightarrow> string option" where
  "validateDescriptorFileIdentity d =
     (if \<not> ValidSafePathSegment (ds_runID d) \<or> \<not> ValidSafePathSegment (ds_nodeID d) \<or> ds_attempt d < 1
         \<or> MaxJSONSafeInteger < ds_attempt d
      then Some ''invalid descriptor identity for filename''
      else map_option (\<lambda>e. ''invalid descriptor scope: '' @ e) (ValidateExecutionScope (ds_scope d)))"

definition descriptor_parts :: "StepInvocationDescriptor \<Rightarrow> string list" where
  "descriptor_parts d =
     [ds_runID d, ds_nodeID d]
     @ (case ds_scope d of
          None \<Rightarrow> []
        | Some fs \<Rightarrow> [''scopes''] @ concat (map (\<lambda>fr. [''maps'', sf_map fr, ''items'', dec_int (sf_index fr)]) fs))
     @ [dec_int (ds_attempt d) @ ''.json'']"

definition descriptorFilePath :: "string \<Rightarrow> StepInvocationDescriptor \<Rightarrow> (string, string) result" where
  "descriptorFilePath dir d =
     (case validateDescriptorFileIdentity d of
        Some e \<Rightarrow> Inl e
      | None \<Rightarrow> Inr (filepath_Join (dir # descriptor_parts d)))"

section \<open>The runner's command\<close>

definition descriptorPathToken :: string where
  "descriptorPathToken = ''{descriptor}''"

definition PythonRunnerCommand :: "string \<Rightarrow> string list" where
  "PythonRunnerCommand python = [python, ''-I'', ''-m'', ''massive.runner'', descriptorPathToken]"

text \<open>\<open>getenv\<close> reads the process environment; an unset variable is empty.\<close>

definition DefaultRunnerCommand :: "(string \<Rightarrow> string) \<Rightarrow> string \<Rightarrow> (string, string list) result" where
  "DefaultRunnerCommand getenv language =
     (if language = ''python'' then
        (let python = getenv ''MASSIVE_PYTHON'' in
         if python = [] then Inl ''Python tasks need MASSIVE_PYTHON'' else Inr (PythonRunnerCommand python))
      else if language = ''typescript'' then
        (let runner = getenv ''MASSIVE_TYPESCRIPT_RUNNER'' in
         Inr [if runner = [] then ''massive-typescript-runner'' else runner, descriptorPathToken])
      else Inl (''unsupported runner language '' @ language))"

fun replace_token :: "string list \<Rightarrow> string \<Rightarrow> string list \<times> bool" where
  "replace_token [] path = ([], False)"
| "replace_token (a # as) path =
     (let (argv, substituted) = replace_token as path in
      if a = descriptorPathToken then (path # argv, True) else (a # argv, substituted))"

definition substituteDescriptorPath :: "string list \<Rightarrow> string \<Rightarrow> string list" where
  "substituteDescriptorPath cmd path =
     (let (argv, substituted) = replace_token cmd path in if substituted then argv else argv @ [path])"

section \<open>The host\<close>

text \<open>
  \<^verbatim>\<open>ctx.Err()\<close> and \<^verbatim>\<open>attemptContext.Err()\<close> are readings; the second says whether it is the deadline. Opening the
  failure file and reading it may each fail; the reader is limited.
\<close>

record 'w host =
  ho_getenv :: "string \<Rightarrow> string"
  ho_mkdirAll :: "string \<Rightarrow> 'w \<Rightarrow> os_error option \<times> 'w"
  ho_writeFile :: "string \<Rightarrow> bytes \<Rightarrow> 'w \<Rightarrow> os_error option \<times> 'w"
  ho_remove :: "string \<Rightarrow> 'w \<Rightarrow> os_error option \<times> 'w"
  ho_open :: "string \<Rightarrow> 'w \<Rightarrow> (os_error, (os_error, bytes) result) result \<times> 'w"
  ho_run :: "string list \<Rightarrow> string \<Rightarrow> int \<Rightarrow> 'w \<Rightarrow> (process \<times> int) \<times> 'w"
  ho_ended :: "'w \<Rightarrow> bool \<times> 'w"
  ho_deadline :: "'w \<Rightarrow> bool \<times> 'w"

record ProcessStepInvoker =
  pi_command :: "string list"
  pi_workingDir :: string
  pi_descriptorDir :: string
  pi_processLimit :: int

record runnerFailure =
  rf_exitCode :: int
  rf_message :: string
  rf_type :: string

definition no_failure :: runnerFailure where
  "no_failure = \<lparr>rf_exitCode = 0, rf_message = [], rf_type = []\<rparr>"

definition maxResultBytes :: nat where
  "maxResultBytes = 12 * (1024 + 64) + 256"

text \<open>
  \<open>parse\<close> is the schema validation of the result and the decoding of a document that satisfies it; both are
  third-party and library code.
\<close>

definition readRunnerFailure ::
    "'w host \<Rightarrow> (bytes \<Rightarrow> runnerFailure option) \<Rightarrow> string \<Rightarrow> int \<Rightarrow> 'w \<Rightarrow> (string, runnerFailure) result \<times> 'w" where
  "readRunnerFailure h parse path exitCode w =
     (case ho_open h (path @ ''.failure.json'') w of
        (Inl e, w') \<Rightarrow> (if e = OsNotExist \<and> exitCode \<noteq> FatalRunExitCode then Inr no_failure else Inl ''open'', w')
      | (Inr content, w') \<Rightarrow>
          ((case content of
              Inl _ \<Rightarrow> Inl ''read''
            | Inr body \<Rightarrow>
                if maxResultBytes < length body then Inl ''runner failure result is too large''
                else (case parse body of
                    None \<Rightarrow> Inl ''invalid runner failure result''
                  | Some r \<Rightarrow> if rf_exitCode r \<noteq> exitCode then Inl ''runner result exit differs from process exit'' else Inr r)), w'))"

section \<open>One invocation\<close>

text \<open>\<^verbatim>\<open>strings.TrimSpace\<close>: runes of Unicode's white space are cut from both ends.\<close>

function rune_chunks :: "string \<Rightarrow> (nat \<times> string) list" where
  "rune_chunks s =
     (if s = [] then []
      else (fst (decode_rune s), take (snd (decode_rune s)) s) # rune_chunks (drop (snd (decode_rune s)) s))"
  by pat_completeness auto
termination
proof (relation "measure length")
  fix s :: string
  assume "s \<noteq> []"
  then show "(drop (snd (decode_rune s)) s, s) \<in> measure length"
    using decode_rune_size[of s] by simp
qed simp

declare rune_chunks.simps [simp del]

definition white_space :: "nat \<Rightarrow> bool" where
  "white_space r =
     ((9 \<le> r \<and> r \<le> 13) \<or> (8192 \<le> r \<and> r \<le> 8202)
      \<or> r \<in> {32, 133, 160, 5760, 8232, 8233, 8239, 8287, 12288})"

definition TrimSpace :: "string \<Rightarrow> string" where
  "TrimSpace s =
     (let sp = (\<lambda>c. white_space (fst c))
      in concat (map snd (rev (dropWhile sp (rev (dropWhile sp (rune_chunks s)))))))"

text \<open>The outcome beside its monotonic duration, and the error.\<close>

type_synonym invoked = "(StepInvocationOutcome \<times> int) \<times> go_error option"

definition outcome_for :: "StepInvocationDescriptor \<Rightarrow> string \<Rightarrow> int \<Rightarrow> string \<Rightarrow> StepInvocationOutcome" where
  "outcome_for d status exitCode diagnostic =
     \<lparr>so_nodeID = ds_nodeID d, so_attempt = ds_attempt d, so_scope = ds_scope d, so_status = status, so_exitCode = exitCode,
      so_diagnostic = diagnostic, so_fatal = None, so_runnerMessage = [], so_timedOutAfter = 0\<rparr>"

definition infrastructureFailure :: "StepInvocationDescriptor \<Rightarrow> int \<Rightarrow> string \<Rightarrow> invoked" where
  "infrastructureFailure d duration e = ((outcome_for d StatusInfraFailed 1 [], duration), Some (plain_error e))"

definition exit_outcome ::
    "'w host \<Rightarrow> (bytes \<Rightarrow> runnerFailure option) \<Rightarrow> StepInvocationDescriptor \<Rightarrow> string \<Rightarrow> string \<Rightarrow> int \<Rightarrow> int \<Rightarrow> 'w \<Rightarrow> invoked \<times> 'w" where
  "exit_outcome h parse d path diagnostic duration exitCode w =
     (case (if (runnerExitDescriptorResolution \<le> exitCode \<and> exitCode \<le> runnerExitNonRetryable) \<or> exitCode = FatalRunExitCode
            then readRunnerFailure h parse path exitCode w else (Inr no_failure, w)) of
        (Inl e, w') \<Rightarrow> (infrastructureFailure d duration (''runner result: '' @ e), w')
      | (Inr result, w') \<Rightarrow>
          (if exitCode = runnerExitInfrastructure
           then infrastructureFailure d duration ''runner failed to publish its result''
           else (((outcome_for d StatusFailed exitCode diagnostic)
                  \<lparr>so_fatal := (if exitCode = FatalRunExitCode
                     then Some \<lparr>ff_message = rf_message result, ff_type = rf_type result, ff_node = ds_nodeID d\<rparr> else None),
                   so_runnerMessage := rf_message result\<rparr>, duration), None), w'))"

definition conclude ::
    "'w host \<Rightarrow> (bytes \<Rightarrow> runnerFailure option) \<Rightarrow> StepInvocation \<Rightarrow> string \<Rightarrow> process \<Rightarrow> int \<Rightarrow> 'w \<Rightarrow> invoked \<times> 'w" where
  "conclude h parse iv path p duration w =
     (let d = iv_descriptor iv; (captured, err) = Run_process p; diagnostic = TrimSpace captured in
      case err of
        None \<Rightarrow> (((outcome_for d StatusSucceeded 0 diagnostic, duration), None), w)
      | Some e \<Rightarrow>
          (let (over, w1) = ho_ended h w in
           if over then (((outcome_for d StatusCancelled (- 1) [], duration), Some ctx_error), w1)
           else let (late, w2) = ho_deadline h w1 in
           if late then ((((outcome_for d StatusFailed (- 1) diagnostic)\<lparr>so_timedOutAfter := iv_timeout iv\<rparr>, duration), None), w2)
           else case e of
             RunExit c \<Rightarrow> exit_outcome h parse d path diagnostic duration c w2
           | _ \<Rightarrow> (infrastructureFailure d duration ''invoke runner'', w2)))"

definition runner_argv :: "'w host \<Rightarrow> ProcessStepInvoker \<Rightarrow> StepInvocationDescriptor \<Rightarrow> string \<Rightarrow> (string, string list) result" where
  "runner_argv h i d path =
     (if pi_command i = []
      then bindE (DefaultRunnerCommand (ho_getenv h) (se_language (ds_symbol d))) (\<lambda>argv. Inr (substituteDescriptorPath argv path))
      else Inr (substituteDescriptorPath (pi_command i) path))"

definition invokeOne ::
    "'w host \<Rightarrow> number_printer \<Rightarrow> (bytes \<Rightarrow> runnerFailure option) \<Rightarrow> ProcessStepInvoker \<Rightarrow> string \<Rightarrow> StepInvocation \<Rightarrow> 'w \<Rightarrow> invoked \<times> 'w" where
  "invokeOne h f parse i dir iv w0 =
     (let d = iv_descriptor iv; infra = infrastructureFailure d 0 in
      case marshal_tree f (descriptor_json iv) of
        Inl _ \<Rightarrow> (infra ''marshal descriptor'', w0)
      | Inr body \<Rightarrow>
      (case descriptorFilePath dir d of
        Inl e \<Rightarrow> (infra e, w0)
      | Inr path \<Rightarrow>
      (case ho_mkdirAll h (filepath_Dir path) w0 of
        (Some _, w1) \<Rightarrow> (infra ''create descriptor scope directory'', w1)
      | (None, w1) \<Rightarrow>
      (case ho_writeFile h path body w1 of
        (Some _, w2) \<Rightarrow> (infra ''write descriptor'', w2)
      | (None, w2) \<Rightarrow>
      (case ho_remove h (path @ ''.failure.json'') w2 of (removed, w3) \<Rightarrow>
        if removed \<noteq> None \<and> removed \<noteq> Some OsNotExist then (infra ''clear runner failure result'', w3)
        else (case runner_argv h i d path of
            Inl _ \<Rightarrow> (infra ''build runner command'', w3)
          | Inr argv \<Rightarrow>
              (case ho_run h argv (pi_workingDir i) (iv_timeout iv) w3 of
                 ((p, duration), w4) \<Rightarrow> conclude h parse iv path p duration w4)))))))"

section \<open>Files of invocations\<close>

lemma clean_append:
  "clean_segments rt out (xs @ ys) = clean_segments rt (rev (clean_segments rt out xs)) ys"
  by (induction rt out xs rule: clean_segments.induct) auto

lemma clean_parts: "set (clean_segments rt out xs) \<subseteq> set out \<union> set xs"
proof (induction xs arbitrary: out)
  case (Cons s ss)
  have "set (tl out) \<subseteq> set out" by (cases out) auto
  then have "set (clean_segments rt (tl out) ss) \<subseteq> set out \<union> set ss" using Cons.IH[of "tl out"] by blast
  then show ?case using Cons.IH[of out] Cons.IH[of "s # out"] by auto
qed simp

lemma join_append:
  "ps \<noteq> [] \<Longrightarrow> qs \<noteq> [] \<Longrightarrow> join_with [slash] (ps @ qs) = join_with [slash] ps @ slash # join_with [slash] qs"
  by (induction ps rule: induct_list012) (auto simp: neq_Nil_conv)

lemma split_prefix:
  assumes "\<forall>s \<in> set ss. plain s" "ss \<noteq> []"
  shows "split_on slash (p @ slash # join_with [slash] ss) = split_on slash p @ ss"
proof -
  have "split_on slash (p @ slash # join_with [slash] ss) = split_on slash (join_with [slash] (split_on slash p @ ss))"
    using join_append[OF split_on_nonempty assms(2), of slash p] by (simp add: join_split)
  also have "\<dots> = split_on slash p @ ss"
    using assms by (intro split_join) (auto simp: plain_def dest: split_on_parts)
  finally show ?thesis .
qed

text \<open>Below a directory, safe segments are kept as they are.\<close>

definition under :: "string \<Rightarrow> string list \<Rightarrow> string list" where
  "under dir ss = clean_segments (dir \<noteq> [] \<and> hd dir = slash) [] (if dir = [] then [] else split_on slash dir) @ ss"

lemma under_parts: "x \<in> set (under dir ss) \<Longrightarrow> \<forall>s \<in> set ss. plain s \<Longrightarrow> slash \<notin> set x"
  using clean_parts[of "dir \<noteq> [] \<and> hd dir = slash" "[]" "split_on slash dir"] split_on_parts[of x slash dir]
  by (auto simp: under_def plain_def split: if_splits)

lemma joined_first: "plain s \<Longrightarrow> hd (join_with [slash] (s # ss)) \<noteq> slash \<and> join_with [slash] (s # ss) \<noteq> []"
  by (cases s; cases ss) (auto simp: plain_def bad_segment_def)

lemma Join_under:
  assumes "\<forall>s \<in> set ss. plain s" "ss \<noteq> []"
  shows "filepath_Join (dir # ss) = (if dir \<noteq> [] \<and> hd dir = slash then [slash] else []) @ join_with [slash] (under dir ss)"
proof -
  have good: "\<forall>s \<in> set ss. \<not> bad_segment s" "\<forall>s \<in> set ss. slash \<notin> set s" using assms(1) by (auto simp: plain_def)
  obtain s ss' where ss: "ss = s # ss'" using assms(2) by (cases ss) auto
  have f: "hd (join_with [slash] ss) \<noteq> slash" "join_with [slash] ss \<noteq> []" "s \<noteq> []"
    using joined_first[of s ss'] assms(1) ss by (auto simp: plain_def bad_segment_def)
  have ne: "join_with [slash] (xs @ ss) \<noteq> []" for xs
    using f(2) join_append[OF _ assms(2), of xs] by (cases "xs = []") auto
  show ?thesis
  proof (cases "dir = []")
    case True
    have "dropWhile (\<lambda>p. p = []) (dir # ss) = ss" using True ss f(3) by simp
    have "split_on slash (join_with [slash] ss) = ss" using good(2) by (intro split_join[OF assms(2)]) blast
    then have "path_Clean (join_with [slash] ss) = join_with [slash] ss"
      using f(1,2) clean_good[OF good(1), of False "[]"] by (simp add: path_Clean_def Let_def)
    then have "filepath_Join (dir # ss) = join_with [slash] ss"
      unfolding filepath_Join_def \<open>dropWhile _ _ = ss\<close> using ss by simp
    then show ?thesis using True by (simp add: under_def)
  next
    case False
    have d: "dropWhile (\<lambda>p. p = []) (dir # ss) = dir # ss" "join_with [slash] (dir # ss) = dir @ slash # join_with [slash] ss"
      using False ss by auto
    have "clean_segments r [] (split_on slash dir @ ss) = clean_segments r [] (split_on slash dir) @ ss" for r
      using clean_good[OF good(1), of r] by (simp add: clean_append)
    then show ?thesis
      using False split_prefix[OF assms, of dir] ne by (simp add: filepath_Join_def d path_Clean_def under_def Let_def)
  qed
qed

lemma Join_inject:
  assumes "\<forall>s \<in> set ss. plain s" "ss \<noteq> []" "\<forall>s \<in> set ts. plain s" "ts \<noteq> []"
    and "filepath_Join (dir # ss) = filepath_Join (dir # ts)"
  shows "ss = ts"
proof -
  have split: "split_on slash (join_with [slash] (under dir xs)) = under dir xs" if xs: "\<forall>s \<in> set xs. plain s" "xs \<noteq> []" for xs
  proof (rule split_join)
    show "under dir xs \<noteq> []" using xs(2) by (simp add: under_def)
    show "slash \<notin> set p" if "p \<in> set (under dir xs)" for p using under_parts[OF that xs(1)] .
  qed
  have "join_with [slash] (under dir ss) = join_with [slash] (under dir ts)"
    using assms(5) unfolding Join_under[OF assms(1,2)] Join_under[OF assms(3,4)] by (simp only: same_append_eq)
  then have "under dir ss = under dir ts" using split[OF assms(1,2)] split[OF assms(3,4)] by metis
  then show ?thesis by (simp add: under_def)
qed

lemma frames_inject:
  assumes "concat (map (\<lambda>fr. [''maps'', sf_map fr, ''items'', dec_int (sf_index fr)]) fs) @ xs
      = concat (map (\<lambda>fr. [''maps'', sf_map fr, ''items'', dec_int (sf_index fr)]) gs) @ ys"
    and "length xs = 1" "length ys = 1" "list_all valid_frame fs" "list_all valid_frame gs"
  shows "fs = gs \<and> xs = ys"
  using assms
proof (induction fs arbitrary: gs)
  case Nil
  then show ?case by (cases gs) auto
next
  case (Cons f fs)
  then obtain g gs' where gs: "gs = g # gs'" by (cases gs) auto
  then have fg: "sf_map f = sf_map g" "sf_index f = sf_index g" "sf_kind f = sf_kind g"
    using Cons.prems by (simp_all add: valid_frame_def)
  have "f = g" by (rule MapItemScopeFrame.equality) (simp_all add: fg)
  moreover have "fs = gs' \<and> xs = ys" by (rule Cons.IH) (use Cons.prems gs in simp_all)
  ultimately show ?case using gs by simp
qed

lemma identity_valid:
  "validateDescriptorFileIdentity d = None \<longleftrightarrow>
     ValidSafePathSegment (ds_runID d) \<and> ValidSafePathSegment (ds_nodeID d) \<and> 1 \<le> ds_attempt d \<and> ds_attempt d \<le> MaxJSONSafeInteger
     \<and> (\<forall>fs. ds_scope d = Some fs \<longrightarrow> fs \<noteq> [] \<and> list_all valid_frame fs)"
  by (auto simp: validateDescriptorFileIdentity_def ValidateExecutionScope_def split: option.splits)

lemma parts_plain: "validateDescriptorFileIdentity d = None \<Longrightarrow> \<forall>s \<in> set (descriptor_parts d). plain s"
  using safe_plain literal_plain dec_int_plain
  by (cases "ds_scope d") (auto simp: identity_valid descriptor_parts_def valid_frame_def safe_segment list_all_iff)

text \<open>Which invocation a file belongs to.\<close>

definition same_invocation :: "StepInvocationDescriptor \<Rightarrow> StepInvocationDescriptor \<Rightarrow> bool" where
  "same_invocation d e =
     (ds_runID d = ds_runID e \<and> ds_nodeID d = ds_nodeID e \<and> ds_scope d = ds_scope e \<and> ds_attempt d = ds_attempt e)"

lemma parts_inject:
  assumes "validateDescriptorFileIdentity d = None" "validateDescriptorFileIdentity e = None"
  shows "descriptor_parts d = descriptor_parts e \<longleftrightarrow> same_invocation d e"
proof
  assume eq: "descriptor_parts d = descriptor_parts e"
  show "same_invocation d e"
  proof (cases "ds_scope d"; cases "ds_scope e")
    fix fs gs assume s: "ds_scope d = Some fs" "ds_scope e = Some gs"
    then have "concat (map (\<lambda>fr. [''maps'', sf_map fr, ''items'', dec_int (sf_index fr)]) fs) @ [dec_int (ds_attempt d) @ ''.json'']
      = concat (map (\<lambda>fr. [''maps'', sf_map fr, ''items'', dec_int (sf_index fr)]) gs) @ [dec_int (ds_attempt e) @ ''.json'']"
      using eq by (simp add: descriptor_parts_def)
    then have "fs = gs \<and> [dec_int (ds_attempt d) @ ''.json''] = [dec_int (ds_attempt e) @ ''.json'']"
      using assms s by (intro frames_inject) (auto simp: identity_valid)
    then show ?thesis using eq s by (simp add: descriptor_parts_def same_invocation_def)
  qed (use eq in \<open>auto simp: descriptor_parts_def same_invocation_def\<close>)
qed (simp add: descriptor_parts_def same_invocation_def)

lemma failure_name:
  assumes "ps \<noteq> []"
  shows "join_with [slash] ps @ x = join_with [slash] (butlast ps @ [last ps @ x])"
  using assms by (induction ps rule: induct_list012) auto

lemma attempt_names: "dec_int a @ ''.json'' \<noteq> dec_int b @ ''.json.failure.json''"
proof
  assume eq: "dec_int a @ ''.json'' = dec_int b @ ''.json.failure.json''"
  have "CHR ''.'' \<notin> set (dec_int i)" for i by (simp add: dec_int_def dec_nat_fresh is_digit_def)
  then have "takeWhile (\<lambda>c. c \<noteq> CHR ''.'') (dec_int i @ CHR ''.'' # xs) = dec_int i" for i xs
    by (induction "dec_int i" arbitrary: i) (auto simp: takeWhile_append)
  from this[of a "''json''"] this[of b "''json.failure.json''"] eq have "dec_int a = dec_int b" by simp
  then show False using eq by simp
qed

text \<open>
  C36. Invocations that run side by side never share a file: below one directory the descriptors of two
  invocations have the same file exactly when they agree in run, node, scope and attempt, and no invocation's failure
  file is another's descriptor.
\<close>

theorem descriptor_files_distinct:
  assumes "descriptorFilePath dir d = Inr p" "descriptorFilePath dir e = Inr q"
  shows "(p = q \<longleftrightarrow> same_invocation d e) \<and> p \<noteq> q @ ''.failure.json''"
proof -
  have d: "validateDescriptorFileIdentity d = None" "p = filepath_Join (dir # descriptor_parts d)"
    and e: "validateDescriptorFileIdentity e = None" "q = filepath_Join (dir # descriptor_parts e)"
    using assms by (auto simp: descriptorFilePath_def split: option.splits)
  note pd = parts_plain[OF d(1)] and pe = parts_plain[OF e(1)]
  have ne: "descriptor_parts x \<noteq> []" for x by (simp add: descriptor_parts_def)
  have "p = q \<longleftrightarrow> same_invocation d e"
    using Join_inject[OF pd ne pe ne, of dir] parts_inject[OF d(1) e(1)] d(2) e(2) by auto
  moreover have "p \<noteq> q @ ''.failure.json''"
  proof
    assume eq: "p = q @ ''.failure.json''"
    let ?fail = "butlast (descriptor_parts e) @ [last (descriptor_parts e) @ ''.failure.json'']"
    have last: "last (descriptor_parts x) = dec_int (ds_attempt x) @ ''.json''" for x by (simp add: descriptor_parts_def)
    have fail: "\<forall>s \<in> set ?fail. plain s"
      using pe ne[of e] dec_int_plain(1)[of "ds_attempt e"]
      by (auto simp: last plain_def bad_segment_def append_eq_Cons_conv dest: in_set_butlastD)
    have "under dir (descriptor_parts e) \<noteq> []" using ne by (simp add: under_def)
    from failure_name[OF this, of "''.failure.json''"]
    have "q @ ''.failure.json'' = filepath_Join (dir # ?fail)"
      unfolding e(2) Join_under[OF pe ne] using Join_under[OF fail] ne[of e] by (simp add: under_def butlast_append)
    then have "descriptor_parts d = ?fail" using Join_inject[OF pd ne fail, of dir] eq d(2) by simp
    then have "last (descriptor_parts d) = last (descriptor_parts e) @ ''.failure.json''" by simp
    then show False using attempt_names by (simp add: last)
  qed
  ultimately show ?thesis by blast
qed

section \<open>What an outcome says\<close>

text \<open>The published schema (\<^verbatim>\<open>runner-failure.schema.json\<close>); lengths count code points.\<close>

definition valid_runner_failure :: "runnerFailure \<Rightarrow> bool" where
  "valid_runner_failure r =
     (rf_exitCode r \<in> {64, 65, 66, 67, 69} \<and> length (runes (rf_message r)) \<le> 1024 \<and> length (runes (rf_type r)) \<le> 64
      \<and> (rf_exitCode r \<noteq> 69 \<longrightarrow> rf_type r = []))"

definition identifies :: "StepInvocationOutcome \<Rightarrow> StepInvocationDescriptor \<Rightarrow> bool" where
  "identifies oc d = (so_nodeID oc = ds_nodeID d \<and> so_attempt oc = ds_attempt d \<and> so_scope oc = ds_scope d)"

text \<open>How status, exit code, error and fatal cause fit together.\<close>

definition fitting :: "StepInvocationDescriptor \<Rightarrow> StepInvocationOutcome \<Rightarrow> go_error option \<Rightarrow> bool" where
  "fitting d oc err =
     (identifies oc d
      \<and> (case err of
           None \<Rightarrow> so_status oc = StatusSucceeded \<and> so_exitCode oc = 0 \<and> so_fatal oc = None
             \<or> so_status oc = StatusFailed \<and> so_exitCode oc \<noteq> runnerExitInfrastructure
         | Some e \<Rightarrow> quiet e \<and> so_fatal oc = None \<and> so_runnerMessage oc = [] \<and> so_timedOutAfter oc = 0
             \<and> (so_status oc = StatusInfraFailed \<and> so_exitCode oc = 1
                \<or> so_status oc = StatusCancelled \<and> so_exitCode oc = - 1 \<and> e = ctx_error))
      \<and> (so_timedOutAfter oc \<noteq> 0 \<longrightarrow> so_exitCode oc = - 1 \<and> so_status oc = StatusFailed)
      \<and> (so_fatal oc \<noteq> None \<longleftrightarrow> so_exitCode oc = FatalRunExitCode)
      \<and> (\<forall>x. so_fatal oc = Some x \<longrightarrow> so_status oc = StatusFailed \<and> ff_node x = ds_nodeID d
            \<and> length (runes (ff_message x)) \<le> 1024 \<and> length (runes (ff_type x)) \<le> 64)
      \<and> length (runes (so_runnerMessage oc)) \<le> 1024)"

lemma outcome_for_simps [simp]:
  "so_nodeID (outcome_for d s c g) = ds_nodeID d" "so_attempt (outcome_for d s c g) = ds_attempt d"
  "so_scope (outcome_for d s c g) = ds_scope d" "so_status (outcome_for d s c g) = s" "so_exitCode (outcome_for d s c g) = c"
  "so_fatal (outcome_for d s c g) = None" "so_runnerMessage (outcome_for d s c g) = []" "so_timedOutAfter (outcome_for d s c g) = 0"
  by (simp_all add: outcome_for_def)

lemma fitting_infrastructure: "infrastructureFailure d t e = ((oc, t'), err) \<Longrightarrow> fitting d oc err"
  by (auto simp: infrastructureFailure_def fitting_def identifies_def)

lemma readRunnerFailure_result:
  assumes "\<And>b r. parse b = Some r \<Longrightarrow> valid_runner_failure r" "readRunnerFailure h parse path c w = (Inr r, w')"
  shows "length (runes (rf_message r)) \<le> 1024 \<and> length (runes (rf_type r)) \<le> 64"
  using assms unfolding readRunnerFailure_def
  by (fastforce simp: no_failure_def valid_runner_failure_def split: prod.splits sum.splits option.splits if_splits)

lemma fitting_exit:
  assumes p: "\<And>b r. parse b = Some r \<Longrightarrow> valid_runner_failure r"
    and x: "exit_outcome h parse d path g t c w = (((oc, t'), err), w')"
  shows "fitting d oc err"
proof -
  let ?r = "if (runnerExitDescriptorResolution \<le> c \<and> c \<le> runnerExitNonRetryable) \<or> c = FatalRunExitCode
            then readRunnerFailure h parse path c w else (Inr no_failure, w)"
  obtain res w1 where r: "?r = (res, w1)" by (cases ?r)
  show ?thesis
  proof (cases res)
    case (Inl e)
    then show ?thesis using x r by (auto simp: exit_outcome_def dest: fitting_infrastructure)
  next
    case (Inr result)
    have b: "length (runes (rf_message result)) \<le> 1024 \<and> length (runes (rf_type result)) \<le> 64"
      using r Inr readRunnerFailure_result[OF p, where h = h and path = path and c = c and w = w and r = result and w' = w1] by (auto simp: no_failure_def split: if_splits)
    show ?thesis
    proof (cases "c = runnerExitInfrastructure")
      case True
      then show ?thesis using x r Inr by (auto simp: exit_outcome_def dest: fitting_infrastructure)
    next
      case False
      then show ?thesis using x r Inr b by (auto simp: exit_outcome_def fitting_def identifies_def split: if_splits)
    qed
  qed
qed

lemma fitting_conclude:
  assumes p: "\<And>b r. parse b = Some r \<Longrightarrow> valid_runner_failure r"
    and x: "conclude h parse iv path ps t w = (((oc, t'), err), w')"
  shows "fitting (iv_descriptor iv) oc err"
proof (cases "RunTo ps")
  case None
  then show ?thesis using x by (auto simp: conclude_def Run_process_def fitting_def identifies_def)
next
  case (Some e)
  obtain over w1 where c: "ho_ended h w = (over, w1)" by (cases "ho_ended h w")
  obtain late w2 where l: "ho_deadline h w1 = (late, w2)" by (cases "ho_deadline h w1")
  consider "over" | "\<not> over" "late" | "\<not> over" "\<not> late" by blast
  then show ?thesis
  proof cases
    case 3
    then show ?thesis
      using x Some c l fitting_exit[OF p] fitting_infrastructure
      by (cases e) (auto simp: conclude_def Run_process_def)
  qed (use x Some c l in \<open>auto simp: conclude_def Run_process_def fitting_def identifies_def ctx_error_def\<close>)
qed

lemma invokeOne_fitting:
  assumes p: "\<And>b r. parse b = Some r \<Longrightarrow> valid_runner_failure r"
    and x: "invokeOne h f parse i dir iv w = (((oc, t), err), w')"
  shows "fitting (iv_descriptor iv) oc err"
  using x fitting_conclude[OF p] fitting_infrastructure unfolding invokeOne_def Let_def
  by (auto split: sum.splits prod.splits option.splits if_splits)

lemma invokeOne_fatal_safe:
  assumes "invokeOne h f parse i dir iv w = (((oc, t), err), w')" "so_fatal oc = Some x"
  shows "ValidSafePathSegment (ds_nodeID (iv_descriptor iv))"
proof -
  have "descriptorFilePath dir (iv_descriptor iv) \<noteq> Inl e" for e
    using assms unfolding invokeOne_def Let_def
    by (auto simp: infrastructureFailure_def split: sum.splits)
  then have "validateDescriptorFileIdentity (iv_descriptor iv) = None"
    by (cases "validateDescriptorFileIdentity (iv_descriptor iv)") (auto simp: descriptorFilePath_def)
  then show ?thesis by (simp add: identity_valid)
qed

text \<open>
  C35. An invocation keeps the contract that the executor, the retry policy and the observers rely on: its
  outcome names the descriptor it ran; an error comes only with failed infrastructure or a cancelled context and is
  never fatal; a timeout has a negative exit code; a fatal cause comes exactly with the fatal exit code, names the
  node and satisfies the published bounds, so that the fatal signal can carry it.
\<close>

theorem invokeOne_contract:
  assumes "\<And>b r. parse b = Some r \<Longrightarrow> valid_runner_failure r" "invokeOne h f parse i dir iv w = (((oc, t), err), w')"
  shows "fitting (iv_descriptor iv) oc err \<and> (\<forall>x. so_fatal oc = Some x \<longrightarrow> valid_fatal x)"
  using invokeOne_fitting[OF assms] invokeOne_fatal_safe[OF assms(2)]
  by (auto simp: fitting_def valid_fatal_def safe_segment)

section \<open>An example\<close>

lemma canonizes_any:
  "list_all (\<lambda>t. \<exists>u. canonizes f t u) ts \<Longrightarrow> \<exists>u. canonizes f (JArr ts) u"
  "list_all (\<lambda>m. \<exists>u. canonizes f (snd m) u) ms \<Longrightarrow> \<exists>u. canonizes f (JObj ms) u"
proof -
  assume "list_all (\<lambda>t. \<exists>u. canonizes f t u) ts"
  then have "\<exists>us. list_all2 (canonizes f) ts us"
    by (induction ts) (auto intro: list_all2_Cons[THEN iffD2])
  then show "\<exists>u. canonizes f (JArr ts) u" using canonizes_array by blast
next
  assume "list_all (\<lambda>m. \<exists>u. canonizes f (snd m) u) ms"
  then have "\<exists>us. list_all2 (\<lambda>x y. fst x = fst y \<and> canonizes f (snd x) (snd y)) ms us"
  proof (induction ms)
    case (Cons m ms)
    then obtain u us where "canonizes f (snd m) u" "list_all2 (\<lambda>x y. fst x = fst y \<and> canonizes f (snd x) (snd y)) ms us" by auto
    then have "list_all2 (\<lambda>x y. fst x = fst y \<and> canonizes f (snd x) (snd y)) (m # ms) ((fst m, u) # us)" by simp
    then show ?case by blast
  qed (rule exI[of _ "[]"], simp)
  then show "\<exists>u. canonizes f (JObj ms) u" using canonizes_object by blast
qed

definition example_step :: "int \<Rightarrow> StepInvocation" where
  "example_step n =
     \<lparr>iv_descriptor =
        \<lparr>ds_planHash = ''h'', ds_projectKey = ''p'', ds_runID = example_run, ds_nodeID = ''x'', ds_attempt = n, ds_maxAttempts = 3,
         ds_scope = None,
         ds_symbol = \<lparr>se_symbolRef = ''s'', se_packageId = ''k'', se_language = ''python'', se_module = ''m'', se_export = ''e''\<rparr>,
         ds_sourcePackage = \<lparr>pa_packageID = ''k'', pa_language = ''python'', pa_packageHash = ''h'', pa_key = ''b'', pa_archiveHash = ''h'',
           pa_contentType = ''t''\<rparr>,
         ds_environmentRef = ''v'', ds_input = \<lparr>da_key = ''i'', da_hash = ''h'', da_contentType = ''t'', da_schema = ''h''\<rparr>,
         ds_outputManifestKey = ''o'', ds_outputSchema = ''h''\<rparr>,
      iv_binding = LocalDatastoreDescriptor ''/d'', iv_timeout = 0\<rparr>"

lemma example_identity: "1 \<le> n \<Longrightarrow> n \<le> 3 \<Longrightarrow> validateDescriptorFileIdentity (iv_descriptor (example_step n)) = None"
  using example_segments by (simp add: identity_valid example_step_def MaxJSONSafeInteger_def)

lemma example_path:
  assumes "1 \<le> n" "n \<le> 3"
  shows "\<exists>p. descriptorFilePath dir (iv_descriptor (example_step n)) = Inr p"
  using example_identity[OF assms] by (simp add: descriptorFilePath_def)

theorem descriptor_files_distinct_witness:
  "\<exists>p q. descriptorFilePath ''/tmp'' (iv_descriptor (example_step 1)) = Inr p \<and> descriptorFilePath ''/tmp'' (iv_descriptor (example_step 2)) = Inr q
     \<and> p \<noteq> q \<and> p \<noteq> q @ ''.failure.json''"
proof -
  obtain p q where e: "descriptorFilePath ''/tmp'' (iv_descriptor (example_step 1)) = Inr p"
    "descriptorFilePath ''/tmp'' (iv_descriptor (example_step 2)) = Inr q"
    using example_path[of 1] example_path[of 2] by fastforce
  show ?thesis using descriptor_files_distinct[OF e] e by (auto simp: same_invocation_def example_step_def)
qed

lemma print_small: "0 \<le> n \<Longrightarrow> n \<le> 3 \<Longrightarrow> \<exists>u. canonizes print_integer (JNum (dec_int n)) u"
  using canonizes_basic(2)[of print_integer n] print_integer_exact by (auto simp: MaxJSONSafeInteger_def)

lemma small_numbers: "dec_int 1 = ''1''" "dec_int 3 = ''3''"
  by (simp_all add: dec_int_def dec_nat.simps digit_char_def char_of_def bit_0 bit_Suc)

lemma example_marshals: "\<exists>b. marshal_tree print_integer (descriptor_json (example_step 1)) = Inr b"
proof -
  let ?t = "descriptor_json (example_step 1)"
  have n: "\<exists>u. canonizes print_integer (JNum ''1'') u" "\<exists>u. canonizes print_integer (JNum ''3'') u"
    using print_small[of 1] print_small[of 3] by (simp_all add: small_numbers)
  have str: "\<exists>u. canonizes print_integer (JStr t) u" for t using canonizes_basic(1) by blast
  have "\<exists>u. canonizes print_integer ?t u"
    unfolding descriptor_json_def Let_def
    by (rule canonizes_any(2))
      (simp add: example_step_def artifact_json_def n small_numbers canonizes_any(2) str)
  then obtain v u where v: "decodeNumbers print_integer ?t = Inr v" "canon print_integer v = Inr u" by (auto simp: canonizes_def)
  have "read_json (text_of ?t) = Some ?t"
    by (rule read_text_of)
      (auto simp: descriptor_json_def example_step_def artifact_json_def small_numbers valid_utf8_ascii example_run_def max_nesting_def
        json_number_def num_int_def strip_minus_def num_frac_def num_exp_def is_digit_def)
  then show ?thesis using v unfolding marshal_tree_def CanonicalizeJSON_Inr decodeJSON_def by auto
qed

definition example_host :: "unit host" where
  "example_host = \<lparr>ho_getenv = (\<lambda>_. []), ho_mkdirAll = (\<lambda>_ w. (None, w)),
     ho_writeFile = (\<lambda>_ _ w. (None, w)), ho_remove = (\<lambda>_ w. (Some OsNotExist, w)), ho_open = (\<lambda>_ w. (Inr (Inr []), w)),
     ho_run = (\<lambda>_ _ _ w. ((\<lparr>ps_ownFails = False, ps_startFails = False, ps_startEnded = False, ps_wait = WaitExit 69, ps_waitEnded = False,
        ps_chunks = []\<rparr>, 7), w)), ho_ended = (\<lambda>w. (False, w)), ho_deadline = (\<lambda>w. (False, w))\<rparr>"

definition example_invoker :: ProcessStepInvoker where
  "example_invoker = \<lparr>pi_command = [''runner''], pi_workingDir = [], pi_descriptorDir = ''/tmp'', pi_processLimit = 0\<rparr>"

definition example_failure :: runnerFailure where
  "example_failure = \<lparr>rf_exitCode = 69, rf_message = ''m'', rf_type = ''t''\<rparr>"

lemma example_invocation:
  "\<exists>oc. invokeOne example_host print_integer (\<lambda>_. Some example_failure) example_invoker ''/tmp'' (example_step 1) () = (((oc, 7), None), ())
     \<and> so_fatal oc = Some \<lparr>ff_message = ''m'', ff_type = ''t'', ff_node = ''x''\<rparr>"
proof -
  obtain b where b: "marshal_tree print_integer (descriptor_json (example_step 1)) = Inr b" using example_marshals by blast
  obtain path where path: "descriptorFilePath ''/tmp'' (iv_descriptor (example_step 1)) = Inr path" using example_path[of 1] by fastforce
  have node: "ds_nodeID (iv_descriptor (example_step 1)) = ''x''" by (simp add: example_step_def)
  show ?thesis
    unfolding invokeOne_def Let_def b path sum.case
    by (simp add: example_host_def example_invoker_def runner_argv_def conclude_def Run_process_def RunTo_def exit_outcome_def readRunnerFailure_def
        maxResultBytes_def example_failure_def node)
qed

theorem invokeOne_contract_witness:
  "\<exists>oc t x. invokeOne example_host print_integer (\<lambda>_. Some example_failure) example_invoker ''/tmp'' (example_step 1) () = (((oc, t), None), ())
     \<and> so_fatal oc = Some x \<and> valid_fatal x \<and> fitting (iv_descriptor (example_step 1)) oc None"
proof -
  obtain oc x where x: "invokeOne example_host print_integer (\<lambda>_. Some example_failure) example_invoker ''/tmp'' (example_step 1) () = (((oc, 7), None), ())"
    "so_fatal oc = Some x" using example_invocation by blast
  have "valid_runner_failure r" if "(\<lambda>_. Some example_failure) b = Some r" for b :: bytes and r
    using that by (auto simp: valid_runner_failure_def example_failure_def runes_ascii)
  from invokeOne_contract[OF this x(1)] show ?thesis using x by blast
qed

end
