(* ===== verification/Pool.thy ===== *)
theory Pool
  imports Invoker
begin

text \<open>
  A batch of invocations (\<^verbatim>\<open>ProcessStepInvoker.InvokeSteps\<close>): the checks before it, and its pool of workers as a
  step relation. A dispatcher hands indices over an unbuffered channel; workers, the dispatcher and the end of the
  caller's context take their steps in any order. What an invocation returns is a relation, since it depends on the
  moment it runs.
\<close>

section \<open>Before the batch\<close>

record StepInvocationBatch =
  ba_steps :: "StepInvocation list"
  ba_maxConcurrency :: int

definition descriptor_producer :: "StepInvocationDescriptor \<Rightarrow> Producer" where
  "descriptor_producer d =
     \<lparr>pr_projectKey = ds_projectKey d, pr_planHash = ds_planHash d, pr_runID = ds_runID d, pr_nodeID = ds_nodeID d,
      pr_attempt = ds_attempt d, pr_scope = ds_scope d\<rparr>"

definition check_invocation :: "StepInvocation \<Rightarrow> string option" where
  "check_invocation iv =
     (let d = iv_descriptor iv in
      case validateDescriptorFileIdentity d of
        Some e \<Rightarrow> Some e
      | None \<Rightarrow>
        (case ParseKey (ds_outputManifestKey d) of
           Inl _ \<Rightarrow> Some ''invalid descriptor output manifest key''
         | Inr key \<Rightarrow>
             (case ValidateDestination \<lparr>dt_manifestKey = key, dt_schema = ds_outputSchema d\<rparr> (descriptor_producer d) of
                Some _ \<Rightarrow> Some ''invalid descriptor output destination''
              | None \<Rightarrow> None)))"

definition first_invalid :: "StepInvocation list \<Rightarrow> string option" where
  "first_invalid ivs = (case find (\<lambda>iv. check_invocation iv \<noteq> None) ivs of None \<Rightarrow> None | Some iv \<Rightarrow> check_invocation iv)"

definition defaultLocalProcessConcurrency :: int where
  "defaultLocalProcessConcurrency = 32"

definition pool_size :: "int \<Rightarrow> int \<Rightarrow> nat \<Rightarrow> nat" where
  "pool_size wanted processLimit n =
     (let c = (if wanted \<le> 0 \<or> int n < wanted then int n else wanted);
          limit = (if processLimit \<le> 0 then defaultLocalProcessConcurrency else processLimit)
      in nat (if limit < c then limit else c))"

section \<open>The pool\<close>

text \<open>
  A worker waits, holds an index it received, has found the batch context live, runs the invocation, has reported
  its outcome but not yet acted on a failure, or has returned.
\<close>

datatype worker = Idle | Holding nat | Cleared nat | Running nat | Reported "go_error option" | Exited

datatype callback = Began nat | Ended nat "StepInvocationOutcome \<times> int"

record pool =
  pl_next :: nat
  pl_open :: bool
  pl_workers :: "worker list"
  pl_started :: "bool list"
  pl_outcomes :: "(StepInvocationOutcome \<times> int) option list"
  pl_first :: "go_error option"
  pl_cancelled :: bool
  pl_parent :: bool
  pl_log :: "callback list"

definition pool_init :: "nat \<Rightarrow> nat \<Rightarrow> bool \<Rightarrow> pool" where
  "pool_init n m ended =
     \<lparr>pl_next = 0, pl_open = True, pl_workers = replicate m Idle, pl_started = replicate n False,
      pl_outcomes = replicate n None, pl_first = None, pl_cancelled = ended, pl_parent = ended, pl_log = []\<rparr>"

text \<open>An outcome with a fatal cause replaces the invocation's error.\<close>

definition invocation_failure :: "invoked \<Rightarrow> go_error option" where
  "invocation_failure r = (case so_fatal (fst (fst r)) of Some x \<Rightarrow> Some (fatal_error x) | None \<Rightarrow> snd r)"

definition report :: "nat \<Rightarrow> nat \<Rightarrow> invoked \<Rightarrow> pool \<Rightarrow> pool" where
  "report w i r s =
     s\<lparr>pl_workers := (pl_workers s)[w := Reported (invocation_failure r)], pl_outcomes := (pl_outcomes s)[i := Some (fst r)],
       pl_log := pl_log s @ [Ended i (fst r)]\<rparr>"

definition act_on :: "nat \<Rightarrow> go_error option \<Rightarrow> pool \<Rightarrow> pool" where
  "act_on w failure s =
     s\<lparr>pl_workers := (pl_workers s)[w := Idle], pl_first := (if pl_first s = None then failure else pl_first s),
       pl_cancelled := (pl_cancelled s \<or> failure \<noteq> None)\<rparr>"

definition begin_step :: "nat \<Rightarrow> nat \<Rightarrow> pool \<Rightarrow> pool" where
  "begin_step w i s =
     s\<lparr>pl_workers := (pl_workers s)[w := Running i], pl_started := (pl_started s)[i := True], pl_log := pl_log s @ [Began i]\<rparr>"

definition set_worker :: "nat \<Rightarrow> worker \<Rightarrow> pool \<Rightarrow> pool" where
  "set_worker w v s = s\<lparr>pl_workers := (pl_workers s)[w := v]\<rparr>"

inductive pool_step :: "(nat \<Rightarrow> invoked \<Rightarrow> bool) \<Rightarrow> pool \<Rightarrow> pool \<Rightarrow> bool" for results where
  hand: "pl_open s \<Longrightarrow> pl_next s < length (pl_started s) \<Longrightarrow> w < length (pl_workers s) \<Longrightarrow> pl_workers s ! w = Idle \<Longrightarrow>
    pool_step results s (set_worker w (Holding (pl_next s)) (s\<lparr>pl_next := Suc (pl_next s)\<rparr>))"
| stop: "pl_open s \<Longrightarrow> pl_next s < length (pl_started s) \<Longrightarrow> pl_cancelled s \<Longrightarrow> pool_step results s (s\<lparr>pl_open := False\<rparr>)"
| close: "pl_open s \<Longrightarrow> pl_next s = length (pl_started s) \<Longrightarrow> pool_step results s (s\<lparr>pl_open := False\<rparr>)"
| leave: "w < length (pl_workers s) \<Longrightarrow> pl_workers s ! w = Idle \<Longrightarrow> pl_cancelled s \<or> \<not> pl_open s \<Longrightarrow>
    pool_step results s (set_worker w Exited s)"
| drop: "w < length (pl_workers s) \<Longrightarrow> pl_workers s ! w = Holding i \<Longrightarrow> pl_cancelled s \<Longrightarrow> pool_step results s (set_worker w Exited s)"
| clear: "w < length (pl_workers s) \<Longrightarrow> pl_workers s ! w = Holding i \<Longrightarrow> \<not> pl_cancelled s \<Longrightarrow>
    pool_step results s (set_worker w (Cleared i) s)"
| start: "w < length (pl_workers s) \<Longrightarrow> pl_workers s ! w = Cleared i \<Longrightarrow> pool_step results s (begin_step w i s)"
| return: "w < length (pl_workers s) \<Longrightarrow> pl_workers s ! w = Running i \<Longrightarrow> results i r \<Longrightarrow> pool_step results s (report w i r s)"
| settle: "w < length (pl_workers s) \<Longrightarrow> pl_workers s ! w = Reported failure \<Longrightarrow> pool_step results s (act_on w failure s)"
| ended: "\<not> pl_parent s \<Longrightarrow> pool_step results s (s\<lparr>pl_parent := True, pl_cancelled := True\<rparr>)"

definition pool_reachable :: "(nat \<Rightarrow> invoked \<Rightarrow> bool) \<Rightarrow> nat \<Rightarrow> nat \<Rightarrow> pool \<Rightarrow> bool" where
  "pool_reachable results n m s = (\<exists>b. (pool_step results)\<^sup>*\<^sup>* (pool_init n m b) s)"

text \<open>\<^verbatim>\<open>group.Wait\<close> returns when every worker has left and the dispatcher has closed the channel.\<close>

definition pool_done :: "pool \<Rightarrow> bool" where
  "pool_done s = (\<not> pl_open s \<and> list_all (\<lambda>w. w = Exited) (pl_workers s))"

text \<open>A started index whose outcome is missing cannot be left behind; the zero outcome is what the slice would hold.\<close>

definition zero_outcome :: StepInvocationOutcome where
  "zero_outcome = \<lparr>so_nodeID = [], so_attempt = 0, so_scope = None, so_status = [], so_exitCode = 0, so_diagnostic = [],
     so_fatal = None, so_runnerMessage = [], so_timedOutAfter = 0\<rparr>"

definition pool_completed :: "pool \<Rightarrow> StepInvocationOutcome list" where
  "pool_completed s =
     map (\<lambda>(_, oc). case oc of None \<Rightarrow> zero_outcome | Some r \<Rightarrow> fst r) (filter fst (zip (pl_started s) (pl_outcomes s)))"

definition pool_error :: "pool \<Rightarrow> go_error option" where
  "pool_error s = (case pl_first s of Some e \<Rightarrow> Some e | None \<Rightarrow> if pl_parent s then Some ctx_error else None)"

text \<open>
  \<^verbatim>\<open>InvokeSteps\<close> as a relation between a batch and what it returns: nothing for an empty batch, an error before any
  effect for an invalid descriptor, an error when the descriptor directory cannot be made, and otherwise what the pool
  has when it is done. The directory is the configured one or a fresh one, whatever its name. \<open>invoke\<close> is \<^const>\<open>invokeOne\<close> at some moment.
\<close>

inductive InvokeSteps ::
    "(string \<Rightarrow> StepInvocation \<Rightarrow> invoked \<Rightarrow> bool) \<Rightarrow> ProcessStepInvoker \<Rightarrow> StepInvocationBatch
      \<Rightarrow> StepInvocationOutcome list \<Rightarrow> go_error option \<Rightarrow> bool" for invoke i batch where
  empty: "ba_steps batch = [] \<Longrightarrow> InvokeSteps invoke i batch [] None"
| invalid: "ba_steps batch \<noteq> [] \<Longrightarrow> first_invalid (ba_steps batch) = Some e \<Longrightarrow> InvokeSteps invoke i batch [] (Some (plain_error e))"
| unmade: "ba_steps batch \<noteq> [] \<Longrightarrow> first_invalid (ba_steps batch) = None \<Longrightarrow>
    InvokeSteps invoke i batch [] (Some (plain_error ''create descriptor directory''))"
| pooled: "ba_steps batch \<noteq> [] \<Longrightarrow> first_invalid (ba_steps batch) = None \<Longrightarrow> (pi_descriptorDir i \<noteq> [] \<longrightarrow> dir = pi_descriptorDir i) \<Longrightarrow>
    pool_reachable (\<lambda>k. invoke dir (ba_steps batch ! k)) (length (ba_steps batch))
      (pool_size (ba_maxConcurrency batch) (pi_processLimit i) (length (ba_steps batch))) s \<Longrightarrow>
    pool_done s \<Longrightarrow> InvokeSteps invoke i batch (pool_completed s) (pool_error s)"

section \<open>The invariant of the pool\<close>

fun held_index :: "worker \<Rightarrow> nat option" where
  "held_index (Holding i) = Some i"
| "held_index (Cleared i) = Some i"
| "held_index (Running i) = Some i"
| "held_index w = None"

definition began :: "nat \<Rightarrow> callback list \<Rightarrow> nat" where
  "began i l = length (filter (\<lambda>c. c = Began i) l)"

definition is_ended :: "nat \<Rightarrow> callback \<Rightarrow> bool" where
  "is_ended i c = (case c of Ended j _ \<Rightarrow> j = i | Began _ \<Rightarrow> False)"

definition ended_in :: "nat \<Rightarrow> callback list \<Rightarrow> nat" where
  "ended_in i l = length (filter (is_ended i) l)"

text \<open>Every report of an end comes after the report of its beginning.\<close>

definition ends_follow :: "callback list \<Rightarrow> bool" where
  "ends_follow l = (\<forall>k < length l. \<forall>i r. l ! k = Ended i r \<longrightarrow> Began i \<in> set (take k l))"

text \<open>What an index's slots say while some worker is at it, and when none is.\<close>

definition slot_shape :: "bool \<Rightarrow> bool \<Rightarrow> bool \<Rightarrow> bool \<Rightarrow> bool \<Rightarrow> bool \<Rightarrow> bool \<Rightarrow> nat \<Rightarrow> nat \<Rightarrow> bool" where
  "slot_shape fresh started reported holding cleared running cancelled b e =
     ((fresh \<longrightarrow> \<not> started) \<and> (holding \<or> cleared \<longrightarrow> \<not> started) \<and> (running \<longleftrightarrow> started \<and> \<not> reported)
      \<and> (\<not> started \<longrightarrow> \<not> reported \<and> (fresh \<or> holding \<or> cleared \<or> cancelled)) \<and> b = of_bool started \<and> e = of_bool reported)"

definition slot_reported :: "(nat \<Rightarrow> invoked \<Rightarrow> bool) \<Rightarrow> pool \<Rightarrow> nat \<Rightarrow> StepInvocationOutcome \<times> int \<Rightarrow> bool" where
  "slot_reported results s i r =
     (Ended i r \<in> set (pl_log s)
      \<and> (\<exists>e. results i (r, e) \<and> (invocation_failure (r, e) = None \<or> pl_first s \<noteq> None
           \<or> Reported (invocation_failure (r, e)) \<in> set (pl_workers s))))"

definition slot_ok :: "(nat \<Rightarrow> invoked \<Rightarrow> bool) \<Rightarrow> pool \<Rightarrow> nat \<Rightarrow> bool" where
  "slot_ok results s i =
     (slot_shape (pl_next s \<le> i) (pl_started s ! i) (pl_outcomes s ! i \<noteq> None) (Holding i \<in> set (pl_workers s))
        (Cleared i \<in> set (pl_workers s)) (Running i \<in> set (pl_workers s)) (pl_cancelled s) (began i (pl_log s)) (ended_in i (pl_log s))
      \<and> (\<forall>r. pl_outcomes s ! i = Some r \<longrightarrow> slot_reported results s i r))"

definition failure_of :: "(nat \<Rightarrow> invoked \<Rightarrow> bool) \<Rightarrow> pool \<Rightarrow> go_error \<Rightarrow> bool" where
  "failure_of results s e =
     (\<exists>i < length (pl_outcomes s). \<exists>r e'. pl_outcomes s ! i = Some r \<and> results i (r, e') \<and> invocation_failure (r, e') = Some e)"

definition sole :: "worker list \<Rightarrow> bool" where
  "sole ws = (\<forall>v < length ws. \<forall>w < length ws. held_index (ws ! v) \<noteq> None \<longrightarrow> held_index (ws ! v) = held_index (ws ! w) \<longrightarrow> v = w)"

definition below :: "nat \<Rightarrow> worker list \<Rightarrow> bool" where
  "below k ws = (\<forall>w \<in> set ws. \<forall>i. held_index w = Some i \<longrightarrow> i < k)"

definition pool_inv :: "(nat \<Rightarrow> invoked \<Rightarrow> bool) \<Rightarrow> nat \<Rightarrow> nat \<Rightarrow> pool \<Rightarrow> bool" where
  "pool_inv results n m s =
     (length (pl_workers s) = m \<and> length (pl_started s) = n \<and> length (pl_outcomes s) = n \<and> pl_next s \<le> n
      \<and> sole (pl_workers s)
      \<and> below (pl_next s) (pl_workers s) \<and> (\<forall>i < n. slot_ok results s i)
      \<and> (\<forall>e. pl_first s = Some e \<or> Reported (Some e) \<in> set (pl_workers s) \<longrightarrow> failure_of results s e)
      \<and> (pl_cancelled s \<longleftrightarrow> pl_first s \<noteq> None \<or> pl_parent s)
      \<and> (\<not> pl_open s \<longrightarrow> pl_next s = n \<or> pl_cancelled s)
      \<and> ends_follow (pl_log s))"

section \<open>Every step keeps the invariant\<close>

lemma in_update: "w < length ws \<Longrightarrow> x \<in> set (ws[w := v]) \<longleftrightarrow> x = v \<or> (\<exists>u < length ws. u \<noteq> w \<and> ws ! u = x)"
  by (auto simp: in_set_conv_nth nth_list_update)

lemma in_update_other: "w < length ws \<Longrightarrow> x \<noteq> ws ! w \<Longrightarrow> x \<in> set (ws[w := v]) \<longleftrightarrow> x = v \<or> x \<in> set ws"
  by (simp add: in_update) (metis in_set_conv_nth)

lemma in_update_same:
  "sole ws \<Longrightarrow> w < length ws \<Longrightarrow> held_index (ws ! w) \<noteq> None \<Longrightarrow> held_index x = held_index (ws ! w) \<Longrightarrow> x \<in> set (ws[w := v]) \<longleftrightarrow> x = v"
  by (auto simp: in_update sole_def)

lemma sole_in:
  "sole ws \<Longrightarrow> w < length ws \<Longrightarrow> held_index (ws ! w) \<noteq> None \<Longrightarrow> held_index x = held_index (ws ! w) \<Longrightarrow> x \<in> set ws \<longleftrightarrow> x = ws ! w"
  by (auto simp: sole_def in_set_conv_nth)

lemma sole_update:
  assumes "sole ws" "w < length ws" "held_index v = None \<or> held_index v = held_index (ws ! w) \<or> (\<forall>x \<in> set ws. held_index x \<noteq> held_index v)"
  shows "sole (ws[w := v])"
  unfolding sole_def
proof (intro allI impI)
  fix a b assume ab: "a < length (ws[w := v])" "b < length (ws[w := v])" "held_index (ws[w := v] ! a) \<noteq> None"
    "held_index (ws[w := v] ! a) = held_index (ws[w := v] ! b)"
  have s: "held_index (ws ! x) \<noteq> None \<Longrightarrow> held_index (ws ! x) = held_index (ws ! y) \<Longrightarrow> x = y" if "x < length ws" "y < length ws" for x y
    using assms(1) that by (simp add: sole_def)
  have n: "ws ! x \<in> set ws" if "x < length ws" for x using that by simp
  consider "a = w" "b = w" | "a = w" "b \<noteq> w" | "a \<noteq> w" "b = w" | "a \<noteq> w" "b \<noteq> w" by blast
  then show "a = b"
  proof cases
    case 2
    then have h: "b < length ws" "held_index v = held_index (ws ! b)" "held_index v \<noteq> None" using ab assms(2) by simp_all
    then have "held_index v = held_index (ws ! w)" using assms(3) n[OF h(1)] by metis
    then show ?thesis using s[of w b] h assms(2) 2 by metis
  next
    case 3
    then have h: "a < length ws" "held_index (ws ! a) = held_index v" "held_index (ws ! a) \<noteq> None" using ab assms(2) by simp_all
    then have "held_index v = held_index (ws ! w)" using assms(3) n[OF h(1)] by metis
    then show ?thesis using s[of a w] h assms(2) 3 by metis
  next
    case 4
    then show ?thesis using s[of a b] ab by simp
  qed simp
qed

lemma began_append: "began i (l @ l') = began i l + began i l'"
  by (simp add: began_def)

lemma ended_append: "ended_in i (l @ l') = ended_in i l + ended_in i l'"
  by (simp add: ended_in_def)

lemma log_counts [simp]:
  "began i [] = 0" "ended_in i [] = 0" "began i [Began j] = of_bool (i = j)" "began i [Ended j r] = 0"
  "ended_in i [Began j] = 0" "ended_in i [Ended j r] = of_bool (i = j)"
  by (auto simp: began_def ended_in_def is_ended_def)

lemma ends_follow_append:
  "ends_follow l \<Longrightarrow> (\<And>i r. c = Ended i r \<Longrightarrow> Began i \<in> set l) \<Longrightarrow> ends_follow (l @ [c])"
  by (auto simp: ends_follow_def nth_append less_Suc_eq)

lemma began_in: "began i l \<noteq> 0 \<longleftrightarrow> Began i \<in> set l"
  by (auto simp: began_def filter_empty_conv)

lemma slot_frame:
  assumes "slot_ok results s i" "pl_next s' \<le> i \<longleftrightarrow> pl_next s \<le> i" "pl_started s' ! i = pl_started s ! i" "pl_outcomes s' ! i = pl_outcomes s ! i"
    and "\<And>x. held_index x = Some i \<Longrightarrow> x \<in> set (pl_workers s') \<longleftrightarrow> x \<in> set (pl_workers s)"
    and "pl_cancelled s \<Longrightarrow> pl_cancelled s'" "began i (pl_log s') = began i (pl_log s)" "ended_in i (pl_log s') = ended_in i (pl_log s)"
    and "set (pl_log s) \<subseteq> set (pl_log s')" "pl_first s \<noteq> None \<Longrightarrow> pl_first s' \<noteq> None"
    and "\<And>f. f \<noteq> None \<Longrightarrow> Reported f \<in> set (pl_workers s) \<Longrightarrow> Reported f \<in> set (pl_workers s') \<or> pl_first s' \<noteq> None"
  shows "slot_ok results s' i"
proof -
  have w: "Holding i \<in> set (pl_workers s') \<longleftrightarrow> Holding i \<in> set (pl_workers s)"
    "Cleared i \<in> set (pl_workers s') \<longleftrightarrow> Cleared i \<in> set (pl_workers s)"
    "Running i \<in> set (pl_workers s') \<longleftrightarrow> Running i \<in> set (pl_workers s)"
    by (rule assms(5), simp)+
  have "slot_reported results s' i r" if "pl_outcomes s' ! i = Some r" for r
  proof -
    have "slot_reported results s i r" using assms(1) that unfolding slot_ok_def assms(4) by blast
    then show ?thesis using assms(9,10,11) unfolding slot_reported_def by blast
  qed
  moreover have "slot_shape (pl_next s \<le> i) (pl_started s ! i) (pl_outcomes s ! i \<noteq> None) (Holding i \<in> set (pl_workers s))
        (Cleared i \<in> set (pl_workers s)) (Running i \<in> set (pl_workers s)) (pl_cancelled s') (began i (pl_log s)) (ended_in i (pl_log s))"
    using assms(1,6) by (auto simp: slot_ok_def slot_shape_def)
  ultimately show ?thesis unfolding slot_ok_def w assms(2-4,7,8) by blast
qed

lemma pool_init_inv: "pool_inv results n m (pool_init n m b)"
  by (auto simp: pool_inv_def pool_init_def sole_def slot_ok_def slot_shape_def ends_follow_def below_def)

lemma below_update: "below k ws \<Longrightarrow> k \<le> k' \<Longrightarrow> (\<And>i. held_index v = Some i \<Longrightarrow> i < k') \<Longrightarrow> below k' (ws[w := v])"
  unfolding below_def using set_update_subset_insert[of ws w v] by fastforce

lemma pool_invD:
  assumes "pool_inv results n m s"
  shows "length (pl_workers s) = m" "length (pl_started s) = n" "length (pl_outcomes s) = n" "pl_next s \<le> n" "sole (pl_workers s)"
    "below (pl_next s) (pl_workers s)" "i < n \<Longrightarrow> slot_ok results s i"
    "pl_first s = Some e \<Longrightarrow> failure_of results s e" "Reported (Some e) \<in> set (pl_workers s) \<Longrightarrow> failure_of results s e"
    "pl_cancelled s \<longleftrightarrow> pl_first s \<noteq> None \<or> pl_parent s" "\<not> pl_open s \<Longrightarrow> pl_next s = n \<or> pl_cancelled s" "ends_follow (pl_log s)"
  using assms unfolding pool_inv_def by blast+

lemma set_worker_simps [simp]:
  "pl_next (set_worker w v s) = pl_next s" "pl_open (set_worker w v s) = pl_open s" "pl_started (set_worker w v s) = pl_started s"
  "pl_outcomes (set_worker w v s) = pl_outcomes s" "pl_first (set_worker w v s) = pl_first s" "pl_cancelled (set_worker w v s) = pl_cancelled s"
  "pl_parent (set_worker w v s) = pl_parent s" "pl_log (set_worker w v s) = pl_log s" "pl_workers (set_worker w v s) = (pl_workers s)[w := v]"
  by (simp_all add: set_worker_def)

lemma begin_step_simps [simp]:
  "pl_next (begin_step w i s) = pl_next s" "pl_open (begin_step w i s) = pl_open s" "pl_started (begin_step w i s) = (pl_started s)[i := True]"
  "pl_outcomes (begin_step w i s) = pl_outcomes s" "pl_first (begin_step w i s) = pl_first s" "pl_cancelled (begin_step w i s) = pl_cancelled s"
  "pl_parent (begin_step w i s) = pl_parent s" "pl_log (begin_step w i s) = pl_log s @ [Began i]"
  "pl_workers (begin_step w i s) = (pl_workers s)[w := Running i]"
  by (simp_all add: begin_step_def)

lemma report_simps [simp]:
  "pl_next (report w i r s) = pl_next s" "pl_open (report w i r s) = pl_open s" "pl_started (report w i r s) = pl_started s"
  "pl_outcomes (report w i r s) = (pl_outcomes s)[i := Some (fst r)]" "pl_first (report w i r s) = pl_first s"
  "pl_cancelled (report w i r s) = pl_cancelled s" "pl_parent (report w i r s) = pl_parent s" "pl_log (report w i r s) = pl_log s @ [Ended i (fst r)]"
  "pl_workers (report w i r s) = (pl_workers s)[w := Reported (invocation_failure r)]"
  by (simp_all add: report_def)

lemma act_on_simps [simp]:
  "pl_next (act_on w f s) = pl_next s" "pl_open (act_on w f s) = pl_open s" "pl_started (act_on w f s) = pl_started s"
  "pl_outcomes (act_on w f s) = pl_outcomes s" "pl_first (act_on w f s) = (if pl_first s = None then f else pl_first s)"
  "pl_cancelled (act_on w f s) = (pl_cancelled s \<or> f \<noteq> None)" "pl_parent (act_on w f s) = pl_parent s" "pl_log (act_on w f s) = pl_log s"
  "pl_workers (act_on w f s) = (pl_workers s)[w := Idle]"
  by (simp_all add: act_on_def)

text \<open>Steps that move a worker which holds no index, and leave the slots alone.\<close>

lemma free_worker_inv:
  assumes inv: "pool_inv results n m s" and w: "w < length (pl_workers s)" "held_index (pl_workers s ! w) = None" "held_index v = None"
    and s': "pl_workers s' = (pl_workers s)[w := v]" "pl_next s' = pl_next s" "pl_started s' = pl_started s" "pl_outcomes s' = pl_outcomes s" "pl_log s' = pl_log s"
    and "pl_cancelled s \<Longrightarrow> pl_cancelled s'" "pl_first s \<noteq> None \<Longrightarrow> pl_first s' = pl_first s"
    and "\<And>e. pl_first s' = Some e \<Longrightarrow> failure_of results s e" "\<And>e. v \<noteq> Reported e"
    and "\<And>e. pl_workers s ! w = Reported (Some e) \<Longrightarrow> pl_first s' \<noteq> None"
    and "pl_cancelled s' \<longleftrightarrow> pl_first s' \<noteq> None \<or> pl_parent s'" "\<not> pl_open s' \<Longrightarrow> pl_next s' = n \<or> pl_cancelled s'"
  shows "pool_inv results n m s'"
proof -
  note i = pool_invD[OF inv]
  have mem: "x \<in> set (pl_workers s') \<longleftrightarrow> x \<in> set (pl_workers s)" if h: "held_index x = Some k" for x k
  proof -
    have "x \<noteq> pl_workers s ! w" "x \<noteq> v" using h w(2,3) by auto
    then show ?thesis using in_update_other[OF w(1), of x v] s'(1) by simp
  qed
  have rep: "Reported f \<in> set (pl_workers s') \<or> pl_first s' \<noteq> None" if f: "f \<noteq> None" "Reported f \<in> set (pl_workers s)" for f
  proof (cases "Reported f = pl_workers s ! w")
    case True
    obtain e where "f = Some e" using f(1) by blast
    then have "pl_workers s ! w = Reported (Some e)" using True by simp
    then show ?thesis using assms(14) by blast
  next
    case False
    then show ?thesis using in_update_other[OF w(1) False, of v] f(2) s'(1) by auto
  qed
  have "slot_ok results s' k" if "k < n" for k
    by (rule slot_frame[OF i(7)[OF that]]) (use assms(10,11) mem rep in \<open>auto simp: s'\<close>)
  moreover have "failure_of results s' e" if e: "pl_first s' = Some e \<or> Reported (Some e) \<in> set (pl_workers s')" for e
  proof -
    have "Reported (Some e) \<in> set (pl_workers s') \<Longrightarrow> Reported (Some e) \<in> set (pl_workers s)"
      using set_update_subset_insert[of "pl_workers s" w v] s'(1) assms(13) by fastforce
    then have "failure_of results s e" using e assms(12) i(9) by blast
    then show ?thesis by (simp add: failure_of_def s')
  qed
  moreover have "sole (pl_workers s')" unfolding s'(1) using i(5) w by (intro sole_update) auto
  moreover have "below (pl_next s') (pl_workers s')" unfolding s'(1,2) using i(6) w by (intro below_update) auto
  ultimately show ?thesis
    using i(1-4,12) assms(15,16) unfolding pool_inv_def by (simp add: s')
qed

text \<open>Steps of a worker that holds an index; the other indices keep their slots.\<close>

lemma index_worker_inv:
  assumes inv: "pool_inv results n m s" and w: "w < length (pl_workers s)" "held_index (pl_workers s ! w) = Some i" "held_index v = None \<or> held_index v = Some i"
    and s': "pl_workers s' = (pl_workers s)[w := v]" "pl_next s' = pl_next s" "pl_first s' = pl_first s" "pl_cancelled s' = pl_cancelled s"
      "pl_parent s' = pl_parent s" "pl_open s' = pl_open s" "length (pl_started s') = n" "length (pl_outcomes s') = n"
    and same: "\<And>j. j \<noteq> i \<Longrightarrow> pl_started s' ! j = pl_started s ! j \<and> pl_outcomes s' ! j = pl_outcomes s ! j
      \<and> began j (pl_log s') = began j (pl_log s) \<and> ended_in j (pl_log s') = ended_in j (pl_log s)" "set (pl_log s) \<subseteq> set (pl_log s')"
    and ok: "slot_ok results s' i" "ends_follow (pl_log s')"
    and fails: "\<And>e. pl_first s = Some e \<Longrightarrow> failure_of results s' e" "\<And>e. Reported (Some e) \<in> set (pl_workers s) \<Longrightarrow> failure_of results s' e"
      "\<And>e. v = Reported (Some e) \<Longrightarrow> failure_of results s' e"
  shows "pool_inv results n m s'"
proof -
  note i = pool_invD[OF inv]
  have rep: "Reported f \<in> set (pl_workers s')" if "Reported f \<in> set (pl_workers s)" for f
  proof -
    have "Reported f \<noteq> pl_workers s ! w" using w(2) by (metis held_index.simps(5) option.distinct(1))
    then show ?thesis using in_update_other[OF w(1), of "Reported f" v] that s'(1) by simp
  qed
  have "slot_ok results s' k" if k: "k < n" for k
  proof (cases "k = i")
    case False
    have "x \<in> set (pl_workers s') \<longleftrightarrow> x \<in> set (pl_workers s)" if h: "held_index x = Some k" for x
    proof -
      have "x \<noteq> pl_workers s ! w" "x \<noteq> v" using h w(2,3) False by auto
      then show ?thesis using in_update_other[OF w(1), of x v] s'(1) by simp
    qed
    then show ?thesis
      by (intro slot_frame[OF i(7)[OF k]]) (use same(1)[OF False] same(2) rep s' in auto)
  qed (use ok in simp)
  moreover have "failure_of results s' e" if "Reported (Some e) \<in> set (pl_workers s')" for e
    using that fails(2,3) set_update_subset_insert[of "pl_workers s" w v] s'(1) by auto
  moreover have "sole (pl_workers s')" unfolding s'(1) using i(5) w by (intro sole_update) auto
  moreover have "i < pl_next s" using i(6) w(1,2) by (auto simp: below_def)
  then have "below (pl_next s') (pl_workers s')" unfolding s'(1,2) using i(6) w by (intro below_update) auto
  ultimately show ?thesis
    using i(1-4,10,11) fails(1) ok(2) unfolding pool_inv_def by (auto simp: s')
qed

text \<open>Where the worker that holds an index is the only one that matters to its slot.\<close>

lemma slot_members:
  assumes "pool_inv results n m s" "w < length (pl_workers s)" "held_index (pl_workers s ! w) = Some i"
  shows "Holding i \<in> set (pl_workers s) \<longleftrightarrow> pl_workers s ! w = Holding i" "Cleared i \<in> set (pl_workers s) \<longleftrightarrow> pl_workers s ! w = Cleared i"
    "Running i \<in> set (pl_workers s) \<longleftrightarrow> pl_workers s ! w = Running i"
    "Holding i \<in> set ((pl_workers s)[w := v]) \<longleftrightarrow> v = Holding i" "Cleared i \<in> set ((pl_workers s)[w := v]) \<longleftrightarrow> v = Cleared i"
    "Running i \<in> set ((pl_workers s)[w := v]) \<longleftrightarrow> v = Running i" "i < n"
  using sole_in[OF pool_invD(5)[OF assms(1)] assms(2), of "Holding i"] sole_in[OF pool_invD(5)[OF assms(1)] assms(2), of "Cleared i"]
    sole_in[OF pool_invD(5)[OF assms(1)] assms(2), of "Running i"] in_update_same[OF pool_invD(5)[OF assms(1)] assms(2), of "Holding i" v]
    in_update_same[OF pool_invD(5)[OF assms(1)] assms(2), of "Cleared i" v] in_update_same[OF pool_invD(5)[OF assms(1)] assms(2), of "Running i" v]
    pool_invD(4,6)[OF assms(1)] assms(2,3)
  by (auto simp: below_def dest!: bspec[of _ _ "pl_workers s ! w"])

lemma slot_ofD:
  assumes "slot_ok results s i"
  shows "slot_shape (pl_next s \<le> i) (pl_started s ! i) (pl_outcomes s ! i \<noteq> None) (Holding i \<in> set (pl_workers s))
        (Cleared i \<in> set (pl_workers s)) (Running i \<in> set (pl_workers s)) (pl_cancelled s) (began i (pl_log s)) (ended_in i (pl_log s))"
    "pl_outcomes s ! i = Some r \<Longrightarrow> slot_reported results s i r"
  using assms unfolding slot_ok_def by blast+

lemma hand_inv:
  assumes inv: "pool_inv results n m s" and h: "pl_open s" "pl_next s < length (pl_started s)" "w < length (pl_workers s)" "pl_workers s ! w = Idle"
  shows "pool_inv results n m (set_worker w (Holding (pl_next s)) (s\<lparr>pl_next := Suc (pl_next s)\<rparr>))" (is "pool_inv _ _ _ ?t")
proof -
  note i = pool_invD[OF inv]
  have fresh: "held_index x \<noteq> Some (pl_next s)" if "x \<in> set (pl_workers s)" for x using i(6) that by (auto simp: below_def)
  have mem: "x \<in> set (pl_workers ?t) \<longleftrightarrow> x = Holding (pl_next s) \<or> x \<in> set (pl_workers s)" if "x \<noteq> Idle" for x
    using in_update_other[OF h(3), of x "Holding (pl_next s)"] that h(4) by simp
  have "slot_ok results ?t k" if k: "k < n" for k
  proof (cases "k = pl_next s")
    case False
    have "x \<in> set (pl_workers ?t) \<longleftrightarrow> x \<in> set (pl_workers s)" if x: "held_index x = Some k" for x
    proof -
      have "x \<noteq> Idle" "x \<noteq> Holding (pl_next s)" using x False by auto
      then show ?thesis using mem by blast
    qed
    moreover have "Reported f \<in> set (pl_workers ?t)" if "Reported f \<in> set (pl_workers s)" for f using mem that by blast
    ultimately show ?thesis
      by (intro slot_frame[OF i(7)[OF k]]) (use False in auto)
  next
    case True
    have "Cleared k \<notin> set (pl_workers s)" "Running k \<notin> set (pl_workers s)" using fresh[of "Cleared k"] fresh[of "Running k"] True by auto
    then show ?thesis
      using slot_ofD[OF i(7)[OF k]] True mem[of "Holding k"] mem[of "Cleared k"] mem[of "Running k"]
      unfolding slot_ok_def by (simp add: slot_shape_def)
  qed
  moreover have "sole (pl_workers ?t)" using i(5) h(3) fresh by (auto intro!: sole_update)
  moreover have "below (pl_next ?t) (pl_workers ?t)" using below_update[OF i(6), of "Suc (pl_next s)" "Holding (pl_next s)" w] by simp
  ultimately show ?thesis
    using i(1-4,8-12) h mem[of "Reported (Some _)"] unfolding pool_inv_def by (auto simp: failure_of_def)
qed

lemma drop_inv:
  assumes inv: "pool_inv results n m s" and h: "w < length (pl_workers s)" "pl_workers s ! w = Holding i" "pl_cancelled s"
  shows "pool_inv results n m (set_worker w Exited s)"
proof -
  have hw: "held_index (pl_workers s ! w) = Some i" using h(2) by simp
  note mem = slot_members[OF inv h(1) hw] note i = pool_invD[OF inv]
  note ok = slot_ofD[OF i(7)[OF mem(7)]]
  have "slot_ok results (set_worker w Exited s) i"
    using ok(1) h(2,3) mem unfolding slot_ok_def by (auto simp: slot_shape_def)
  then show ?thesis
    by (intro index_worker_inv[OF inv h(1) hw, of Exited]) (use i in \<open>auto simp: failure_of_def\<close>)
qed

lemma clear_inv:
  assumes inv: "pool_inv results n m s" and h: "w < length (pl_workers s)" "pl_workers s ! w = Holding i"
  shows "pool_inv results n m (set_worker w (Cleared i) s)"
proof -
  have hw: "held_index (pl_workers s ! w) = Some i" using h(2) by simp
  note mem = slot_members[OF inv h(1) hw] note i = pool_invD[OF inv]
  note ok = slot_ofD[OF i(7)[OF mem(7)]]
  have "slot_ok results (set_worker w (Cleared i) s) i"
    using ok(1) h(2) mem unfolding slot_ok_def by (auto simp: slot_shape_def)
  then show ?thesis
    by (intro index_worker_inv[OF inv h(1) hw, of "Cleared i"]) (use i in \<open>auto simp: failure_of_def\<close>)
qed

lemma start_inv:
  assumes inv: "pool_inv results n m s" and h: "w < length (pl_workers s)" "pl_workers s ! w = Cleared i"
  shows "pool_inv results n m (begin_step w i s)"
proof -
  have hw: "held_index (pl_workers s ! w) = Some i" using h(2) by simp
  note mem = slot_members[OF inv h(1) hw] note i = pool_invD[OF inv]
  note ok = slot_ofD[OF i(7)[OF mem(7)]]
  have below: "\<not> pl_next s \<le> i" using i(6) h(1) hw unfolding below_def by (metis nth_mem not_le)
  have "slot_ok results (begin_step w i s) i"
    using ok(1) h(2) mem(1-3) mem(4-6)[of "Running i"] mem(7) i(2) below
    unfolding slot_ok_def by (auto simp: slot_shape_def began_append ended_append)
  then show ?thesis
    by (intro index_worker_inv[OF inv h(1) hw, of "Running i"])
      (use i in \<open>auto simp: failure_of_def began_append ended_append intro: ends_follow_append\<close>)
qed

lemma return_inv:
  assumes inv: "pool_inv results n m s" and h: "w < length (pl_workers s)" "pl_workers s ! w = Running i" "results i r"
  shows "pool_inv results n m (report w i r s)"
proof -
  have hw: "held_index (pl_workers s ! w) = Some i" using h(2) by simp
  note mem = slot_members[OF inv h(1) hw] note i = pool_invD[OF inv]
  note ok = slot_ofD[OF i(7)[OF mem(7)]]
  let ?t = "report w i r s"
  have none: "pl_started s ! i" "pl_outcomes s ! i = None" using ok(1) mem(3) h(2) by (cases "pl_outcomes s ! i"; auto simp: slot_shape_def)+
  have old: "failure_of results ?t e" if f: "failure_of results s e" for e
  proof -
    obtain j q e' where j: "j < length (pl_outcomes s)" "pl_outcomes s ! j = Some q" "results j (q, e')" "invocation_failure (q, e') = Some e"
      using f unfolding failure_of_def by blast
    then have "j \<noteq> i" using none by auto
    then have "pl_outcomes ?t ! j = Some q" "j < length (pl_outcomes ?t)" using j by simp_all
    then show ?thesis using j unfolding failure_of_def by blast
  qed
  have new: "failure_of results ?t e" if "invocation_failure r = Some e" for e
    unfolding failure_of_def using h(3) that mem(7) i(3)
    by (intro exI[of _ i] conjI exI[of _ "fst r"] exI[of _ "snd r"]) auto
  have shape: "slot_ok results ?t i"
    unfolding slot_ok_def
  proof (intro conjI allI impI)
    show "slot_shape (pl_next ?t \<le> i) (pl_started ?t ! i) (pl_outcomes ?t ! i \<noteq> None) (Holding i \<in> set (pl_workers ?t))
        (Cleared i \<in> set (pl_workers ?t)) (Running i \<in> set (pl_workers ?t)) (pl_cancelled ?t) (began i (pl_log ?t)) (ended_in i (pl_log ?t))"
      using ok(1) h(2) mem(1-3) mem(4-6)[of "Reported (invocation_failure r)"] mem(7) i(3) none
      by (auto simp: slot_shape_def began_append ended_append)
    fix q assume "pl_outcomes ?t ! i = Some q"
    then have "q = fst r" using mem(7) i(3) by simp
    moreover have "Reported (invocation_failure r) \<in> set (pl_workers ?t)" using h(1) by (simp add: set_update_memI)
    ultimately show "slot_reported results ?t i q"
      unfolding slot_reported_def using h(3) by (intro conjI exI[of _ "snd r"]) simp_all
  qed
  have "Began i \<in> set (pl_log s)" using ok(1) none(1) unfolding slot_shape_def began_in[symmetric] by simp
  then have "ends_follow (pl_log ?t)" using i(12) by (auto intro: ends_follow_append)
  then show ?thesis
    by (intro index_worker_inv[OF inv h(1) hw, of "Reported (invocation_failure r)" ?t])
      (use i shape old new in \<open>auto simp: began_append ended_append\<close>)
qed

lemma idle_step_inv:
  assumes inv: "pool_inv results n m s"
    and t: "pl_workers t = pl_workers s" "pl_next t = pl_next s" "pl_started t = pl_started s" "pl_outcomes t = pl_outcomes s"
      "pl_log t = pl_log s" "pl_first t = pl_first s"
    and "pl_cancelled s \<Longrightarrow> pl_cancelled t" "pl_cancelled t \<longleftrightarrow> pl_first t \<noteq> None \<or> pl_parent t" "\<not> pl_open t \<Longrightarrow> pl_next t = n \<or> pl_cancelled t"
  shows "pool_inv results n m t"
proof -
  note i = pool_invD[OF inv]
  have "slot_ok results t k" if "k < n" for k
    by (rule slot_frame[OF i(7)[OF that]]) (use assms(8) t in auto)
  moreover have "failure_of results t e \<longleftrightarrow> failure_of results s e" for e by (simp add: failure_of_def t)
  ultimately show ?thesis
    using inv assms(9,10) unfolding pool_inv_def t by blast
qed

theorem pool_step_inv:
  assumes "pool_inv results n m s" "pool_step results s t"
  shows "pool_inv results n m t"
  using assms(2)
proof cases
  case (hand w)
  then show ?thesis using hand_inv[OF assms(1)] by blast
next
  case stop
  then show ?thesis using pool_invD[OF assms(1)] by (intro idle_step_inv[OF assms(1)]) auto
next
  case close
  then show ?thesis using pool_invD[OF assms(1)] by (intro idle_step_inv[OF assms(1)]) auto
next
  case (leave w)
  show ?thesis
    unfolding leave(1) by (rule free_worker_inv[OF assms(1) leave(2), of Exited]) (use leave pool_invD[OF assms(1)] in auto)
next
  case (drop w i)
  then show ?thesis using drop_inv[OF assms(1)] by blast
next
  case (clear w i)
  then show ?thesis using clear_inv[OF assms(1)] by blast
next
  case (start w i)
  then show ?thesis using start_inv[OF assms(1)] by blast
next
  case (return w i r)
  then show ?thesis using return_inv[OF assms(1)] by blast
next
  case (settle w failure)
  have f: "failure_of results s e" if "failure = Some e" for e
    using pool_invD(9)[OF assms(1), of e] settle(2,3) that by (metis nth_mem)
  show ?thesis
    unfolding settle(1) by (rule free_worker_inv[OF assms(1) settle(2), of Idle]) (use settle f pool_invD[OF assms(1)] in \<open>auto split: if_splits\<close>)
next
  case ended
  then show ?thesis using pool_invD[OF assms(1)] by (intro idle_step_inv[OF assms(1)]) auto
qed

lemma pool_reachable_inv: "pool_reachable results n m s \<Longrightarrow> pool_inv results n m s"
  unfolding pool_reachable_def
proof (elim exE)
  fix b assume "(pool_step results)\<^sup>*\<^sup>* (pool_init n m b) s"
  then show ?thesis by (induction rule: rtranclp_induct) (auto intro: pool_init_inv pool_step_inv)
qed

section \<open>Bounds\<close>

lemma pool_size_bounds:
  assumes "0 < n"
  shows "0 < pool_size wanted limit n" "pool_size wanted limit n \<le> n" "0 < wanted \<Longrightarrow> int (pool_size wanted limit n) \<le> wanted"
    "int (pool_size wanted limit n) \<le> (if limit \<le> 0 then 32 else limit)"
  using assms by (auto simp: pool_size_def Let_def defaultLocalProcessConcurrency_def)

definition is_running :: "worker \<Rightarrow> bool" where
  "is_running w = (case w of Running _ \<Rightarrow> True | _ \<Rightarrow> False)"

text \<open>
  C39. The pool never runs too much: at every moment at most as many invocations run as the workflow allows, as the
  executor's process limit allows (32 when none is set) and as there are steps; and no step is begun twice, ended twice,
  or reported as ended before it was reported as begun.
\<close>

theorem steps_run_once:
  assumes "pool_reachable results n (pool_size wanted limit n) s" "0 < n" "i < n"
  shows "(let running = int (length (filter is_running (pl_workers s)))
      in running \<le> int n \<and> (wanted \<le> 0 \<or> running \<le> wanted) \<and> running \<le> (if limit \<le> 0 then 32 else limit))
    \<and> began i (pl_log s) \<le> 1 \<and> ended_in i (pl_log s) \<le> began i (pl_log s) \<and> ends_follow (pl_log s)"
proof -
  note inv = pool_reachable_inv[OF assms(1)] note d = pool_invD[OF inv]
  have "length (filter is_running (pl_workers s)) \<le> pool_size wanted limit n" using d(1) length_filter_le by metis
  then have r: "int (length (filter is_running (pl_workers s))) \<le> int (pool_size wanted limit n)" by simp
  have "began i (pl_log s) \<le> 1 \<and> ended_in i (pl_log s) \<le> began i (pl_log s)"
    using slot_ofD(1)[OF d(7)[OF assms(3)]] by (auto simp: slot_shape_def)
  then show ?thesis
    using r pool_size_bounds[OF assms(2), of wanted limit] d(12) unfolding Let_def by (meson not_le order_trans of_nat_mono)
qed

section \<open>What a batch returns\<close>

lemma pool_done_workers: "pool_done s \<Longrightarrow> x \<in> set (pl_workers s) \<Longrightarrow> x = Exited"
  by (auto simp: pool_done_def list_all_iff)

lemma done_slots:
  assumes "pool_inv results n m s" "pool_done s" "i < n"
  shows "pl_started s ! i \<Longrightarrow> \<exists>r e. pl_outcomes s ! i = Some r \<and> results i (r, e) \<and> (invocation_failure (r, e) = None \<or> pl_first s \<noteq> None)"
    "pool_error s = None \<Longrightarrow> pl_started s ! i"
proof -
  note d = pool_invD[OF assms(1)] note ok = slot_ofD[OF d(7)[OF assms(3)]]
  have gone: "x \<notin> set (pl_workers s)" if "x \<noteq> Exited" for x using pool_done_workers[OF assms(2)] that by blast
  show "\<exists>r e. pl_outcomes s ! i = Some r \<and> results i (r, e) \<and> (invocation_failure (r, e) = None \<or> pl_first s \<noteq> None)" if st: "pl_started s ! i"
  proof -
    have "pl_outcomes s ! i \<noteq> None" using ok(1) gone[of "Running i"] st unfolding slot_shape_def by blast
    then obtain r where "pl_outcomes s ! i = Some r" by blast
    then show ?thesis using ok(2) gone unfolding slot_reported_def by (metis worker.distinct(29))
  qed
  assume "pool_error s = None"
  then have live: "\<not> pl_cancelled s" using d(10) by (auto simp: pool_error_def split: option.splits if_splits)
  then have "pl_next s = n" using d(11) assms(2) by (simp add: pool_done_def)
  then show "pl_started s ! i"
    using ok(1) gone[of "Holding i"] gone[of "Cleared i"] live assms(3) unfolding slot_shape_def by auto
qed

text \<open>The indices whose outcomes a batch returns, in order.\<close>

definition started_indices :: "pool \<Rightarrow> nat list" where
  "started_indices s = filter (\<lambda>i. pl_started s ! i) [0..<length (pl_started s)]"

lemma completed_indices:
  assumes "length (pl_outcomes s) = length (pl_started s)"
  shows "pool_completed s = map (\<lambda>i. case pl_outcomes s ! i of None \<Rightarrow> zero_outcome | Some r \<Rightarrow> fst r) (started_indices s)"
proof -
  have z: "zip (pl_started s) (pl_outcomes s) = map (\<lambda>i. (pl_started s ! i, pl_outcomes s ! i)) [0..<length (pl_started s)]"
    using assms by (intro nth_equalityI) auto
  show ?thesis unfolding pool_completed_def started_indices_def z by (simp add: filter_map comp_def)
qed

definition moments :: "'w host \<Rightarrow> number_printer \<Rightarrow> (bytes \<Rightarrow> runnerFailure option) \<Rightarrow> ProcessStepInvoker
    \<Rightarrow> string \<Rightarrow> StepInvocation \<Rightarrow> invoked \<Rightarrow> bool" where
  "moments h f parse i dir iv r = (\<exists>w. fst (invokeOne h f parse i dir iv w) = r)"

lemma moments_fitting:
  assumes "\<And>b r. parse b = Some r \<Longrightarrow> valid_runner_failure r" "moments h f parse i dir iv ((oc, t), e)"
  shows "fitting (iv_descriptor iv) oc e"
proof -
  obtain w w' where "invokeOne h f parse i dir iv w = (((oc, t), e), w')"
    using assms(2) unfolding moments_def by (metis prod.collapse)
  then show ?thesis by (rule invokeOne_fitting[rotated]) (rule assms(1))
qed

lemma invocation_failure_fatal:
  "fitting d (fst r) e \<Longrightarrow> invocation_failure (r, e) = Some x \<Longrightarrow> err_fatal x = Some y \<Longrightarrow> so_fatal (fst r) = Some y"
  by (auto simp: invocation_failure_def fitting_def split: option.splits)

text \<open>What \<^const>\<open>honest\<close> asks of an invocation of the steps \<open>ds\<close>.\<close>

definition honest_batch :: "StepInvocationDescriptor list \<Rightarrow> StepInvocationOutcome list \<Rightarrow> go_error option \<Rightarrow> bool" where
  "honest_batch ds outcomes err =
     (list_all (\<lambda>oc. \<forall>x. so_fatal oc = Some x \<longrightarrow> so_status oc = StatusFailed \<and> ff_node x \<in> set (map ds_nodeID ds)) outcomes
      \<and> (\<forall>e x. err = Some e \<longrightarrow> err_fatal e = Some x \<longrightarrow> list_ex (\<lambda>oc. so_fatal oc = Some x) outcomes))"

lemma pooled_result:
  assumes parse: "\<And>b r. parse b = Some r \<Longrightarrow> valid_runner_failure r"
    and reach: "pool_reachable (\<lambda>k. moments h f parse i dir (ivs ! k)) (length ivs) m s" and over: "pool_done s"
  shows "length (pool_completed s) = length (started_indices s)"
    "list_all2 (\<lambda>k oc. \<exists>e. fitting (iv_descriptor (ivs ! k)) oc e \<and> (pool_error s = None \<longrightarrow> e = None \<and> so_fatal oc = None))
       (started_indices s) (pool_completed s)"
    "pool_error s = None \<Longrightarrow> started_indices s = [0..<length ivs]" "sorted_wrt (<) (started_indices s)" "set (started_indices s) \<subseteq> {..<length ivs}"
    "honest_batch (map iv_descriptor ivs) (pool_completed s) (pool_error s)"
proof -
  let ?n = "length ivs" and ?res = "\<lambda>k. moments h f parse i dir (ivs ! k)"
  note inv = pool_reachable_inv[OF reach] note d = pool_invD[OF inv]
  have eq: "pool_completed s = map (\<lambda>i. case pl_outcomes s ! i of None \<Rightarrow> zero_outcome | Some r \<Rightarrow> fst r) (started_indices s)"
    using d(2,3) by (intro completed_indices) simp
  show "length (pool_completed s) = length (started_indices s)" by (simp add: eq)
  show sub: "set (started_indices s) \<subseteq> {..<?n}" using d(2) by (auto simp: started_indices_def)
  show "sorted_wrt (<) (started_indices s)" by (auto simp: started_indices_def intro: sorted_wrt_filter)
  show "started_indices s = [0..<?n]" if "pool_error s = None"
    using done_slots(2)[OF inv over _ that] d(2) by (simp add: started_indices_def)
  have slot: "\<exists>r e. pl_outcomes s ! k = Some r \<and> fitting (iv_descriptor (ivs ! k)) (fst r) e
      \<and> (invocation_failure (r, e) = None \<or> pl_first s \<noteq> None)" if "k \<in> set (started_indices s)" for k
  proof -
    have k: "k < ?n" "pl_started s ! k" using that d(2) by (auto simp: started_indices_def)
    obtain r e where r: "pl_outcomes s ! k = Some r" "?res k (r, e)" "invocation_failure (r, e) = None \<or> pl_first s \<noteq> None"
      using done_slots(1)[OF inv over k] by blast
    have "fitting (iv_descriptor (ivs ! k)) (fst r) e"
      using r(2) by (intro moments_fitting[OF parse, where h = h and f = f and i = i and dir = dir and t = "snd r"]) simp_all
    then show ?thesis using r by blast
  qed
  have quiet: "pool_error s = None \<Longrightarrow> pl_first s = None" by (simp add: pool_error_def split: option.splits)
  have each: "\<exists>e. fitting (iv_descriptor (ivs ! k)) oc e \<and> (pool_error s = None \<longrightarrow> e = None \<and> so_fatal oc = None)"
    if k: "k \<in> set (started_indices s)" and oc: "oc = (case pl_outcomes s ! k of None \<Rightarrow> zero_outcome | Some r \<Rightarrow> fst r)" for k oc
  proof -
    obtain r e where r: "pl_outcomes s ! k = Some r" "fitting (iv_descriptor (ivs ! k)) (fst r) e"
      "invocation_failure (r, e) = None \<or> pl_first s \<noteq> None" using slot[OF k] by blast
    have "e = None \<and> so_fatal (fst r) = None" if "pool_error s = None"
    proof -
      have "invocation_failure (r, e) = None" using r(3) quiet[OF that] by blast
      then show ?thesis by (simp add: invocation_failure_def split: option.splits)
    qed
    then show ?thesis using r oc by auto
  qed
  show all2: "list_all2 (\<lambda>k oc. \<exists>e. fitting (iv_descriptor (ivs ! k)) oc e \<and> (pool_error s = None \<longrightarrow> e = None \<and> so_fatal oc = None))
       (started_indices s) (pool_completed s)"
    unfolding eq list_all2_map2 by (rule list.rel_refl_strong) (use each in blast)
  have nodes: "so_status oc = StatusFailed \<and> ff_node x \<in> set (map ds_nodeID (map iv_descriptor ivs))"
    if oc: "oc \<in> set (pool_completed s)" "so_fatal oc = Some x" for oc x
  proof -
    obtain k where k: "k \<in> set (started_indices s)" "oc = (case pl_outcomes s ! k of None \<Rightarrow> zero_outcome | Some r \<Rightarrow> fst r)"
      using oc(1) unfolding eq by auto
    then obtain e where "fitting (iv_descriptor (ivs ! k)) oc e" using each by blast
    then have "so_status oc = StatusFailed" "ff_node x = ds_nodeID (iv_descriptor (ivs ! k))" using oc(2) by (auto simp: fitting_def)
    then show ?thesis using k(1) sub by auto
  qed
  have "list_ex (\<lambda>oc. so_fatal oc = Some x) (pool_completed s)" if e: "pool_error s = Some e" "err_fatal e = Some x" for e x
  proof -
    have "pl_first s = Some e" using e by (auto simp: pool_error_def ctx_error_def split: option.splits if_splits)
    then obtain k r e' where k: "k < ?n" "pl_outcomes s ! k = Some r" "?res k (r, e')" "invocation_failure (r, e') = Some e"
      using d(8)[of e] d(3) unfolding failure_of_def by metis
    have "pl_started s ! k" using slot_ofD(1)[OF d(7)[OF k(1)]] k(2) by (auto simp: slot_shape_def)
    then have "fst r \<in> set (pool_completed s)" using k(1,2) d(2) unfolding eq by (force simp: started_indices_def)
    moreover have "fitting (iv_descriptor (ivs ! k)) (fst r) e'"
      using k(3) by (intro moments_fitting[OF parse, where h = h and f = f and i = i and dir = dir and t = "snd r"]) simp_all
    then have "so_fatal (fst r) = Some x" using invocation_failure_fatal k(4) e(2) by blast
    ultimately show ?thesis by (auto simp: list_ex_iff)
  qed
  then show "honest_batch (map iv_descriptor ivs) (pool_completed s) (pool_error s)"
    using nodes unfolding honest_batch_def list_all_iff by blast
qed


section \<open>Termination\<close>

fun worker_weight :: "worker \<Rightarrow> nat" where
  "worker_weight (Holding i) = 5"
| "worker_weight (Cleared i) = 4"
| "worker_weight (Running i) = 3"
| "worker_weight (Reported f) = 2"
| "worker_weight Idle = 1"
| "worker_weight Exited = 0"

definition pool_measure :: "pool \<Rightarrow> nat" where
  "pool_measure s =
     5 * (length (pl_started s) - pl_next s) + sum_list (map worker_weight (pl_workers s)) + of_bool (pl_open s) + of_bool (\<not> pl_parent s)"

lemma weight_update:
  "w < length ws \<Longrightarrow> sum_list (map worker_weight (ws[w := v])) + worker_weight (ws ! w) = sum_list (map worker_weight ws) + worker_weight v"
proof (induction ws arbitrary: w)
  case (Cons x ws)
  then show ?case by (cases w) auto
qed simp

lemma pool_step_decreases: "pool_step results s t \<Longrightarrow> pool_measure t < pool_measure s"
proof (induction rule: pool_step.cases)
  case (hand s w)
  then show ?case using weight_update[OF hand(5), of "Holding (pl_next s)"] by (simp add: pool_measure_def)
next
  case (leave w s)
  then show ?case using weight_update[OF leave(3), of Exited] by (simp add: pool_measure_def)
next
  case (drop w s i)
  then show ?case using weight_update[OF drop(3), of Exited] by (simp add: pool_measure_def)
next
  case (clear w s i)
  then show ?case using weight_update[OF clear(3), of "Cleared i"] by (simp add: pool_measure_def)
next
  case (start w s i)
  then show ?case using weight_update[OF start(3), of "Running i"] by (simp add: pool_measure_def)
next
  case (return w s i r)
  then show ?case using weight_update[OF return(3), of "Reported (invocation_failure r)"] by (simp add: pool_measure_def)
next
  case (settle w s failure)
  then show ?case using weight_update[OF settle(3), of Idle] by (simp add: pool_measure_def)
qed (simp_all add: pool_measure_def)

text \<open>A worker leaves only when there is nothing more to receive.\<close>

definition leave_inv :: "pool \<Rightarrow> bool" where
  "leave_inv s = (Exited \<in> set (pl_workers s) \<longrightarrow> pl_cancelled s \<or> \<not> pl_open s)"

lemma leave_step: "pool_step results s t \<Longrightarrow> leave_inv s \<Longrightarrow> leave_inv t"
  by (induction rule: pool_step.cases)
    (auto simp: leave_inv_def dest!: set_update_subset_insert[THEN subsetD])

lemma leave_reachable: "pool_reachable results n m s \<Longrightarrow> leave_inv s"
  unfolding pool_reachable_def
proof (elim exE)
  fix b assume "(pool_step results)\<^sup>*\<^sup>* (pool_init n m b) s"
  then show ?thesis by (induction rule: rtranclp_induct) (auto simp: leave_inv_def pool_init_def dest: leave_step[unfolded leave_inv_def])
qed

lemma stuck_done:
  assumes inv: "pool_inv results n m s" "leave_inv s" and total: "\<And>i. i < n \<Longrightarrow> \<exists>r. results i r" and stuck: "\<And>t. \<not> pool_step results s t" and m: "0 < m"
  shows "pool_done s"
proof -
  note d = pool_invD[OF inv(1)]
  have gone: "pl_workers s ! w = Exited \<or> pl_workers s ! w = Idle \<and> pl_open s \<and> \<not> pl_cancelled s" if w: "w < length (pl_workers s)" for w
  proof (cases "pl_workers s ! w")
    case (Holding i)
    then show ?thesis using stuck drop[OF w] clear[OF w] by blast
  next
    case (Running i)
    then have "i < n" using slot_members(7)[OF inv(1) w] by simp
    then show ?thesis using stuck total return[OF w Running] by blast
  qed (use w stuck leave[OF w] start[OF w] settle[OF w] in blast)+
  have "\<not> pl_open s"
  proof
    assume o: "pl_open s"
    have lt: "pl_next s < length (pl_started s)" using stuck close[OF o, of results] d(2,4) by force
    then have live: "\<not> pl_cancelled s" using stuck stop[OF o] by blast
    then have "pl_workers s ! 0 \<noteq> Idle" using stuck hand[OF o lt, of 0] d(1) m by blast
    then have "Exited \<in> set (pl_workers s)" using gone[of 0] d(1) m by (metis nth_mem)
    then show False using inv(2) o live by (simp add: leave_inv_def)
  qed
  then show ?thesis using gone unfolding pool_done_def list_all_length by blast
qed


section \<open>An example\<close>

text \<open>One worker runs one step to its fatal end.\<close>

definition good_step :: StepInvocation where
  "good_step = (example_step 1)\<lparr>iv_descriptor := (iv_descriptor (example_step 1))
     \<lparr>ds_planHash := pr_planHash example_producer, ds_projectKey := pr_projectKey example_producer, ds_runID := ''r'', ds_nodeID := ''n'',
      ds_outputManifestKey := dt_manifestKey example_destination, ds_outputSchema := dt_schema example_destination\<rparr>\<rparr>"

definition example_batch :: StepInvocationBatch where
  "example_batch = \<lparr>ba_steps = [good_step], ba_maxConcurrency = 0\<rparr>"

lemma good_step_checked: "check_invocation good_step = None"
proof -
  let ?d = "iv_descriptor good_step"
  have p: "descriptor_producer ?d = example_producer"
    by (simp add: descriptor_producer_def good_step_def example_step_def example_producer_def)
  have dest: "\<lparr>dt_manifestKey = ds_outputManifestKey ?d, dt_schema = ds_outputSchema ?d\<rparr> = example_destination"
    by (simp add: good_step_def)
  have v: "valid_producer example_producer" "outputManifestKey example_producer = Inr (dt_manifestKey example_destination)"
    using example_valid by (auto simp: ValidateDestination_def valid_producer_def split: option.splits sum.splits if_splits)
  have "ParseKey (ds_outputManifestKey ?d) = Inr (ds_outputManifestKey ?d)"
    using v(2) unfolding outputManifestKey_def Let_def by (auto simp: good_step_def ParseKey_Inr)
  moreover have "validateDescriptorFileIdentity ?d = None"
    using valid_producerD(3-6)[OF v(1)] by (simp add: identity_valid good_step_def example_step_def example_producer_def safe_segment MaxJSONSafeInteger_def)
  ultimately show ?thesis using example_valid by (simp add: check_invocation_def Let_def p dest)
qed

lemma one_step_run:
  assumes "results 0 r"
  shows "\<exists>s. pool_reachable results 1 1 s \<and> pool_done s \<and> pl_log s = [Began 0, Ended 0 (fst r)]"
proof -
  let ?s0 = "pool_init 1 1 False"
  let ?s1 = "set_worker 0 (Holding (pl_next ?s0)) (?s0\<lparr>pl_next := Suc (pl_next ?s0)\<rparr>)"
  let ?s2 = "set_worker 0 (Cleared 0) ?s1" let ?s3 = "begin_step 0 0 ?s2" let ?s4 = "report 0 0 r ?s3"
  let ?s5 = "act_on 0 (invocation_failure r) ?s4" let ?s6 = "?s5\<lparr>pl_open := False\<rparr>" let ?s7 = "set_worker 0 Exited ?s6"
  have "pool_step results ?s0 ?s1" by (rule pool_step.hand) (simp_all add: pool_init_def)
  moreover have "pool_step results ?s1 ?s2" by (rule pool_step.clear) (simp_all add: pool_init_def)
  moreover have "pool_step results ?s2 ?s3" by (rule pool_step.start) (simp_all add: pool_init_def)
  moreover have "pool_step results ?s3 ?s4" by (rule pool_step.return) (simp_all add: pool_init_def assms)
  moreover have "pool_step results ?s4 ?s5" by (rule pool_step.settle) (simp_all add: pool_init_def)
  moreover have "pool_step results ?s5 ?s6" by (rule pool_step.close) (simp_all add: pool_init_def)
  moreover have "pool_step results ?s6 ?s7" by (rule pool_step.leave) (simp_all add: pool_init_def)
  ultimately have "(pool_step results)\<^sup>*\<^sup>* ?s0 ?s7" by (meson rtranclp.rtrancl_refl rtranclp.rtrancl_into_rtrancl)
  then have "pool_reachable results 1 1 ?s7" by (auto simp: pool_reachable_def)
  moreover have "pool_done ?s7" by (simp add: pool_done_def pool_init_def)
  moreover have "pl_log ?s7 = [Began 0, Ended 0 (fst r)]" by (simp add: pool_init_def)
  ultimately show ?thesis by blast
qed

theorem steps_run_once_witness:
  "\<exists>s. pool_reachable (\<lambda>_ _. True) 1 (pool_size 0 0 1) s \<and> began 0 (pl_log s) = 1 \<and> ended_in 0 (pl_log s) \<le> 1 \<and> ends_follow (pl_log s)"
proof -
  have "pool_size 0 0 1 = 1" by (simp add: pool_size_def defaultLocalProcessConcurrency_def)
  then obtain s where s: "pool_reachable (\<lambda>_ _. True) 1 (pool_size 0 0 1) s" "pl_log s = [Began 0, Ended 0 (zero_outcome, 0)]"
    using one_step_run[of "\<lambda>_ _. True" "((zero_outcome, 0), None)"] by auto
  have "began 0 (pl_log s) = 1" unfolding s(2) by (simp add: began_def)
  then show ?thesis using steps_run_once[OF s(1), of 0] s(1) by auto
qed



end
