(* ===== verification/Spec2Isabelle.thy ===== *)
theory Spec2Isabelle
  imports Schedule GraphPasses RunSettlement Fatal Events Pool
begin

text \<open>
  A verification library for the core of Massive: the Go program that compiles an authored workflow
  graph, orders it, runs its steps as processes, and keeps every value of a run as an immutable,
  content-addressed artifact beside a journal that readers trust.

  \<^bold>\<open>Parts of the program.\<close>
  A workflow document (\<^verbatim>\<open>internal/spec\<close>) is checked by graph passes and compiled to a plan whose node order
  is a schedule (\<^verbatim>\<open>internal/plan\<close>). The orchestrator (\<^verbatim>\<open>internal/orchestrator\<close>) reads a plan into an
  execution index, claims a run by creating its journal (\<^verbatim>\<open>internal/runjournal\<close>) in an object store
  (\<^verbatim>\<open>internal/datastore\<close>), visits the nodes in order, resolves each node's input from the outputs before it,
  dispatches steps and map items to an invoker, retries failed attempts, and publishes results through
  \<^verbatim>\<open>internal/artifact\<close>, whose bytes are canonical JSON (\<^verbatim>\<open>internal/canonical\<close>). Map values are expanded and
  collected by \<^verbatim>\<open>internal/mapexec\<close>. A fatal signal and a stream of events leave the run beside its journal.

  \<^bold>\<open>Theories, from the bottom.\<close>

  \<^item> \<^verbatim>\<open>Prelude\<close>: byte strings, results, the locale \<^verbatim>\<open>key_order\<close> of sorted insertion, shared lemmas.
  \<^item> \<^verbatim>\<open>GoText\<close>: runes, UTF-8, decimal printing; \<^verbatim>\<open>LessUTF16\<close>, \<^verbatim>\<open>compareUTF16\<close>, \<^verbatim>\<open>sortedKeys\<close>. The UTF-16 order is an
    interpretation of \<^verbatim>\<open>key_order\<close> on valid UTF-8.
  \<^item> \<^verbatim>\<open>WorkflowSpec\<close>, \<^verbatim>\<open>SpecDocument\<close>: the records of \<^verbatim>\<open>spec.go\<close> and \<^verbatim>\<open>ValidateExitHook\<close>.
  \<^item> \<^verbatim>\<open>Schedule\<close>: \<^verbatim>\<open>plan.BuildSchedule\<close>, \<^verbatim>\<open>spec.graphTopologicalOrder\<close>, \<^verbatim>\<open>orchestrator.topologicalPlanOrder\<close>. The loops
    are instances of one Kahn machine (locales \<^verbatim>\<open>kahn_queue\<close>, \<^verbatim>\<open>kahn_machine\<close>, interpreted on both loops), which simulate
    the relation \<^verbatim>\<open>kahn_step\<close>.
  \<^item> \<^verbatim>\<open>GraphPasses\<close>: \<^verbatim>\<open>findCycle\<close>, \<^verbatim>\<open>graphReachable\<close>, \<^verbatim>\<open>graphReachableBefore\<close>, \<^verbatim>\<open>unreachableDiagnostics\<close>.
  \<^item> \<^verbatim>\<open>Json\<close>, \<^verbatim>\<open>Sha256\<close>, \<^verbatim>\<open>Canonical\<close>: the strict reader and the printer of \<^verbatim>\<open>canonical.go\<close>, digests and self-exclusion.
  \<^item> \<^verbatim>\<open>Journal\<close>: the manifest, the reader's checks (\<^verbatim>\<open>read.go\<close>), every update the orchestrator makes, \<^verbatim>\<open>Terminate\<close>.
  \<^item> \<^verbatim>\<open>MapExec\<close>: \<^verbatim>\<open>Expand\<close>, \<^verbatim>\<open>Collect\<close>, outcomes and failures of \<^verbatim>\<open>values.go\<close>.
  \<^item> \<^verbatim>\<open>Keys\<close>: \<^verbatim>\<open>ParseKey\<close> and the builders of every datastore key.
  \<^item> \<^verbatim>\<open>Retry\<close>: policies, backoff and the classification of outcomes (\<^verbatim>\<open>retry.go\<close>).
  \<^item> \<^verbatim>\<open>PlanIndex\<close>, \<^verbatim>\<open>Resolution\<close>: \<^verbatim>\<open>ValidateExecution\<close>, \<^verbatim>\<open>buildExecutionIndex\<close>, descriptors; \<^verbatim>\<open>resolution.go\<close>, \<^verbatim>\<open>control.go\<close>.
  \<^item> \<^verbatim>\<open>ObjectStore\<close>: the store contract as locales (\<^verbatim>\<open>immutable_store\<close>, and \<^verbatim>\<open>live_store\<close> which extends it), and
    \<^verbatim>\<open>LocalDatastore\<close> over a file system, which interprets both.
  \<^item> \<^verbatim>\<open>Artifact\<close>: \<^verbatim>\<open>PublishJSON\<close> and \<^verbatim>\<open>ResolveJSON\<close>; their lemmas hold under the store contract and reach the local store
    through its interpretation.
  \<^item> \<^verbatim>\<open>Exec\<close>, \<^verbatim>\<open>StepRun\<close>, \<^verbatim>\<open>MapRun\<close>, \<^verbatim>\<open>Run\<close>, \<^verbatim>\<open>RunSettlement\<close>: the executor, from the triples of its effects to a whole run.
  \<^item> \<^verbatim>\<open>Fatal\<close>, \<^verbatim>\<open>Events\<close>: \<^verbatim>\<open>fatal.go\<close> and \<^verbatim>\<open>events.go\<close>.
  \<^item> \<^verbatim>\<open>TaskProcess\<close>, \<^verbatim>\<open>Invoker\<close>, \<^verbatim>\<open>Pool\<close>: the output ring of \<^verbatim>\<open>taskprocess/run.go\<close>; descriptors as files, the runner's
    command and \<^verbatim>\<open>invokeOne\<close> of \<^verbatim>\<open>invoker.go\<close> over a host of operating-system calls; \<^verbatim>\<open>InvokeSteps\<close> as a pool of workers
    whose steps interleave.

  \<^bold>\<open>Modelling conventions.\<close>
  A Go string or byte slice is a \<^typ>\<open>string\<close>, one character per byte. A struct is a record, a map is a function to
  options or an association list where its order or duplicates matter, a pointer that may be nil is an option. An
  error is the left of a sum, or \<^verbatim>\<open>Fail\<close> of \<^verbatim>\<open>Exec\<close>; a panic is \<^verbatim>\<open>Panic\<close>, and no triple admits one. \<^verbatim>\<open>uint32\<close> fields are
  32-bit words, durations are integers with \<^verbatim>\<open>wrap64\<close>. The random order of a Go map range is an argument, over which
  the theorems quantify. Texts of errors that only reach a caller's terminal are abridged; texts that reach the
  journal, the fatal signal or an event are the code's.

  \<^bold>\<open>The environment of the executor.\<close>
  Store, clock, invoker, artifact runtime and the caller's context are a record of functions on a world of their own
  (\<^verbatim>\<open>environment\<close>), so one choice of it is one interleaving of their effects. The named hypotheses are \<^verbatim>\<open>honest\<close> (only an
  invocation reports a fatal run, as a failed outcome of a dispatched node, and its error is fatal only beside such an
  outcome) and \<^verbatim>\<open>hook_safe\<close> (the published schema of an exit hook admits safe path segments as its id). The number printer of \<^verbatim>\<open>strconv\<close> is a parameter with the laws \<^verbatim>\<open>number_codec\<close>;
  JSON schema validation is a parameter, except for the schemas published under \<^verbatim>\<open>conformance/schema\<close> that the model
  states as definitions.

  \<^bold>\<open>What the lemmas show.\<close>
  The schedule is the unique order in which the least ready node goes first, exists exactly for acyclic closed
  graphs, and does not depend on declaration order. Cycle reports are cycles, reachability is reachability.
  Canonicalisation is idempotent, independent of member order and injective on documents. Every journal a run hands to
  the store is accepted by the journal's reader, and a run that settles leaves nothing pending or running. Keys
  stay inside the store and identify what they name. The local store refines a map of objects and no crash leaves
  an object under a key with half a body or without its metadata. A published artifact resolves to its value, one
  key never holds two values, and calm disks let publication finish. A fatal cause stays the first one, its
  polling ends. A batch of invocations ends, runs each step at most once
  under its limits and keeps the contract the executor assumes; invocations side by side share no file, and a task's captured output is its last mebibyte. The event stream numbers its events, reports an attempt once, and closes with the run.

  \<^bold>\<open>Bounds and fuel.\<close>
  No definition has arbitrary fuel. The retry loop recurses on the attempts that are left, \<^verbatim>\<open>maxAttempts - 1\<close>, because
  the code continues only below the maximum; Kahn's loop on the number of nodes, each of which enters the queue once;
  the searches on the nodes not yet visited; the reader of JSON on the length of its input with the code's depth
  limit; the polling loop on the readings its caller supplies. SHA-256 is computed by the model (\<^verbatim>\<open>Sha256\<close>); where an
  injective digest would be needed a theorem offers the collision as an alternative.

  \<^bold>\<open>Faults.\<close>
  Each file operation of the local store may fail or be cut short, and a write may leave a prefix of its bytes: the
  theorems on crashes quantify over where the operation stops. The observer of events is a step relation whose steps
  are its critical sections, so its theorems hold for every interleaving of the invoker's goroutines.

  \<^bold>\<open>Not modelled.\<close>
  The semantic diagnostics of \<^verbatim>\<open>spec.go\<close> beside its graph passes and exit hook; value parameters and the plan compiler;
  the operating system's calls behind a host record; listings of the local store; the S3 client, source archives, isolated pods,
  environment probes, the Argo, control plane and deployment targets, which write documents for other systems; command
  lines; generated protocol buffers, whose accessors are read as record fields; test data generators.
\<close>

end
